(* ===== verification/Binder_Prelude.thy ===== *)
theory Binder_Prelude
  imports Main "HOL-Library.Word" "HOL-Library.Monad_Syntax"
begin

text \<open>
  Shared material of the development: the machine types of the C sources, the
  collections of facts the component proofs draw on, C's signed counters,
  little-endian encoding of words as bytes, reads and writes inside a byte
  block, and a few generic facts on lists, maps and the option monad.

  Fallible kernel code is written in the option monad: \<open>None\<close> is undefined
  behaviour of the C program (a dereference of memory that is not allocated, a
  signed overflow, a \<open>container_of\<close> of the wrong container), never an error code.
  Error codes are ordinary results.
\<close>

unbundle bit_operations_syntax

section \<open>Types and collections\<close>

type_synonym byte = "8 word"
type_synonym u32 = "32 word"
type_synonym u64 = "64 word"

text \<open>The address of a kernel object; distinct allocations have distinct addresses.\<close>
type_synonym addr = nat

named_theorems abi_defs \<open>the constants of the binder ABI\<close>
named_theorems op_defs \<open>the definitions of the operations, for evaluation\<close>
named_theorems frame_simps \<open>what an operation leaves unchanged\<close>

lemma unat_bounded: "unat (w :: u64) < 2 ^ 64"
  using unsigned_less [of w, where 'a = nat] by simp

section \<open>C's signed counters\<close>

text \<open>
  The reference counts of the driver are \<open>int\<close>. Their increments and decrements
  are undefined at the ends of the range, which is the value \<open>None\<close> here.
\<close>

definition int_max :: int where
  "int_max = 2147483647"

definition int_inc :: "int \<Rightarrow> int option" where
  "int_inc i = (if i < int_max then Some (i + 1) else None)"

definition int_dec :: "int \<Rightarrow> int option" where
  "int_dec i = (if - int_max - 1 < i then Some (i - 1) else None)"

lemma int_inc_Some [simp]: "int_inc i = Some j \<longleftrightarrow> i < int_max \<and> j = i + 1"
  by (auto simp: int_inc_def)

lemma int_dec_Some [simp]: "int_dec i = Some j \<longleftrightarrow> - int_max - 1 < i \<and> j = i - 1"
  by (auto simp: int_dec_def)

lemma int_inc_eq: "i < int_max \<Longrightarrow> int_inc i = Some (i + 1)"
  by simp

lemma int_dec_eq: "0 \<le> i \<Longrightarrow> int_dec i = Some (i - 1)"
  by (simp add: int_max_def)

section \<open>Words as little-endian bytes\<close>

primrec word_le :: "nat \<Rightarrow> 'a::len word \<Rightarrow> byte list" where
  "word_le 0 w = []"
| "word_le (Suc n) w = ucast w # word_le n (drop_bit 8 w)"

primrec le_word :: "byte list \<Rightarrow> 'a::len word" where
  "le_word [] = 0"
| "le_word (b # bs) = ucast b OR push_bit 8 (le_word bs)"

lemma length_word_le [simp]: "length (word_le n w) = n"
  by (induction n arbitrary: w) simp_all

lemma le_word_word_le: "le_word (word_le n w) = take_bit (8 * n) (w :: 'a::len word)"
proof (induction n arbitrary: w)
  case 0
  then show ?case by simp
next
  case (Suc n)
  show ?case
    by (simp add: Suc bit_eq_iff bit_simps) (auto simp: bit_simps)
qed

lemma le_word_u32 [simp]: "le_word (word_le 4 w) = (w :: u32)"
  by (simp add: le_word_word_le take_bit_word_eq_self)

lemma le_word_u64 [simp]: "le_word (word_le 8 w) = (w :: u64)"
  by (simp add: le_word_word_le take_bit_word_eq_self)

lemma word_le_4: "word_le 4 (w :: u32) =
    [ucast w, ucast (drop_bit 8 w), ucast (drop_bit 16 w), ucast (drop_bit 24 w)]"
  by (simp add: eval_nat_numeral)

section \<open>Blocks of bytes\<close>

definition get_bytes :: "nat \<Rightarrow> nat \<Rightarrow> byte list \<Rightarrow> byte list" where
  "get_bytes off n bs = take n (drop off bs)"

definition put_bytes :: "nat \<Rightarrow> byte list \<Rightarrow> byte list \<Rightarrow> byte list" where
  "put_bytes off xs bs = take off bs @ xs @ drop (off + length xs) bs"

definition get_u32 :: "nat \<Rightarrow> byte list \<Rightarrow> u32" where
  "get_u32 off bs = le_word (get_bytes off 4 bs)"

definition get_u64 :: "nat \<Rightarrow> byte list \<Rightarrow> u64" where
  "get_u64 off bs = le_word (get_bytes off 8 bs)"

definition put_u32 :: "nat \<Rightarrow> u32 \<Rightarrow> byte list \<Rightarrow> byte list" where
  "put_u32 off w = put_bytes off (word_le 4 w)"

definition put_u64 :: "nat \<Rightarrow> u64 \<Rightarrow> byte list \<Rightarrow> byte list" where
  "put_u64 off w = put_bytes off (word_le 8 w)"

lemma length_put_bytes [simp]:
  "off + length xs \<le> length bs \<Longrightarrow> length (put_bytes off xs bs) = length bs"
  by (simp add: put_bytes_def)

lemma length_put_u32 [simp]: "off + 4 \<le> length bs \<Longrightarrow> length (put_u32 off w bs) = length bs"
  by (simp add: put_u32_def)

lemma length_put_u64 [simp]: "off + 8 \<le> length bs \<Longrightarrow> length (put_u64 off w bs) = length bs"
  by (simp add: put_u64_def)

lemma get_put_bytes:
  "off + length xs \<le> length bs \<Longrightarrow> get_bytes off (length xs) (put_bytes off xs bs) = xs"
  by (simp add: get_bytes_def put_bytes_def)

lemma get_put_bytes_other:
  assumes "off + length xs \<le> length bs" and "o' + n \<le> off \<or> off + length xs \<le> o'"
  shows "get_bytes o' n (put_bytes off xs bs) = get_bytes o' n bs"
proof (rule nth_equalityI)
  show "length (get_bytes o' n (put_bytes off xs bs)) = length (get_bytes o' n bs)"
    using assms(1) by (simp add: get_bytes_def)
next
  fix i assume "i < length (get_bytes o' n (put_bytes off xs bs))"
  then have i: "i < n" "o' + i < length bs"
    using assms(1) by (auto simp: get_bytes_def)
  have "put_bytes off xs bs ! (o' + i) = bs ! (o' + i)"
    using assms i by (auto simp: put_bytes_def nth_append min_def)
  then show "get_bytes o' n (put_bytes off xs bs) ! i = get_bytes o' n bs ! i"
    using assms(1) i by (simp add: get_bytes_def)
qed

lemma get_put_u32 [simp]:
  "off + 4 \<le> length bs \<Longrightarrow> get_u32 off (put_u32 off w bs) = w"
  using get_put_bytes [of off "word_le 4 w" bs] by (simp add: get_u32_def put_u32_def)

lemma get_put_u64 [simp]:
  "off + 8 \<le> length bs \<Longrightarrow> get_u64 off (put_u64 off w bs) = w"
  using get_put_bytes [of off "word_le 8 w" bs] by (simp add: get_u64_def put_u64_def)

lemma get_u32_put_u32_other [simp]:
  "off + 4 \<le> length bs \<Longrightarrow> o' + 4 \<le> off \<or> off + 4 \<le> o' \<Longrightarrow>
    get_u32 o' (put_u32 off w bs) = get_u32 o' bs"
  by (simp add: get_u32_def put_u32_def get_put_bytes_other)

lemma get_u32_put_u64_other [simp]:
  "off + 8 \<le> length bs \<Longrightarrow> o' + 4 \<le> off \<or> off + 8 \<le> o' \<Longrightarrow>
    get_u32 o' (put_u64 off w bs) = get_u32 o' bs"
  by (simp add: get_u32_def put_u64_def get_put_bytes_other)

lemma get_u64_put_u32_other [simp]:
  "off + 4 \<le> length bs \<Longrightarrow> o' + 8 \<le> off \<or> off + 4 \<le> o' \<Longrightarrow>
    get_u64 o' (put_u32 off w bs) = get_u64 o' bs"
  by (simp add: get_u64_def put_u32_def get_put_bytes_other)

lemma get_u64_put_u64_other [simp]:
  "off + 8 \<le> length bs \<Longrightarrow> o' + 8 \<le> off \<or> off + 8 \<le> o' \<Longrightarrow>
    get_u64 o' (put_u64 off w bs) = get_u64 o' bs"
  by (simp add: get_u64_def put_u64_def get_put_bytes_other)

section \<open>Lists\<close>

lemma filter_remove1_length:
  "x \<in> set xs \<Longrightarrow>
    length (filter P xs) = length (filter P (remove1 x xs)) + (if P x then 1 else 0)"
  by (induction xs) auto

lemma length_filter_cong: "(\<And>x. x \<in> set xs \<Longrightarrow> P x = Q x) \<Longrightarrow>
    length (filter P xs) = length (filter Q xs)"
  by (metis (mono_tags, lifting) filter_cong)

lemma find_SomeD: "find P xs = Some x \<Longrightarrow> x \<in> set xs \<and> P x"
  by (metis find_Some_iff nth_mem)

lemma find_NoneD: "find P xs = None \<Longrightarrow> x \<in> set xs \<Longrightarrow> \<not> P x"
  by (simp add: find_None_iff)

text \<open>The first element with a property, with what is before and after it.\<close>

fun split_find :: "('a \<Rightarrow> bool) \<Rightarrow> 'a list \<Rightarrow> ('a list \<times> 'a \<times> 'a list) option" where
  "split_find P [] = None"
| "split_find P (x # xs) =
     (if P x then Some ([], x, xs)
      else map_option (\<lambda>(pre, y, post). (x # pre, y, post)) (split_find P xs))"

lemma split_find_Some: "split_find P xs = Some (pre, x, post) \<Longrightarrow>
    xs = pre @ x # post \<and> P x \<and> (\<forall>y \<in> set pre. \<not> P y)"
  by (induction xs arbitrary: pre) (auto split: if_splits)

lemma split_find_None [simp]: "split_find P xs = None \<longleftrightarrow> (\<forall>x \<in> set xs. \<not> P x)"
  by (induction xs) auto

lemma split_find_at: "P x \<Longrightarrow> (\<forall>y \<in> set pre. \<not> P y) \<Longrightarrow>
    split_find P (pre @ x # post) = Some (pre, x, post)"
  by (induction pre) auto

lemma find_split_find: "find P xs = map_option (fst \<circ> snd) (split_find P xs)"
  by (induction xs) (auto simp: option.map_comp comp_def split_def)

section \<open>The option monad\<close>

lemma bind_SomeE:
  assumes "Option.bind m f = Some y"
  obtains x where "m = Some x" and "f x = Some y"
  using assms by (auto simp: bind_eq_Some_conv)

end
