(* ===== verification/Binder_ABI.thy ===== *)
theory Binder_ABI
  imports Binder_Prelude
begin

text \<open>
  The wire ABI of \<^verbatim>\<open>include/fs/devfs/binder.h\<close>: ioctl encoding, object types and
  flags, the layout of the wire structs, the ioctl numbers and the two command
  streams (\<open>BC_\<close> from the client, \<open>BR_\<close> from the driver), with the byte encodings
  the driver reads and writes, and the compile-time checks of
  \<^verbatim>\<open>tools/binder-abi-test.c\<close> as theorems.
\<close>

section \<open>Ioctl encoding\<close>

definition BINDER_IOC_NONE :: u32 where [abi_defs]: "BINDER_IOC_NONE = 0"

definition BINDER_IOC_WRITE :: u32 where [abi_defs]: "BINDER_IOC_WRITE = 1"

definition BINDER_IOC_READ :: u32 where [abi_defs]: "BINDER_IOC_READ = 2"

definition BINDER_IOC :: "u32 \<Rightarrow> u32 \<Rightarrow> u32 \<Rightarrow> u32 \<Rightarrow> u32" where
  "BINDER_IOC dir ty nr sz = (push_bit 30 dir OR push_bit 16 sz OR push_bit 8 ty OR nr)"

definition BINDER_CMD_HOST :: "u32 \<Rightarrow> u32" where
  "BINDER_CMD_HOST cmd = cmd OR 0xC0000000"

definition BINDER_CMD_KEY :: "u32 \<Rightarrow> u32" where
  "BINDER_CMD_KEY cmd = cmd AND 0x3FFFFFFF"

text \<open>BSD's bit for "the argument is copied in" (\<^verbatim>\<open>sys/ioccom.h\<close>).\<close>
definition IOC_IN :: u32 where [abi_defs]: "IOC_IN = 0x80000000"

section \<open>Object types and flags\<close>

definition B_PACK_CHARS :: "u32 \<Rightarrow> u32 \<Rightarrow> u32 \<Rightarrow> u32 \<Rightarrow> u32" where
  "B_PACK_CHARS c1 c2 c3 c4 = (push_bit 24 c1 OR push_bit 16 c2 OR push_bit 8 c3 OR c4)"

definition B_TYPE_LARGE :: u32 where [abi_defs]: "B_TYPE_LARGE = 0x85"

definition BINDER_TYPE_BINDER :: u32 where
  [abi_defs]: "BINDER_TYPE_BINDER = B_PACK_CHARS 0x73 0x62 0x2a B_TYPE_LARGE"  \<comment> \<open>sb*\<close>

definition BINDER_TYPE_WEAK_BINDER :: u32 where
  [abi_defs]: "BINDER_TYPE_WEAK_BINDER = B_PACK_CHARS 0x77 0x62 0x2a B_TYPE_LARGE"  \<comment> \<open>wb*\<close>

definition BINDER_TYPE_HANDLE :: u32 where
  [abi_defs]: "BINDER_TYPE_HANDLE = B_PACK_CHARS 0x73 0x68 0x2a B_TYPE_LARGE"  \<comment> \<open>sh*\<close>

definition BINDER_TYPE_WEAK_HANDLE :: u32 where
  [abi_defs]: "BINDER_TYPE_WEAK_HANDLE = B_PACK_CHARS 0x77 0x68 0x2a B_TYPE_LARGE"  \<comment> \<open>wh*\<close>

definition BINDER_TYPE_FD :: u32 where
  [abi_defs]: "BINDER_TYPE_FD = B_PACK_CHARS 0x66 0x64 0x2a B_TYPE_LARGE"  \<comment> \<open>fd*\<close>

definition BINDER_TYPE_FDA :: u32 where
  [abi_defs]: "BINDER_TYPE_FDA = B_PACK_CHARS 0x66 0x64 0x61 B_TYPE_LARGE"  \<comment> \<open>fda\<close>

definition BINDER_TYPE_PTR :: u32 where
  [abi_defs]: "BINDER_TYPE_PTR = B_PACK_CHARS 0x70 0x74 0x2a B_TYPE_LARGE"  \<comment> \<open>pt*\<close>

definition FLAT_BINDER_FLAG_ACCEPTS_FDS :: u32 where [abi_defs]: "FLAT_BINDER_FLAG_ACCEPTS_FDS = 0x0100"

definition FLAT_BINDER_FLAG_TXN_SECURITY_CTX :: u32 where [abi_defs]: "FLAT_BINDER_FLAG_TXN_SECURITY_CTX = 0x1000"

definition BINDER_BUFFER_FLAG_HAS_PARENT :: u32 where [abi_defs]: "BINDER_BUFFER_FLAG_HAS_PARENT = 0x01"

definition TF_ONE_WAY :: u32 where [abi_defs]: "TF_ONE_WAY = 0x01"

section \<open>Ioctl numbers\<close>

definition BINDER_WRITE_READ :: u32 where [abi_defs]: "BINDER_WRITE_READ = 0xC0306201"

definition BINDER_SET_IDLE_TIMEOUT :: u32 where [abi_defs]: "BINDER_SET_IDLE_TIMEOUT = 0x40086203"

definition BINDER_SET_MAX_THREADS :: u32 where [abi_defs]: "BINDER_SET_MAX_THREADS = 0x40046205"

definition BINDER_SET_IDLE_PRIORITY :: u32 where [abi_defs]: "BINDER_SET_IDLE_PRIORITY = 0x40046206"

definition BINDER_SET_CONTEXT_MGR :: u32 where [abi_defs]: "BINDER_SET_CONTEXT_MGR = 0x40046207"

definition BINDER_THREAD_EXIT :: u32 where [abi_defs]: "BINDER_THREAD_EXIT = 0x40046208"

definition BINDER_VERSION :: u32 where [abi_defs]: "BINDER_VERSION = 0xC0046209"

definition BINDER_GET_NODE_DEBUG_INFO :: u32 where [abi_defs]: "BINDER_GET_NODE_DEBUG_INFO = 0xC018620B"

definition BINDER_GET_NODE_INFO_FOR_REF :: u32 where [abi_defs]: "BINDER_GET_NODE_INFO_FOR_REF = 0xC018620C"

definition BINDER_SET_CONTEXT_MGR_EXT :: u32 where [abi_defs]: "BINDER_SET_CONTEXT_MGR_EXT = 0x4018620D"

definition BINDER_FREEZE :: u32 where [abi_defs]: "BINDER_FREEZE = 0x400C620E"

definition BINDER_GET_FROZEN_INFO :: u32 where [abi_defs]: "BINDER_GET_FROZEN_INFO = 0xC00C620F"

definition BINDER_ENABLE_ONEWAY_SPAM_DETECTION :: u32 where [abi_defs]: "BINDER_ENABLE_ONEWAY_SPAM_DETECTION = 0x40046210"

definition BINDER_GET_EXTENDED_ERROR :: u32 where [abi_defs]: "BINDER_GET_EXTENDED_ERROR = 0xC00C6211"

definition BINDER_CTL_ADD :: u32 where [abi_defs]: "BINDER_CTL_ADD = 0xC1086201"

definition BINDER_MSL_SET_ARENA :: u32 where [abi_defs]: "BINDER_MSL_SET_ARENA = 0xC01062E0"

definition BINDER_MSL_ABI_VERSION :: u32 where [abi_defs]: "BINDER_MSL_ABI_VERSION = 0xC00462E1"

definition BINDER_CURRENT_PROTOCOL_VERSION :: u32 where
  [abi_defs]: "BINDER_CURRENT_PROTOCOL_VERSION = 8"

definition BINDER_MSL_ABI_CURRENT :: u32 where [abi_defs]: "BINDER_MSL_ABI_CURRENT = 1"

definition BINDER_MSL_ARENA_MIN :: u64 where [abi_defs]: "BINDER_MSL_ARENA_MIN = 128 * 1024"

definition BINDER_MSL_ARENA_MAX :: u64 where [abi_defs]: "BINDER_MSL_ARENA_MAX = 4 * 1024 * 1024"

definition BINDERFS_MAX_NAME :: nat where [abi_defs]: "BINDERFS_MAX_NAME = 255"

section \<open>Driver returns and driver commands\<close>

definition BR_ERROR :: u32 where [abi_defs]: "BR_ERROR = 0x80047200"

definition BR_OK :: u32 where [abi_defs]: "BR_OK = 0x00007201"

definition BR_TRANSACTION_SEC_CTX :: u32 where [abi_defs]: "BR_TRANSACTION_SEC_CTX = 0x80487202"

definition BR_TRANSACTION :: u32 where [abi_defs]: "BR_TRANSACTION = 0x80407202"

definition BR_REPLY :: u32 where [abi_defs]: "BR_REPLY = 0x80407203"

definition BR_ACQUIRE_RESULT :: u32 where [abi_defs]: "BR_ACQUIRE_RESULT = 0x80047204"

definition BR_DEAD_REPLY :: u32 where [abi_defs]: "BR_DEAD_REPLY = 0x00007205"

definition BR_TRANSACTION_COMPLETE :: u32 where [abi_defs]: "BR_TRANSACTION_COMPLETE = 0x00007206"

definition BR_INCREFS :: u32 where [abi_defs]: "BR_INCREFS = 0x80107207"

definition BR_ACQUIRE :: u32 where [abi_defs]: "BR_ACQUIRE = 0x80107208"

definition BR_RELEASE :: u32 where [abi_defs]: "BR_RELEASE = 0x80107209"

definition BR_DECREFS :: u32 where [abi_defs]: "BR_DECREFS = 0x8010720A"

definition BR_ATTEMPT_ACQUIRE :: u32 where [abi_defs]: "BR_ATTEMPT_ACQUIRE = 0x8018720B"

definition BR_NOOP :: u32 where [abi_defs]: "BR_NOOP = 0x0000720C"

definition BR_SPAWN_LOOPER :: u32 where [abi_defs]: "BR_SPAWN_LOOPER = 0x0000720D"

definition BR_FINISHED :: u32 where [abi_defs]: "BR_FINISHED = 0x0000720E"

definition BR_DEAD_BINDER :: u32 where [abi_defs]: "BR_DEAD_BINDER = 0x8008720F"

definition BR_CLEAR_DEATH_NOTIFICATION_DONE :: u32 where [abi_defs]: "BR_CLEAR_DEATH_NOTIFICATION_DONE = 0x80087210"

definition BR_FAILED_REPLY :: u32 where [abi_defs]: "BR_FAILED_REPLY = 0x00007211"

definition BR_FROZEN_REPLY :: u32 where [abi_defs]: "BR_FROZEN_REPLY = 0x00007212"

definition BR_ONEWAY_SPAM_SUSPECT :: u32 where [abi_defs]: "BR_ONEWAY_SPAM_SUSPECT = 0x00007213"

definition BR_TRANSACTION_PENDING_FROZEN :: u32 where [abi_defs]: "BR_TRANSACTION_PENDING_FROZEN = 0x00007214"

definition BC_TRANSACTION :: u32 where [abi_defs]: "BC_TRANSACTION = 0x40406300"

definition BC_REPLY :: u32 where [abi_defs]: "BC_REPLY = 0x40406301"

definition BC_ACQUIRE_RESULT :: u32 where [abi_defs]: "BC_ACQUIRE_RESULT = 0x40046302"

definition BC_FREE_BUFFER :: u32 where [abi_defs]: "BC_FREE_BUFFER = 0x40086303"

definition BC_INCREFS :: u32 where [abi_defs]: "BC_INCREFS = 0x40046304"

definition BC_ACQUIRE :: u32 where [abi_defs]: "BC_ACQUIRE = 0x40046305"

definition BC_RELEASE :: u32 where [abi_defs]: "BC_RELEASE = 0x40046306"

definition BC_DECREFS :: u32 where [abi_defs]: "BC_DECREFS = 0x40046307"

definition BC_INCREFS_DONE :: u32 where [abi_defs]: "BC_INCREFS_DONE = 0x40106308"

definition BC_ACQUIRE_DONE :: u32 where [abi_defs]: "BC_ACQUIRE_DONE = 0x40106309"

definition BC_ATTEMPT_ACQUIRE :: u32 where [abi_defs]: "BC_ATTEMPT_ACQUIRE = 0x4008630A"

definition BC_REGISTER_LOOPER :: u32 where [abi_defs]: "BC_REGISTER_LOOPER = 0x0000630B"

definition BC_ENTER_LOOPER :: u32 where [abi_defs]: "BC_ENTER_LOOPER = 0x0000630C"

definition BC_EXIT_LOOPER :: u32 where [abi_defs]: "BC_EXIT_LOOPER = 0x0000630D"

definition BC_REQUEST_DEATH_NOTIFICATION :: u32 where [abi_defs]: "BC_REQUEST_DEATH_NOTIFICATION = 0x400C630E"

definition BC_CLEAR_DEATH_NOTIFICATION :: u32 where [abi_defs]: "BC_CLEAR_DEATH_NOTIFICATION = 0x400C630F"

definition BC_DEAD_BINDER_DONE :: u32 where [abi_defs]: "BC_DEAD_BINDER_DONE = 0x40086310"

definition BC_TRANSACTION_SG :: u32 where [abi_defs]: "BC_TRANSACTION_SG = 0x40486311"

definition BC_REPLY_SG :: u32 where [abi_defs]: "BC_REPLY_SG = 0x40486312"

section \<open>Layout of the wire structs\<close>

text \<open>
  A member is its size and alignment; a struct is laid out in order, each member
  at the next multiple of its alignment, and padded to the largest of them. A
  packed struct has no padding.
\<close>

type_synonym c_member = "nat \<times> nat"

definition align_up :: "nat \<Rightarrow> nat \<Rightarrow> nat" where
  "align_up n a = (n + a - 1) div a * a"

primrec layout_end :: "nat \<Rightarrow> c_member list \<Rightarrow> nat" where
  "layout_end o' [] = o'"
| "layout_end o' (m # ms) = layout_end (align_up o' (snd m) + fst m) ms"

definition struct_align :: "c_member list \<Rightarrow> nat" where
  "struct_align ms = fold max (map snd ms) 1"

definition struct_size :: "c_member list \<Rightarrow> nat" where
  "struct_size ms = align_up (layout_end 0 ms) (struct_align ms)"

definition packed_size :: "c_member list \<Rightarrow> nat" where
  "packed_size ms = sum_list (map fst ms)"

abbreviation m32 :: c_member where "m32 \<equiv> (4, 4)"
abbreviation m64 :: c_member where "m64 \<equiv> (8, 8)"

definition binder_object_header :: "c_member list" where
  "binder_object_header = [m32]"

definition flat_binder_object :: "c_member list" where
  "flat_binder_object = [m32, m32, m64, m64]"

definition binder_fd_object :: "c_member list" where
  "binder_fd_object = [m32, m32, m64, m64]"

definition binder_buffer_object :: "c_member list" where
  "binder_buffer_object = [m32, m32, m64, m64, m64, m64]"

definition binder_fd_array_object :: "c_member list" where
  "binder_fd_array_object = [m32, m32, m64, m64, m64]"

definition binder_write_read_layout :: "c_member list" where
  "binder_write_read_layout = [m64, m64, m64, m64, m64, m64]"

definition binder_version :: "c_member list" where
  "binder_version = [m32]"

definition binder_node_debug_info_layout :: "c_member list" where
  "binder_node_debug_info_layout = [m64, m64, m32, m32]"

definition binder_node_info_for_ref_layout :: "c_member list" where
  "binder_node_info_for_ref_layout = [m32, m32, m32, m32, m32, m32]"

definition binder_freeze_info_layout :: "c_member list" where
  "binder_freeze_info_layout = [m32, m32, m32]"

definition binder_frozen_status_info_layout :: "c_member list" where
  "binder_frozen_status_info_layout = [m32, m32, m32]"

definition binder_extended_error_layout :: "c_member list" where
  "binder_extended_error_layout = [m32, m32, m32]"

definition binder_transaction_data_layout :: "c_member list" where
  "binder_transaction_data_layout = [m64, m64, m32, m32, m32, m32, m64, m64, (16, 8)]"

definition binder_transaction_data_secctx_layout :: "c_member list" where
  "binder_transaction_data_secctx_layout =
    [(struct_size binder_transaction_data_layout, 8), m64]"

definition binder_transaction_data_sg_layout :: "c_member list" where
  "binder_transaction_data_sg_layout =
    [(struct_size binder_transaction_data_layout, 8), m64]"

definition binder_ptr_cookie_layout :: "c_member list" where
  "binder_ptr_cookie_layout = [m64, m64]"

definition binder_handle_cookie_layout :: "c_member list" where
  "binder_handle_cookie_layout = [m32, m64]"

definition binder_pri_desc :: "c_member list" where
  "binder_pri_desc = [m32, m32]"

definition binder_pri_ptr_cookie :: "c_member list" where
  "binder_pri_ptr_cookie = [m32, m64, m64]"

definition binderfs_device_layout :: "c_member list" where
  "binderfs_device_layout = [(BINDERFS_MAX_NAME + 1, 1), m32, m32]"

definition binder_msl_arena_layout :: "c_member list" where
  "binder_msl_arena_layout = [m64, m64]"

lemmas layout_defs =
  binder_object_header_def flat_binder_object_def binder_fd_object_def
  binder_buffer_object_def binder_fd_array_object_def binder_write_read_layout_def
  binder_version_def binder_node_debug_info_layout_def binder_node_info_for_ref_layout_def
  binder_freeze_info_layout_def binder_frozen_status_info_layout_def
  binder_extended_error_layout_def binder_transaction_data_layout_def
  binder_transaction_data_secctx_layout_def binder_transaction_data_sg_layout_def
  binder_ptr_cookie_layout_def binder_handle_cookie_layout_def binder_pri_desc_def
  binder_pri_ptr_cookie_def binderfs_device_layout_def binder_msl_arena_layout_def
  struct_size_def struct_align_def packed_size_def align_up_def BINDERFS_MAX_NAME_def

text \<open>The rows of \<^verbatim>\<open>tools/binder-abi-test.c\<close>: a number, and the direction, type,
  number and payload size it is checked against.\<close>

definition wire_size :: "c_member list \<Rightarrow> u32" where
  "wire_size ms = of_nat (struct_size ms)"

definition abi_checks :: "(u32 \<times> u32 \<times> u32 \<times> u32 \<times> u32) list" where
  "abi_checks = (let W = BINDER_IOC_WRITE; R = BINDER_IOC_READ; WR = W OR R;
      N = BINDER_IOC_NONE; b = 0x62; r = 0x72; c = 0x63 in
   [(BINDER_WRITE_READ, WR, b, 1, wire_size binder_write_read_layout),
    (BINDER_SET_IDLE_TIMEOUT, W, b, 3, 8),
    (BINDER_SET_MAX_THREADS, W, b, 5, 4),
    (BINDER_SET_IDLE_PRIORITY, W, b, 6, 4),
    (BINDER_SET_CONTEXT_MGR, W, b, 7, 4),
    (BINDER_THREAD_EXIT, W, b, 8, 4),
    (BINDER_VERSION, WR, b, 9, wire_size binder_version),
    (BINDER_GET_NODE_DEBUG_INFO, WR, b, 11, wire_size binder_node_debug_info_layout),
    (BINDER_GET_NODE_INFO_FOR_REF, WR, b, 12, wire_size binder_node_info_for_ref_layout),
    (BINDER_SET_CONTEXT_MGR_EXT, W, b, 13, wire_size flat_binder_object),
    (BINDER_FREEZE, W, b, 14, wire_size binder_freeze_info_layout),
    (BINDER_GET_FROZEN_INFO, WR, b, 15, wire_size binder_frozen_status_info_layout),
    (BINDER_ENABLE_ONEWAY_SPAM_DETECTION, W, b, 16, 4),
    (BINDER_GET_EXTENDED_ERROR, WR, b, 17, wire_size binder_extended_error_layout),
    (BINDER_CTL_ADD, WR, b, 1, wire_size binderfs_device_layout),
    (BINDER_MSL_SET_ARENA, WR, b, 0xE0, wire_size binder_msl_arena_layout),
    (BINDER_MSL_ABI_VERSION, WR, b, 0xE1, 4),
    (BR_ERROR, R, r, 0, 4),
    (BR_OK, N, r, 1, 0),
    (BR_TRANSACTION_SEC_CTX, R, r, 2, wire_size binder_transaction_data_secctx_layout),
    (BR_TRANSACTION, R, r, 2, wire_size binder_transaction_data_layout),
    (BR_REPLY, R, r, 3, wire_size binder_transaction_data_layout),
    (BR_ACQUIRE_RESULT, R, r, 4, 4),
    (BR_DEAD_REPLY, N, r, 5, 0),
    (BR_TRANSACTION_COMPLETE, N, r, 6, 0),
    (BR_INCREFS, R, r, 7, wire_size binder_ptr_cookie_layout),
    (BR_ACQUIRE, R, r, 8, wire_size binder_ptr_cookie_layout),
    (BR_RELEASE, R, r, 9, wire_size binder_ptr_cookie_layout),
    (BR_DECREFS, R, r, 10, wire_size binder_ptr_cookie_layout),
    (BR_ATTEMPT_ACQUIRE, R, r, 11, wire_size binder_pri_ptr_cookie),
    (BR_NOOP, N, r, 12, 0),
    (BR_SPAWN_LOOPER, N, r, 13, 0),
    (BR_FINISHED, N, r, 14, 0),
    (BR_DEAD_BINDER, R, r, 15, 8),
    (BR_CLEAR_DEATH_NOTIFICATION_DONE, R, r, 16, 8),
    (BR_FAILED_REPLY, N, r, 17, 0),
    (BR_FROZEN_REPLY, N, r, 18, 0),
    (BR_ONEWAY_SPAM_SUSPECT, N, r, 19, 0),
    (BR_TRANSACTION_PENDING_FROZEN, N, r, 20, 0),
    (BC_TRANSACTION, W, c, 0, wire_size binder_transaction_data_layout),
    (BC_REPLY, W, c, 1, wire_size binder_transaction_data_layout),
    (BC_ACQUIRE_RESULT, W, c, 2, 4),
    (BC_FREE_BUFFER, W, c, 3, 8),
    (BC_INCREFS, W, c, 4, 4),
    (BC_ACQUIRE, W, c, 5, 4),
    (BC_RELEASE, W, c, 6, 4),
    (BC_DECREFS, W, c, 7, 4),
    (BC_INCREFS_DONE, W, c, 8, wire_size binder_ptr_cookie_layout),
    (BC_ACQUIRE_DONE, W, c, 9, wire_size binder_ptr_cookie_layout),
    (BC_ATTEMPT_ACQUIRE, W, c, 10, wire_size binder_pri_desc),
    (BC_REGISTER_LOOPER, N, c, 11, 0),
    (BC_ENTER_LOOPER, N, c, 12, 0),
    (BC_EXIT_LOOPER, N, c, 13, 0),
    (BC_REQUEST_DEATH_NOTIFICATION, W, c, 14, of_nat (packed_size binder_handle_cookie_layout)),
    (BC_CLEAR_DEATH_NOTIFICATION, W, c, 15, of_nat (packed_size binder_handle_cookie_layout)),
    (BC_DEAD_BINDER_DONE, W, c, 16, 8),
    (BC_TRANSACTION_SG, W, c, 17, wire_size binder_transaction_data_sg_layout),
    (BC_REPLY_SG, W, c, 18, wire_size binder_transaction_data_sg_layout)])"

definition abi_check :: "u32 \<times> u32 \<times> u32 \<times> u32 \<times> u32 \<Rightarrow> bool" where
  "abi_check row = (case row of (have, dir, ty, nr, n) \<Rightarrow> have = BINDER_IOC dir ty nr n)"

section \<open>Wire structs as bytes\<close>

text \<open>
  The union of \<open>struct binder_transaction_data\<close> that names the target is one
  64-bit field; its \<open>handle\<close> is the low half (little-endian hosts).
\<close>

record binder_transaction_data =
  tr_target :: u64
  tr_cookie :: u64
  tr_code :: u32
  tr_flags :: u32
  tr_sender_pid :: u32
  tr_sender_euid :: u32
  tr_data_size :: u64
  tr_offsets_size :: u64
  tr_buffer :: u64
  tr_offsets :: u64

definition tr_handle :: "'z binder_transaction_data_scheme \<Rightarrow> u32" where
  "tr_handle tr = ucast (tr_target tr)"

definition transaction_data_bytes :: "'z binder_transaction_data_scheme \<Rightarrow> byte list" where
  "transaction_data_bytes tr =
     word_le 8 (tr_target tr) @ word_le 8 (tr_cookie tr) @
     word_le 4 (tr_code tr) @ word_le 4 (tr_flags tr) @
     word_le 4 (tr_sender_pid tr) @ word_le 4 (tr_sender_euid tr) @
     word_le 8 (tr_data_size tr) @ word_le 8 (tr_offsets_size tr) @
     word_le 8 (tr_buffer tr) @ word_le 8 (tr_offsets tr)"

definition transaction_data_of :: "byte list \<Rightarrow> binder_transaction_data" where
  "transaction_data_of bs =
     \<lparr>tr_target = get_u64 0 bs, tr_cookie = get_u64 8 bs,
      tr_code = get_u32 16 bs, tr_flags = get_u32 20 bs,
      tr_sender_pid = get_u32 24 bs, tr_sender_euid = get_u32 28 bs,
      tr_data_size = get_u64 32 bs, tr_offsets_size = get_u64 40 bs,
      tr_buffer = get_u64 48 bs, tr_offsets = get_u64 56 bs\<rparr>"

definition ptr_cookie_bytes :: "u64 \<Rightarrow> u64 \<Rightarrow> byte list" where
  "ptr_cookie_bytes ptr cookie = word_le 8 ptr @ word_le 8 cookie"

section \<open>Facts\<close>

lemma get_bytes_append_left: "off + n \<le> length xs \<Longrightarrow>
    get_bytes off n (xs @ ys) = get_bytes off n xs"
  by (simp add: get_bytes_def)

lemma get_bytes_append_right: "length xs \<le> off \<Longrightarrow>
    get_bytes off n (xs @ ys) = get_bytes (off - length xs) n ys"
  by (simp add: get_bytes_def)

lemma get_bytes_all: "length xs = n \<Longrightarrow> get_bytes 0 n xs = xs"
  by (simp add: get_bytes_def)

lemmas get_bytes_append = get_bytes_append_left get_bytes_append_right get_bytes_all

lemma length_transaction_data_bytes [simp]: "length (transaction_data_bytes tr) = 64"
  by (simp add: transaction_data_bytes_def)

lemma length_ptr_cookie_bytes [simp]: "length (ptr_cookie_bytes p c) = 16"
  by (simp add: ptr_cookie_bytes_def)

lemma key_of_host [simp]: "BINDER_CMD_KEY (BINDER_CMD_HOST cmd) = BINDER_CMD_KEY cmd"
  by (simp add: BINDER_CMD_KEY_def BINDER_CMD_HOST_def bit.conj_disj_distrib2)

lemma abi_keys_distinct: "distinct (map (\<lambda>row. BINDER_CMD_KEY (fst row)) abi_checks)"
  by (simp add: abi_checks_def Let_def BINDER_CMD_KEY_def abi_defs)

text \<open>Every number of the ABI is the one its direction, type, sequence number and payload
  size encode to, the payload sizes being those of the struct layouts; and no two
  numbers of the ABI have the same key, so masking the direction bits out of a
  command never confuses it with another.\<close>

lemma abi_numbers_exact:
  "list_all abi_check abi_checks \<and> distinct (map (\<lambda>row. BINDER_CMD_KEY (fst row)) abi_checks)"
proof
  show "list_all abi_check abi_checks" by code_simp
qed (rule abi_keys_distinct)

lemma transaction_data_roundtrip: "transaction_data_of (transaction_data_bytes tr) =
    binder_transaction_data.truncate tr"
  by (simp add: transaction_data_of_def transaction_data_bytes_def get_u32_def get_u64_def
      get_bytes_append binder_transaction_data.truncate_def)

end
