(* ===== verification/Binder_State.thy ===== *)
theory Binder_State
  imports Binder_ABI
begin

text \<open>
  The driver's state (\<^verbatim>\<open>include/fs/devfs/binder_internal.h\<close>): work items and the
  queues that hold them, nodes, references, buffers, transactions, threads,
  processes and contexts, the diagnostic counters and the kernel services the
  driver calls.

  Every C object that is allocated on its own is a record in a map from
  addresses; freeing it removes it, so a stale pointer is an address the map
  does not define. A pointer field that the code compares with \<open>NULL\<close> is an
  \<open>addr option\<close>. \<open>LIST\<close> and \<open>TAILQ\<close> heads are lists of what they link. A work item is
  embedded in the object it describes, so a pointer to it (\<open>work_ptr\<close>) names that
  object, and \<open>container_of\<close> is a match on the constructor. Buffers only live on
  their process's list, which is kept by value.
\<close>

section \<open>Limits\<close>

definition BINDER_MAX_CONTEXTS :: nat where [abi_defs]: "BINDER_MAX_CONTEXTS = 16"

definition BINDER_CONTEXT_NAME_MAX :: nat where
  [abi_defs]: "BINDER_CONTEXT_NAME_MAX = BINDERFS_MAX_NAME + 1"

definition BINDER_MAX_TRANSACTION_SIZE :: u64 where
  [abi_defs]: "BINDER_MAX_TRANSACTION_SIZE = 1 * 1024 * 1024"

definition BINDER_ASYNC_FRACTION :: u64 where [abi_defs]: "BINDER_ASYNC_FRACTION = 2"

section \<open>Work items\<close>

text \<open>\<open>BINDER_WORK_NONE\<close> is the zero a freshly allocated item holds.\<close>

datatype binder_work_type =
    BINDER_WORK_NONE
  | BINDER_WORK_TRANSACTION
  | BINDER_WORK_TRANSACTION_COMPLETE
  | BINDER_WORK_RETURN_ERROR
  | BINDER_WORK_NODE
  | BINDER_WORK_DEAD_BINDER
  | BINDER_WORK_DEAD_BINDER_AND_CLEAR
  | BINDER_WORK_CLEAR_DEATH_NOTIFICATION

text \<open>The queues: \<open>proc->todo\<close>, \<open>thread->todo\<close> and \<open>node->async_todo\<close>.\<close>

datatype work_head = ProcTodo addr | ThreadTodo addr | AsyncTodo addr

text \<open>Where a work item is embedded; the last one is the \<open>tcomplete\<close> item a
  transaction allocates on its own.\<close>

datatype work_ptr =
    TxnWork addr
  | NodeWork addr
  | DeathWork addr
  | ReturnErrorWork addr
  | ReplyErrorWork addr
  | CompleteWork addr

record binder_work =
  w_queue :: "work_head option"
  w_type :: binder_work_type

definition new_work :: binder_work where
  "new_work = \<lparr>w_queue = None, w_type = BINDER_WORK_NONE\<rparr>"

definition BINDER_WORK_QUEUED :: "binder_work \<Rightarrow> bool" where
  "BINDER_WORK_QUEUED w \<longleftrightarrow> w_queue w \<noteq> None"

record binder_error =
  e_work :: binder_work
  e_cmd :: u32

section \<open>Nodes, references and death notifications\<close>

record binder_node =
  n_work :: binder_work
  n_proc :: "addr option"
  n_ptr :: u64
  n_cookie :: u64
  n_refs :: "addr list"
  n_internal_strong_refs :: int
  n_local_strong_refs :: int
  n_local_weak_refs :: int
  n_tmp_refs :: int
  n_has_strong_ref :: bool
  n_has_weak_ref :: bool
  n_pending_strong_ref :: bool
  n_pending_weak_ref :: bool
  n_has_async_transaction :: bool
  n_accept_fds :: bool
  n_is_dead :: bool
  n_flags :: u32
  n_async_todo :: "work_ptr list"
  n_debug_id :: u32

record binder_ref_death =
  d_work :: binder_work
  d_cookie :: u64

record binder_ref =
  r_proc :: addr
  r_node :: "addr option"
  r_desc :: u32
  r_strong :: int
  r_weak :: int
  r_death :: "addr option"
  r_debug_id :: u32

section \<open>Buffers and transactions\<close>

text \<open>\<open>b_id\<close> is the buffer's own address. \<open>b_kdata\<close> is the payload held in kernel
  memory until the buffer is freed.\<close>

record binder_buffer =
  b_id :: addr
  b_offset :: u64
  b_size :: u64
  b_free :: bool
  b_async :: bool
  b_allow_user_free :: bool
  b_data_size :: u64
  b_offsets_size :: u64
  b_extra_buffers_size :: u64
  b_transaction :: "addr option"
  b_target_node :: "addr option"
  b_kdata :: "byte list option"
  b_kdata_size :: u64
  b_debug_id :: u32

text \<open>A buffer is named by the process whose arena it is in and its address.\<close>

record binder_txn =
  x_work :: binder_work
  x_debug_id :: u32
  x_from :: "addr option"
  x_from_parent :: "addr option"
  x_to_proc :: "addr option"
  x_to_thread :: "addr option"
  x_to_parent :: "addr option"
  x_need_reply :: bool
  x_buffer :: "(addr \<times> addr) option"
  x_code :: u32
  x_flags :: u32
  x_sender_pid :: u32
  x_sender_euid :: u32

section \<open>Threads, processes and contexts\<close>

definition BINDER_LOOPER_STATE_REGISTERED :: u32 where
  [abi_defs]: "BINDER_LOOPER_STATE_REGISTERED = 0x01"

definition BINDER_LOOPER_STATE_ENTERED :: u32 where
  [abi_defs]: "BINDER_LOOPER_STATE_ENTERED = 0x02"

definition BINDER_LOOPER_STATE_EXITED :: u32 where
  [abi_defs]: "BINDER_LOOPER_STATE_EXITED = 0x04"

definition BINDER_LOOPER_STATE_INVALID :: u32 where
  [abi_defs]: "BINDER_LOOPER_STATE_INVALID = 0x08"

definition BINDER_LOOPER_STATE_WAITING :: u32 where
  [abi_defs]: "BINDER_LOOPER_STATE_WAITING = 0x10"

definition BINDER_LOOPER_STATE_NEED_RETURN :: u32 where
  [abi_defs]: "BINDER_LOOPER_STATE_NEED_RETURN = 0x20"

record binder_thread =
  t_proc :: "addr option"
  t_tid :: u64
  t_looper :: u32
  t_is_dead :: bool
  t_transaction_stack :: "addr option"
  t_todo :: "work_ptr list"
  t_return_error :: binder_error
  t_reply_error :: binder_error
  t_debug_id :: u32
  t_frozen :: bool
  t_freeze_timeout_ms :: u32

record binder_extended_error =
  ee_id :: u32
  ee_command :: u32
  ee_param :: u32

record binder_proc =
  p_pid :: u32
  p_context :: "nat option"
  p_threads :: "addr list"
  p_nodes :: "addr list"
  p_refs :: "addr list"
  p_todo :: "work_ptr list"
  p_max_threads :: int
  p_requested_threads :: int
  p_requested_threads_started :: int
  p_ready_threads :: int
  p_is_dead :: bool
  p_arena_addr :: u64
  p_arena_size :: u64
  p_buffers :: "binder_buffer list"
  p_free_async_space :: u64
  p_sel_recorded :: bool
  p_oneway_spam_detection :: bool
  p_last_error :: binder_extended_error

text \<open>Contexts are the entries of the array \<open>binder_contexts\<close>, named by their index.\<close>

record binder_context =
  c_name :: string
  c_mgr_node :: "addr option"
  c_mgr_uid :: u32
  c_mgr_uid_valid :: bool
  c_in_use :: bool
  c_devfs_handle :: "nat option"
  c_minor :: int
  c_procs :: "addr list"

section \<open>The state\<close>

text \<open>What the driver asks of the rest of the kernel without an answer: wakeups
  on a sleep channel, \<open>selwakeup\<close>, \<open>selthreadclear\<close>, \<open>selrecord\<close>, and the bytes written to the
  caller's memory.\<close>

datatype channel = ChanProc addr | ChanThread addr

datatype kernel_event =
    Wakeup channel
  | SelWakeup addr
  | SelThreadClear addr
  | SelRecord addr
  | CopyOut u64 "byte list"

record binder_state =
  procs :: "addr \<rightharpoonup> binder_proc"
  threads :: "addr \<rightharpoonup> binder_thread"
  nodes :: "addr \<rightharpoonup> binder_node"
  refs :: "addr \<rightharpoonup> binder_ref"
  deaths :: "addr \<rightharpoonup> binder_ref_death"
  txns :: "addr \<rightharpoonup> binder_txn"
  completes :: "addr \<rightharpoonup> binder_work"
  contexts :: "nat \<Rightarrow> binder_context"
  stat_procs :: int
  stat_threads :: int
  stat_nodes :: int
  stat_refs :: int
  stat_transactions :: int
  stat_arena_bytes :: int
  stat_kdata_bytes :: int
  stat_failed_transactions :: int
  last_debug_id :: u32
  clock :: nat
  trace :: "kernel_event list"

section \<open>Kernel services\<close>

text \<open>
  The services of XNU the driver calls, as a parameter. \<open>clock\<close> numbers the calls,
  so that two calls with the same arguments may have different results: an
  allocation may fail at any time, and client memory may change or vanish
  between two reads. \<open>osmalloc\<close> says whether an allocation succeeds; \<open>copyin\<close> the bytes
  read, \<open>None\<close> for a fault; \<open>copyout_ok\<close> whether a write succeeds. The rest identifies the
  calling thread and the machine.
\<close>

datatype c_size = Sizeof string | Bytes u64

record kpi =
  osmalloc :: "nat \<Rightarrow> c_size \<Rightarrow> bool"
  copyin :: "nat \<Rightarrow> u64 \<Rightarrow> u64 \<Rightarrow> byte list option"
  copyout_ok :: "nat \<Rightarrow> u64 \<Rightarrow> byte list \<Rightarrow> bool"
  proc_selfpid :: u32
  kauth_uid :: u32
  thread_tid :: u64
  page_size :: u64

text \<open>What the driver relies on: a successful \<open>copyin\<close> fills the whole buffer.\<close>

definition copyin_full :: "kpi \<Rightarrow> bool" where
  "copyin_full K \<longleftrightarrow> (\<forall>c a n bs. copyin K c a n = Some bs \<longrightarrow> length bs = unat n)"

text \<open>The address of an allocation is the number of the call, so it is new.\<close>

definition binder_alloc_mem :: "kpi \<Rightarrow> c_size \<Rightarrow> binder_state \<Rightarrow> addr option \<times> binder_state" where
  "binder_alloc_mem K n s =
     (if n = Bytes 0 then (None, s)
      else (if osmalloc K (clock s) n then Some (clock s) else None,
            s\<lparr>clock := Suc (clock s)\<rparr>))"

definition binder_copyin ::
    "kpi \<Rightarrow> u64 \<Rightarrow> u64 \<Rightarrow> binder_state \<Rightarrow> byte list option \<times> binder_state" where
  "binder_copyin K a n s = (copyin K (clock s) a n, s\<lparr>clock := Suc (clock s)\<rparr>)"

definition binder_copyout ::
    "kpi \<Rightarrow> u64 \<Rightarrow> byte list \<Rightarrow> binder_state \<Rightarrow> bool \<times> binder_state" where
  "binder_copyout K a bs s =
     (if copyout_ok K (clock s) a bs
      then (True, s\<lparr>clock := Suc (clock s), trace := trace s @ [CopyOut a bs]\<rparr>)
      else (False, s\<lparr>clock := Suc (clock s)\<rparr>))"

definition emit :: "kernel_event \<Rightarrow> binder_state \<Rightarrow> binder_state" where
  "emit e s = s\<lparr>trace := trace s @ [e]\<rparr>"

definition binder_next_debug_id :: "binder_state \<Rightarrow> u32 \<times> binder_state" where
  "binder_next_debug_id s = (last_debug_id s + 1, s\<lparr>last_debug_id := last_debug_id s + 1\<rparr>)"

definition binder_wake :: "channel \<Rightarrow> binder_state \<Rightarrow> binder_state" where
  "binder_wake ch s = emit (Wakeup ch) s"

section \<open>Access through pointers\<close>

text \<open>An update through a pointer to memory that is not allocated is undefined.\<close>

definition upd_proc :: "addr \<Rightarrow> (binder_proc \<Rightarrow> binder_proc) \<Rightarrow> binder_state \<Rightarrow> binder_state option" where
  "upd_proc p f s = do { P \<leftarrow> procs s p; Some (s\<lparr>procs := (procs s)(p \<mapsto> f P)\<rparr>) }"

definition upd_thread ::
    "addr \<Rightarrow> (binder_thread \<Rightarrow> binder_thread) \<Rightarrow> binder_state \<Rightarrow> binder_state option" where
  "upd_thread t f s = do { T \<leftarrow> threads s t; Some (s\<lparr>threads := (threads s)(t \<mapsto> f T)\<rparr>) }"

definition upd_node :: "addr \<Rightarrow> (binder_node \<Rightarrow> binder_node) \<Rightarrow> binder_state \<Rightarrow> binder_state option" where
  "upd_node n f s = do { N \<leftarrow> nodes s n; Some (s\<lparr>nodes := (nodes s)(n \<mapsto> f N)\<rparr>) }"

definition upd_ref :: "addr \<Rightarrow> (binder_ref \<Rightarrow> binder_ref) \<Rightarrow> binder_state \<Rightarrow> binder_state option" where
  "upd_ref r f s = do { R \<leftarrow> refs s r; Some (s\<lparr>refs := (refs s)(r \<mapsto> f R)\<rparr>) }"

definition upd_death ::
    "addr \<Rightarrow> (binder_ref_death \<Rightarrow> binder_ref_death) \<Rightarrow> binder_state \<Rightarrow> binder_state option" where
  "upd_death d f s = do { D \<leftarrow> deaths s d; Some (s\<lparr>deaths := (deaths s)(d \<mapsto> f D)\<rparr>) }"

definition upd_txn ::
    "addr \<Rightarrow> (binder_txn \<Rightarrow> binder_txn) \<Rightarrow> binder_state \<Rightarrow> binder_state option" where
  "upd_txn x f s = do { X \<leftarrow> txns s x; Some (s\<lparr>txns := (txns s)(x \<mapsto> f X)\<rparr>) }"

definition upd_complete ::
    "addr \<Rightarrow> (binder_work \<Rightarrow> binder_work) \<Rightarrow> binder_state \<Rightarrow> binder_state option" where
  "upd_complete w f s = do { W \<leftarrow> completes s w; Some (s\<lparr>completes := (completes s)(w \<mapsto> f W)\<rparr>) }"

definition upd_context :: "nat \<Rightarrow> (binder_context \<Rightarrow> binder_context) \<Rightarrow> binder_state \<Rightarrow> binder_state" where
  "upd_context c f s = s\<lparr>contexts := (contexts s)(c := f (contexts s c))\<rparr>"

text \<open>The buffer at an address of a process's list.\<close>

definition get_buffer :: "addr \<Rightarrow> addr \<Rightarrow> binder_state \<Rightarrow> binder_buffer option" where
  "get_buffer p b s = do { P \<leftarrow> procs s p; find (\<lambda>B. b_id B = b) (p_buffers P) }"

definition upd_buffer ::
    "addr \<Rightarrow> addr \<Rightarrow> (binder_buffer \<Rightarrow> binder_buffer) \<Rightarrow> binder_state \<Rightarrow> binder_state option" where
  "upd_buffer p b f s = do {
     _ \<leftarrow> get_buffer p b s;
     upd_proc p (p_buffers_update (map (\<lambda>B. if b_id B = b then f B else B))) s }"

text \<open>A work item through its pointer.\<close>

definition get_work :: "work_ptr \<Rightarrow> binder_state \<Rightarrow> binder_work option" where
  "get_work w s = (case w of
       TxnWork x \<Rightarrow> map_option x_work (txns s x)
     | NodeWork n \<Rightarrow> map_option n_work (nodes s n)
     | DeathWork d \<Rightarrow> map_option d_work (deaths s d)
     | ReturnErrorWork t \<Rightarrow> map_option (\<lambda>T. e_work (t_return_error T)) (threads s t)
     | ReplyErrorWork t \<Rightarrow> map_option (\<lambda>T. e_work (t_reply_error T)) (threads s t)
     | CompleteWork c \<Rightarrow> completes s c)"

definition upd_work ::
    "work_ptr \<Rightarrow> (binder_work \<Rightarrow> binder_work) \<Rightarrow> binder_state \<Rightarrow> binder_state option" where
  "upd_work w f s = (case w of
       TxnWork x \<Rightarrow> upd_txn x (x_work_update f) s
     | NodeWork n \<Rightarrow> upd_node n (n_work_update f) s
     | DeathWork d \<Rightarrow> upd_death d (d_work_update f) s
     | ReturnErrorWork t \<Rightarrow> upd_thread t (t_return_error_update (e_work_update f)) s
     | ReplyErrorWork t \<Rightarrow> upd_thread t (t_reply_error_update (e_work_update f)) s
     | CompleteWork c \<Rightarrow> upd_complete c f s)"

definition get_queue :: "work_head \<Rightarrow> binder_state \<Rightarrow> work_ptr list option" where
  "get_queue q s = (case q of
       ProcTodo p \<Rightarrow> map_option p_todo (procs s p)
     | ThreadTodo t \<Rightarrow> map_option t_todo (threads s t)
     | AsyncTodo n \<Rightarrow> map_option n_async_todo (nodes s n))"

definition upd_queue ::
    "work_head \<Rightarrow> (work_ptr list \<Rightarrow> work_ptr list) \<Rightarrow> binder_state \<Rightarrow> binder_state option" where
  "upd_queue q f s = (case q of
       ProcTodo p \<Rightarrow> upd_proc p (p_todo_update f) s
     | ThreadTodo t \<Rightarrow> upd_thread t (t_todo_update f) s
     | AsyncTodo n \<Rightarrow> upd_node n (n_async_todo_update f) s)"

lemmas upd_defs = upd_proc_def upd_thread_def upd_node_def upd_ref_def upd_death_def
  upd_txn_def upd_complete_def upd_context_def

declare upd_defs [op_defs] get_buffer_def [op_defs] upd_buffer_def [op_defs]
  get_work_def [op_defs] upd_work_def [op_defs] get_queue_def [op_defs] upd_queue_def [op_defs]
  binder_alloc_mem_def [op_defs] binder_copyin_def [op_defs] binder_copyout_def [op_defs]
  emit_def [op_defs] binder_wake_def [op_defs] binder_next_debug_id_def [op_defs]
  new_work_def [op_defs] BINDER_WORK_QUEUED_def [op_defs]

section \<open>Error numbers\<close>

text \<open>The \<open>errno\<close> values the driver returns; \<open>0\<close> is success.\<close>

datatype errno = OK | ERESTART | EPERM | EINTR | ENXIO | EAGAIN | ENOMEM | EFAULT | EBUSY | EEXIST | ENODEV
  | EINVAL | ENOTTY | ENOSPC

section \<open>The state at load, and a quiet machine\<close>

text \<open>The driver's static data before the first open: no objects, the counters zero,
  no context in use.\<close>

definition empty_context :: binder_context where
  "empty_context = \<lparr>c_name = [], c_mgr_node = None, c_mgr_uid = 0, c_mgr_uid_valid = False,
     c_in_use = False, c_devfs_handle = None, c_minor = 0, c_procs = []\<rparr>"

definition initial_state :: binder_state where
  "initial_state = \<lparr>procs = Map.empty, threads = Map.empty, nodes = Map.empty, refs = Map.empty,
     deaths = Map.empty, txns = Map.empty, completes = Map.empty,
     contexts = (\<lambda>_. empty_context), stat_procs = 0, stat_threads = 0, stat_nodes = 0,
     stat_refs = 0, stat_transactions = 0, stat_arena_bytes = 0, stat_kdata_bytes = 0,
     stat_failed_transactions = 0, last_debug_id = 0, clock = 1, trace = []\<rparr>"

text \<open>Kernel services on which nothing fails, for examples.\<close>

definition quiet_kpi :: kpi where
  "quiet_kpi = \<lparr>osmalloc = (\<lambda>_ _. True), copyin = (\<lambda>_ _ n. Some (replicate (unat n) 0)),
     copyout_ok = (\<lambda>_ _ _. True), proc_selfpid = 100, kauth_uid = 501, thread_tid = 7,
     page_size = 4096\<rparr>"


end
