(* ===== verification/Binder_Alloc.thy ===== *)
theory Binder_Alloc
  imports Binder_State
begin

text \<open>
  The transaction arena (\<^verbatim>\<open>kext/binder_alloc.c\<close>): registration and teardown,
  first-fit allocation with splitting, freeing with coalescing, and the lookup
  behind \<open>BC_FREE_BUFFER\<close>. The invariant \<open>arena_ok\<close> says that the buffers tile the
  registered region, are word-aligned, that no two neighbours are free and that
  a live buffer holds what was asked for. A locale states the contract the
  transaction code relies on, proved for these operations.
\<close>

section \<open>Operations\<close>

definition BINDER_ALIGN :: "u64 \<Rightarrow> u64" where
  "BINDER_ALIGN x = (x + 7) AND NOT 7"

definition BINDER_MIN_SPLIT :: u64 where "BINDER_MIN_SPLIT = 32"

definition new_buffer :: "addr \<Rightarrow> binder_buffer" where
  "new_buffer b = \<lparr>b_id = b, b_offset = 0, b_size = 0, b_free = False, b_async = False,
     b_allow_user_free = False, b_data_size = 0, b_offsets_size = 0, b_extra_buffers_size = 0,
     b_transaction = None, b_target_node = None, b_kdata = None, b_kdata_size = 0,
     b_debug_id = 0\<rparr>"

definition binder_arena_register ::
    "kpi \<Rightarrow> addr \<Rightarrow> u64 \<Rightarrow> u64 \<Rightarrow> binder_state \<Rightarrow> (errno \<times> binder_state) option" where
  "binder_arena_register K p addr sz s = do {
     P \<leftarrow> procs s p;
     if p_arena_size P \<noteq> 0 then Some (EBUSY, s)
     else if sz < BINDER_MSL_ARENA_MIN \<or> sz > BINDER_MSL_ARENA_MAX then Some (EINVAL, s)
     else if sz AND (page_size K - 1) \<noteq> 0 \<or> addr AND (page_size K - 1) \<noteq> 0
     then Some (EINVAL, s)
     else if addr = 0 \<or> addr + sz < addr then Some (EINVAL, s)
     else (case binder_alloc_mem K (Sizeof ''binder_buffer'') s of
         (None, s) \<Rightarrow> Some (ENOMEM, s)
       | (Some b, s) \<Rightarrow> do {
           let (dbg, s) = binder_next_debug_id s;
           let buf = (new_buffer b)\<lparr>b_offset := 0, b_size := sz, b_free := True,
                        b_debug_id := dbg\<rparr>;
           s \<leftarrow> upd_proc p (\<lambda>P. P\<lparr>p_buffers := [buf], p_arena_addr := addr,
                  p_arena_size := sz, p_free_async_space := sz div BINDER_ASYNC_FRACTION\<rparr>) s;
           Some (OK, s\<lparr>stat_arena_bytes := stat_arena_bytes s + sint sz\<rparr>) }) }"

definition kdata_bytes :: "binder_buffer list \<Rightarrow> int" where
  "kdata_bytes bs =
     sum_list (map (\<lambda>b. if b_kdata b \<noteq> None then sint (b_kdata_size b) else 0) bs)"

definition binder_arena_teardown :: "addr \<Rightarrow> binder_state \<Rightarrow> binder_state option" where
  "binder_arena_teardown p s = do {
     P \<leftarrow> procs s p;
     let s = s\<lparr>stat_kdata_bytes := stat_kdata_bytes s - kdata_bytes (p_buffers P)\<rparr>;
     let s = (if p_arena_size P \<noteq> 0
              then s\<lparr>stat_arena_bytes := stat_arena_bytes s - sint (p_arena_size P)\<rparr> else s);
     upd_proc p (\<lambda>P. P\<lparr>p_buffers := [], p_arena_addr := 0, p_arena_size := 0,
       p_free_async_space := 0\<rparr>) s }"

definition binder_buffer_uaddr :: "binder_proc \<Rightarrow> binder_buffer \<Rightarrow> u64" where
  "binder_buffer_uaddr P b = p_arena_addr P + b_offset b"

definition buffer_need :: "u64 \<Rightarrow> u64 \<Rightarrow> u64 \<Rightarrow> u64" where
  "buffer_need data_size offsets_size extra_buffers_size =
     BINDER_ALIGN data_size + BINDER_ALIGN offsets_size + BINDER_ALIGN extra_buffers_size"

text \<open>The first free buffer that is large enough, and what is around it.\<close>

definition first_fit ::
    "u64 \<Rightarrow> binder_buffer list \<Rightarrow> (binder_buffer list \<times> binder_buffer \<times> binder_buffer list) option"
  where "first_fit need = split_find (\<lambda>b. b_free b \<and> need \<le> b_size b)"

definition buffer_claim ::
    "u64 \<Rightarrow> u64 \<Rightarrow> u64 \<Rightarrow> bool \<Rightarrow> binder_buffer \<Rightarrow> binder_buffer" where
  "buffer_claim data_size offsets_size extra_buffers_size is_async buf =
     buf\<lparr>b_free := False, b_async := is_async, b_allow_user_free := False,
         b_data_size := data_size, b_offsets_size := offsets_size,
         b_extra_buffers_size := extra_buffers_size, b_transaction := None,
         b_target_node := None, b_kdata := None, b_kdata_size := 0\<rparr>"

definition buffer_rest :: "addr \<Rightarrow> u32 \<Rightarrow> u64 \<Rightarrow> binder_buffer \<Rightarrow> binder_buffer" where
  "buffer_rest sid dbg need buf =
     (new_buffer sid)\<lparr>b_offset := b_offset buf + need, b_size := b_size buf - need,
        b_free := True, b_debug_id := dbg\<rparr>"

definition binder_buffer_alloc ::
    "kpi \<Rightarrow> addr \<Rightarrow> u64 \<Rightarrow> u64 \<Rightarrow> u64 \<Rightarrow> bool \<Rightarrow> binder_state
      \<Rightarrow> (addr option \<times> binder_state) option" where
  "binder_buffer_alloc K p data_size offsets_size extra_buffers_size is_async s = do {
     P \<leftarrow> procs s p;
     let need = buffer_need data_size offsets_size extra_buffers_size;
     let claim = buffer_claim data_size offsets_size extra_buffers_size is_async;
     if p_arena_size P = 0 then Some (None, s)
     else if need = 0 \<or> need > p_arena_size P then Some (None, s)
     else if is_async \<and> need > p_free_async_space P then Some (None, s)
     else (case first_fit need (p_buffers P) of
         None \<Rightarrow> Some (None, s)
       | Some (pre, buf, post) \<Rightarrow>
           let space = (if is_async then p_free_async_space P - need else p_free_async_space P) in
           if BINDER_MIN_SPLIT \<le> b_size buf - need
           then (case binder_alloc_mem K (Sizeof ''binder_buffer'') s of
               (None, s) \<Rightarrow> Some (None, s)
             | (Some sid, s) \<Rightarrow> do {
                 let (dbg, s) = binder_next_debug_id s;
                 s \<leftarrow> upd_proc p (\<lambda>P. P\<lparr>p_buffers :=
                        pre @ claim (buf\<lparr>b_size := need\<rparr>) # buffer_rest sid dbg need buf # post,
                        p_free_async_space := space\<rparr>) s;
                 Some (Some (b_id buf), s) })
           else do {
             s \<leftarrow> upd_proc p (\<lambda>P. P\<lparr>p_buffers := pre @ claim buf # post,
                    p_free_async_space := space\<rparr>) s;
             Some (Some (b_id buf), s) }) }"

definition buffer_release :: "binder_buffer \<Rightarrow> binder_buffer" where
  "buffer_release buf =
     buf\<lparr>b_free := True, b_async := False, b_allow_user_free := False, b_transaction := None,
         b_target_node := None, b_data_size := 0, b_offsets_size := 0,
         b_extra_buffers_size := 0, b_kdata := None, b_kdata_size := 0\<rparr>"

text \<open>Merge a buffer that has just become free with its successor, then with its
  predecessor.\<close>

definition merge_next ::
    "binder_buffer \<Rightarrow> binder_buffer list \<Rightarrow> binder_buffer list" where
  "merge_next buf post = (case post of
       [] \<Rightarrow> [buf]
     | nxt # rest \<Rightarrow>
         if b_free nxt then buf\<lparr>b_size := b_size buf + b_size nxt\<rparr> # rest else buf # post)"

definition merge_prev ::
    "binder_buffer list \<Rightarrow> binder_buffer list \<Rightarrow> binder_buffer list" where
  "merge_prev pre cur = (case cur of
       [] \<Rightarrow> pre
     | buf # post \<Rightarrow>
         if pre \<noteq> [] \<and> b_free (last pre)
         then butlast pre @ (last pre)\<lparr>b_size := b_size (last pre) + b_size buf\<rparr> # post
         else pre @ cur)"

definition binder_buffer_free :: "addr \<Rightarrow> addr \<Rightarrow> binder_state \<Rightarrow> binder_state option" where
  "binder_buffer_free p b s = do {
     P \<leftarrow> procs s p;
     (pre, buf, post) \<leftarrow> split_find (\<lambda>B. b_id B = b) (p_buffers P);
     if b_free buf then Some s
     else do {
       let s = (if b_kdata buf \<noteq> None
                then s\<lparr>stat_kdata_bytes := stat_kdata_bytes s - sint (b_kdata_size buf)\<rparr> else s);
       let space = (if b_async buf then p_free_async_space P + b_size buf
                    else p_free_async_space P);
       upd_proc p (\<lambda>P. P\<lparr>p_buffers := merge_prev pre (merge_next (buffer_release buf) post),
         p_free_async_space := space\<rparr>) s } }"

fun lookup_loop :: "u64 \<Rightarrow> binder_buffer list \<Rightarrow> addr option" where
  "lookup_loop offset [] = None"
| "lookup_loop offset (b # bs) =
     (if b_offset b = offset then (if b_free b then None else Some (b_id b))
      else if b_offset b > offset then None
      else lookup_loop offset bs)"

definition binder_buffer_lookup :: "addr \<Rightarrow> u64 \<Rightarrow> binder_state \<Rightarrow> addr option option" where
  "binder_buffer_lookup p user_ptr s = do {
     P \<leftarrow> procs s p;
     if p_arena_size P = 0 \<or> user_ptr < p_arena_addr P then Some None
     else let offset = user_ptr - p_arena_addr P in
       if offset \<ge> p_arena_size P then Some None
       else Some (lookup_loop offset (p_buffers P)) }"

declare BINDER_ALIGN_def [op_defs] BINDER_MIN_SPLIT_def [op_defs] new_buffer_def [op_defs]
  binder_arena_register_def [op_defs] kdata_bytes_def [op_defs] binder_arena_teardown_def [op_defs]
  binder_buffer_uaddr_def [op_defs] buffer_need_def [op_defs] first_fit_def [op_defs]
  buffer_claim_def [op_defs] buffer_rest_def [op_defs] binder_buffer_alloc_def [op_defs]
  buffer_release_def [op_defs] merge_next_def [op_defs] merge_prev_def [op_defs]
  binder_buffer_free_def [op_defs] binder_buffer_lookup_def [op_defs]

section \<open>The arena invariant\<close>

text \<open>Buffers in order, each starting where the one before ends.\<close>

primrec tiles :: "nat \<Rightarrow> binder_buffer list \<Rightarrow> bool" where
  "tiles o' [] \<longleftrightarrow> True"
| "tiles o' (b # bs) \<longleftrightarrow>
     unat (b_offset b) = o' \<and> 0 < b_size b \<and> tiles (o' + unat (b_size b)) bs"

definition total_size :: "binder_buffer list \<Rightarrow> nat" where
  "total_size bs = sum_list (map (\<lambda>b. unat (b_size b)) bs)"

definition coalesced :: "binder_buffer list \<Rightarrow> bool" where
  "coalesced = successively (\<lambda>x y. \<not> (b_free x \<and> b_free y))"

text \<open>What a live buffer was asked to hold fits in it, computed without wrap-around.\<close>

definition buffer_fits :: "binder_buffer \<Rightarrow> bool" where
  "buffer_fits b \<longleftrightarrow> b_free b \<or>
     buffer_need (b_data_size b) (b_offsets_size b) (b_extra_buffers_size b) \<le> b_size b"

definition arena_ok :: "u64 \<Rightarrow> binder_buffer list \<Rightarrow> bool" where
  "arena_ok sz bs \<longleftrightarrow>
     (if sz = 0 then bs = []
      else tiles 0 bs \<and> total_size bs = unat sz \<and> sz \<le> BINDER_MSL_ARENA_MAX \<and>
        distinct (map b_id bs) \<and> coalesced bs \<and>
        list_all (\<lambda>b. 8 dvd unat (b_size b)) bs \<and> list_all buffer_fits bs)"

definition proc_arena_ok :: "binder_proc \<Rightarrow> bool" where
  "proc_arena_ok P \<longleftrightarrow> arena_ok (p_arena_size P) (p_buffers P) \<and>
     (p_arena_size P \<noteq> 0 \<longrightarrow> p_arena_addr P \<noteq> 0 \<and>
       unat (p_arena_addr P) + unat (p_arena_size P) < 2 ^ 64)"

section \<open>Arithmetic of sizes\<close>

lemma and_7: "unat (x AND 7 :: u64) = unat x mod 8"
proof -
  have "x AND 7 = take_bit 3 x"
    by (simp add: take_bit_eq_mask mask_eq_exp_minus_1)
  then show ?thesis by (simp add: take_bit_eq_mod unat_mod)
qed

lemma and_not_7: "unat (x AND NOT 7 :: u64) = unat x - unat x mod 8"
proof -
  have eq: "(x AND 7) + (x AND NOT 7) = x"
    by (subst disjunctive_add) (auto simp: bit_simps bit_eq_iff)
  have "x AND 7 \<le> x"
    by (simp only: word_le_nat_alt and_7 mod_less_eq_dividend)
  then have "unat x = unat (x AND 7) + unat (x AND NOT 7)"
    by (rule unat_plus_simple [of "x AND 7" "x AND NOT 7", unfolded eq, THEN iffD1])
  then show ?thesis by (simp only: and_7)
qed

lemma BINDER_ALIGN_unat:
  "unat x < 2 ^ 64 - 7 \<Longrightarrow> unat (BINDER_ALIGN x) = (unat x + 7) div 8 * 8"
  unfolding BINDER_ALIGN_def and_not_7
  by (simp add: unat_word_ariths minus_mod_eq_div_mult)

lemma BINDER_ALIGN_dvd: "8 dvd unat (BINDER_ALIGN x)"
  unfolding BINDER_ALIGN_def and_not_7 by (rule dvd_minus_mod)

lemma dvd_unat_add: "8 dvd unat a \<Longrightarrow> 8 dvd unat b \<Longrightarrow> 8 dvd unat (a + b :: u64)"
  by (simp add: unat_word_ariths dvd_mod_iff)

lemma buffer_need_dvd: "8 dvd unat (buffer_need a b c)"
  by (simp add: buffer_need_def dvd_unat_add BINDER_ALIGN_dvd)

section \<open>Preservation of the invariant\<close>

lemma tiles_append: "tiles o' (xs @ ys) \<longleftrightarrow> tiles o' xs \<and> tiles (o' + total_size xs) ys"
  by (induction xs arbitrary: o') (auto simp: total_size_def add.assoc)

lemma total_size_simps [simp]:
  "total_size [] = 0"
  "total_size (b # bs) = unat (b_size b) + total_size bs"
  "total_size (xs @ ys) = total_size xs + total_size ys"
  by (simp_all add: total_size_def)

lemma tiles_bounds:
  "tiles o' bs \<Longrightarrow> b \<in> set bs \<Longrightarrow>
    o' \<le> unat (b_offset b) \<and> unat (b_offset b) + unat (b_size b) \<le> o' + total_size bs"
  by (induction bs arbitrary: o') fastforce+

lemma tiles_pos: "tiles o' bs \<Longrightarrow> b \<in> set bs \<Longrightarrow> 0 < unat (b_size b)"
  by (induction bs arbitrary: o') (auto simp: word_less_nat_alt)


lemma unat_small_add: "unat a + unat b \<le> 2 ^ 32 \<Longrightarrow> unat (a + b :: u64) = unat a + unat b"
  by (simp add: unat_word_ariths)

lemma unat_sub_le: "b \<le> a \<Longrightarrow> unat (a - b :: u64) = unat a - unat b"
  by (simp add: unat_sub)

lemma coalesced_append: "coalesced (xs @ ys) \<longleftrightarrow>
    coalesced xs \<and> coalesced ys \<and>
    (xs \<noteq> [] \<longrightarrow> ys \<noteq> [] \<longrightarrow> \<not> (b_free (last xs) \<and> b_free (hd ys)))"
  by (auto simp: coalesced_def successively_append_iff)

lemma coalesced_Cons: "coalesced (x # ys) \<longleftrightarrow>
    coalesced ys \<and> (ys \<noteq> [] \<longrightarrow> \<not> (b_free x \<and> b_free (hd ys)))"
  by (cases ys) (auto simp: coalesced_def)

lemma coalesced_Nil [simp]: "coalesced []"
  by (simp add: coalesced_def)

lemmas coalesced_simps = coalesced_append coalesced_Cons

lemma arena_ok_pos: "sz \<noteq> 0 \<Longrightarrow> arena_ok sz bs \<longleftrightarrow>
    tiles 0 bs \<and> total_size bs = unat sz \<and> sz \<le> BINDER_MSL_ARENA_MAX \<and>
    distinct (map b_id bs) \<and> coalesced bs \<and>
    list_all (\<lambda>b. 8 dvd unat (b_size b)) bs \<and> list_all buffer_fits bs"
  by (simp add: arena_ok_def)

lemma arena_ok_size_bound:
  assumes "arena_ok sz bs"
  shows "total_size bs \<le> 2 ^ 22"
proof (cases "sz = 0")
  case True
  with assms show ?thesis by (simp add: arena_ok_def)
next
  case False
  with assms have "total_size bs = unat sz" and "sz \<le> BINDER_MSL_ARENA_MAX"
    by (simp_all add: arena_ok_pos)
  then show ?thesis by (simp add: BINDER_MSL_ARENA_MAX_def word_le_nat_alt)
qed

lemma claim_fields [simp]:
  "b_id (buffer_claim d f e a b) = b_id b"
  "b_offset (buffer_claim d f e a b) = b_offset b"
  "b_size (buffer_claim d f e a b) = b_size b"
  "b_free (buffer_claim d f e a b) = False"
  "b_data_size (buffer_claim d f e a b) = d"
  "b_offsets_size (buffer_claim d f e a b) = f"
  "b_extra_buffers_size (buffer_claim d f e a b) = e"
  "b_async (buffer_claim d f e a b) = a"
  by (simp_all add: buffer_claim_def)

lemma rest_fields [simp]:
  "b_id (buffer_rest sid dbg need b) = sid"
  "b_offset (buffer_rest sid dbg need b) = b_offset b + need"
  "b_size (buffer_rest sid dbg need b) = b_size b - need"
  "b_free (buffer_rest sid dbg need b) = True"
  by (simp_all add: buffer_rest_def new_buffer_def)

lemma release_fields [simp]:
  "b_id (buffer_release b) = b_id b"
  "b_offset (buffer_release b) = b_offset b"
  "b_size (buffer_release b) = b_size b"
  "b_free (buffer_release b) = True"
  by (simp_all add: buffer_release_def)

text \<open>Taking a whole free buffer keeps the arena well-formed.\<close>

lemma arena_ok_claim:
  assumes "arena_ok sz (pre @ buf # post)" and "sz \<noteq> 0" and "b_free buf"
    and "buffer_need d f e \<le> b_size buf"
  shows "arena_ok sz (pre @ buffer_claim d f e a buf # post)"
  using assms by (auto simp: arena_ok_pos tiles_append coalesced_simps buffer_fits_def)

text \<open>Splitting a free buffer and taking its front keeps the arena well-formed.\<close>

lemma arena_ok_split:
  assumes ok: "arena_ok sz (pre @ buf # post)" and "sz \<noteq> 0" and free: "b_free buf"
    and need: "need = buffer_need d f e" "need \<noteq> 0" "need < b_size buf"
    and fresh: "sid \<notin> b_id ` set (pre @ buf # post)"
  shows "arena_ok sz (pre @ buffer_claim d f e a (buf\<lparr>b_size := need\<rparr>) #
    buffer_rest sid dbg need buf # post)"
proof -
  have bound: "unat (b_offset buf) + unat (b_size buf) \<le> 2 ^ 22"
    using ok \<open>sz \<noteq> 0\<close> arena_ok_size_bound [OF ok]
    by (auto simp: arena_ok_pos tiles_append)
  have n: "unat need < unat (b_size buf)"
    using need(3) by (simp add: word_less_nat_alt)
  have off: "unat (b_offset buf + need) = unat (b_offset buf) + unat need"
    using bound n by (intro unat_small_add) simp
  have rest: "unat (b_size buf - need) = unat (b_size buf) - unat need"
    using need(3) by (simp add: unat_sub)
  have dvd: "8 dvd unat need"
    by (simp add: need(1) buffer_need_dvd)
  have pos: "0 < need" "0 < b_size buf - need"
    using need(2) n rest by (simp_all add: word_less_nat_alt unat_gt_0)
  show ?thesis
    using ok \<open>sz \<noteq> 0\<close> free need(1) off rest dvd pos n fresh
    by (auto simp: arena_ok_pos tiles_append coalesced_simps buffer_fits_def dvd_diff_nat)
qed

text \<open>Freeing a buffer and merging it with its neighbours keeps the arena well-formed.\<close>

lemma tiles_merge_next:
  "tiles o' (b # post) \<Longrightarrow> unat (b_size b) + total_size post \<le> 2 ^ 22 \<Longrightarrow>
    tiles o' (merge_next b post) \<and> total_size (merge_next b post) = total_size (b # post)"
  by (auto simp: merge_next_def unat_small_add word_less_nat_alt add.assoc split: list.splits)

lemma tiles_merge_prev:
  assumes "tiles o' (pre @ cur)" and "total_size (pre @ cur) \<le> 2 ^ 22" and "cur \<noteq> []"
  shows "tiles o' (merge_prev pre cur) \<and> total_size (merge_prev pre cur) = total_size (pre @ cur)"
proof (cases "pre \<noteq> [] \<and> b_free (last pre)")
  case True
  then obtain qs l where pre: "pre = qs @ [l]" by (metis append_butlast_last_id)
  obtain buf post where cur: "cur = buf # post" using assms(3) by (cases cur) auto
  have "unat (b_size l + b_size buf) = unat (b_size l) + unat (b_size buf)"
    using assms(2) by (intro unat_small_add) (simp add: pre cur)
  with True assms(1) show ?thesis
    by (simp add: merge_prev_def pre cur tiles_append word_less_nat_alt add.assoc)
next
  case False
  with assms show ?thesis by (auto simp: merge_prev_def split: list.splits)
qed

lemma set_merge_next: "b_id ` set (merge_next b post) \<subseteq> insert (b_id b) (b_id ` set post)"
  by (auto simp: merge_next_def split: list.splits)

lemma distinct_merge_next:
  "distinct (map b_id (pre @ b # post)) \<Longrightarrow> distinct (map b_id (pre @ merge_next b post))"
  by (auto simp: merge_next_def split: list.splits)

lemma distinct_merge_prev:
  "distinct (map b_id (pre @ cur)) \<Longrightarrow> distinct (map b_id (merge_prev pre cur))"
proof (induction pre rule: rev_induct)
  case (snoc l qs)
  then show ?case by (auto simp: merge_prev_def split: list.splits)
qed (auto simp: merge_prev_def split: list.splits)

lemma coalesced_merge_next:
  "b_free b \<Longrightarrow> coalesced post \<Longrightarrow>
    coalesced (merge_next b post) \<and> merge_next b post \<noteq> [] \<and> b_free (hd (merge_next b post))"
  by (auto simp: merge_next_def coalesced_simps split: list.splits)

lemma coalesced_merge_prev:
  assumes "coalesced pre" and "coalesced cur" and "cur \<noteq> []" and "b_free (hd cur)"
  shows "coalesced (merge_prev pre cur)"
proof (cases pre rule: rev_cases)
  case Nil
  with assms show ?thesis by (auto simp: merge_prev_def split: list.splits)
next
  case (snoc qs l)
  with assms show ?thesis
    by (cases cur) (auto simp: merge_prev_def coalesced_simps)
qed

lemma list_all_merge_next:
  assumes "list_all Q (b # post)" and "\<And>x y. Q x \<Longrightarrow> Q y \<Longrightarrow> b_free x \<Longrightarrow> Q (x\<lparr>b_size := b_size x + b_size y\<rparr>)"
    and "b_free b"
  shows "list_all Q (merge_next b post)"
  using assms by (auto simp: merge_next_def split: list.splits)

lemma list_all_merge_prev:
  assumes "list_all Q (pre @ cur)" and "\<And>x y. Q x \<Longrightarrow> Q y \<Longrightarrow> b_free x \<Longrightarrow> Q (x\<lparr>b_size := b_size x + b_size y\<rparr>)"
  shows "list_all Q (merge_prev pre cur)"
proof (cases pre rule: rev_cases)
  case Nil
  with assms show ?thesis by (auto simp: merge_prev_def split: list.splits)
next
  case (snoc qs l)
  with assms show ?thesis by (cases cur) (auto simp: merge_prev_def)
qed

lemma arena_ok_free:
  assumes ok: "arena_ok sz (pre @ buf # post)" and nz: "sz \<noteq> 0"
  shows "arena_ok sz (merge_prev pre (merge_next (buffer_release buf) post))"
proof -
  let ?b = "buffer_release buf"
  let ?cur = "merge_next ?b post"
  have parts: "tiles 0 (pre @ ?b # post)" "total_size (pre @ ?b # post) = unat sz"
      "sz \<le> BINDER_MSL_ARENA_MAX" "distinct (map b_id (pre @ ?b # post))"
      "coalesced pre" "coalesced post"
      "list_all (\<lambda>b. 8 dvd unat (b_size b)) (pre @ ?b # post)" "list_all buffer_fits (pre @ ?b # post)"
    using ok nz by (auto simp: arena_ok_pos tiles_append coalesced_simps buffer_fits_def)
  have bound: "total_size (pre @ ?b # post) \<le> 2 ^ 22"
    using arena_ok_size_bound [OF ok] by simp
  have next1: "tiles (total_size pre) ?cur" "total_size ?cur = total_size (?b # post)"
    using tiles_merge_next [of "total_size pre" ?b post] parts(1) bound by (auto simp: tiles_append)
  have ne: "?cur \<noteq> []" "b_free (hd ?cur)" "coalesced ?cur"
    using coalesced_merge_next [of ?b post] parts(6) by auto
  have prev: "tiles 0 (merge_prev pre ?cur)" "total_size (merge_prev pre ?cur) = unat sz"
    using tiles_merge_prev [of 0 pre ?cur] next1 ne(1) parts(1,2) bound by (auto simp: tiles_append)
  have dvd: "list_all (\<lambda>b. 8 dvd unat (b_size b)) (merge_prev pre ?cur)"
    using parts(7) by (intro list_all_merge_prev) (auto intro!: list_all_merge_next dvd_unat_add)
  have fits: "list_all buffer_fits (merge_prev pre ?cur)"
    using parts(8) by (intro list_all_merge_prev) (auto intro!: list_all_merge_next simp: buffer_fits_def)
  show ?thesis
    using nz parts(3) prev dvd fits
      distinct_merge_prev [OF distinct_merge_next [OF parts(4)]]
      coalesced_merge_prev [OF parts(5) ne(3,1,2)]
    by (simp add: arena_ok_pos)
qed

section \<open>What the operations do to a process's arena\<close>

text \<open>The live allocations, and the bytes of the arena each occupies.\<close>

definition live_buffers :: "binder_proc \<Rightarrow> binder_buffer set" where
  "live_buffers P = {b \<in> set (p_buffers P). \<not> b_free b}"

definition extent :: "binder_buffer \<Rightarrow> nat set" where
  "extent b = {unat (b_offset b) ..< unat (b_offset b) + unat (b_size b)}"

definition arena_inv :: "addr \<Rightarrow> binder_state \<Rightarrow> bool" where
  "arena_inv p s \<longleftrightarrow> (\<exists>P. procs s p = Some P \<and> proc_arena_ok P \<and>
     (\<forall>b \<in> set (p_buffers P). b_id b < clock s))"

definition arena_live :: "addr \<Rightarrow> binder_state \<Rightarrow> binder_buffer set" where
  "arena_live p s = (case procs s p of None \<Rightarrow> {} | Some P \<Rightarrow> live_buffers P)"

definition arena_cap :: "addr \<Rightarrow> binder_state \<Rightarrow> nat" where
  "arena_cap p s = (case procs s p of None \<Rightarrow> 0 | Some P \<Rightarrow> unat (p_arena_size P))"

lemma arena_ok_disjoint:
  assumes ok: "arena_ok sz bs" and "x \<in> set bs" "y \<in> set bs" "x \<noteq> y"
  shows "extent x \<inter> extent y = {}" and "b_id x \<noteq> b_id y"
proof -
  have nz: "sz \<noteq> 0" using assms by (auto simp: arena_ok_def)
  have dis: "extent a \<inter> extent b = {} \<and> b_id a \<noteq> b_id b"
    if "bs = us @ a # vs @ b # ws" for us a vs b ws
  proof -
    have "tiles (total_size us + unat (b_size a)) (vs @ b # ws)" "unat (b_offset a) = total_size us"
      using ok nz that by (auto simp: arena_ok_pos tiles_append)
    then have "unat (b_offset a) + unat (b_size a) \<le> unat (b_offset b)"
      using tiles_bounds [of _ "vs @ b # ws" b] by fastforce
    moreover have "b_id a \<noteq> b_id b"
      using ok nz that by (auto simp: arena_ok_pos)
    ultimately show ?thesis by (auto simp: extent_def)
  qed
  obtain us vs where 1: "bs = us @ x # vs" using assms(2) by (meson split_list)
  with assms(3,4) consider "y \<in> set us" | "y \<in> set vs" by auto
  then have "extent x \<inter> extent y = {} \<and> b_id x \<noteq> b_id y"
  proof cases
    case 1
    then obtain u1 u2 where "us = u1 @ y # u2" by (meson split_list)
    with \<open>bs = us @ x # vs\<close> dis [of u1 y u2 x vs] show ?thesis by auto
  next
    case 2
    then obtain v1 v2 where "vs = v1 @ y # v2" by (meson split_list)
    with \<open>bs = us @ x # vs\<close> dis [of us x v1 y v2] show ?thesis by auto
  qed
  then show "extent x \<inter> extent y = {}" and "b_id x \<noteq> b_id y" by auto
qed

lemma arena_ok_extent_bound:
  assumes "arena_ok sz bs" and "b \<in> set bs"
  shows "extent b \<subseteq> {..< unat sz}"
proof -
  have "sz \<noteq> 0" using assms by (auto simp: arena_ok_def)
  with assms show ?thesis
    using tiles_bounds [of 0 bs b] by (auto simp: arena_ok_pos extent_def)
qed

text \<open>The two ways an allocation succeeds, and the ways it does not.\<close>

lemma binder_buffer_alloc_cases:
  assumes alloc: "binder_buffer_alloc K p d f e a s = Some (r, s')"
    and P: "procs s p = Some P"
  obtains
    (fail) "r = None" "procs s' = procs s" "clock s \<le> clock s'"
  | (whole) pre buf post where
      "p_buffers P = pre @ buf # post" "b_free buf" "buffer_need d f e \<le> b_size buf"
      "b_size buf - buffer_need d f e < BINDER_MIN_SPLIT" "r = Some (b_id buf)"
      "p_arena_size P \<noteq> 0" "buffer_need d f e \<noteq> 0" "clock s' = clock s"
      "a \<longrightarrow> buffer_need d f e \<le> p_free_async_space P"
      "procs s' = (procs s)(p \<mapsto> P\<lparr>p_buffers := pre @ buffer_claim d f e a buf # post,
         p_free_async_space := (if a then p_free_async_space P - buffer_need d f e
                                else p_free_async_space P)\<rparr>)"
  | (split) pre buf post dbg where
      "p_buffers P = pre @ buf # post" "b_free buf" "buffer_need d f e \<le> b_size buf"
      "BINDER_MIN_SPLIT \<le> b_size buf - buffer_need d f e" "r = Some (b_id buf)"
      "p_arena_size P \<noteq> 0" "buffer_need d f e \<noteq> 0" "clock s' = Suc (clock s)"
      "a \<longrightarrow> buffer_need d f e \<le> p_free_async_space P"
      "procs s' = (procs s)(p \<mapsto> P\<lparr>p_buffers :=
         pre @ buffer_claim d f e a (buf\<lparr>b_size := buffer_need d f e\<rparr>) #
           buffer_rest (clock s) dbg (buffer_need d f e) buf # post,
         p_free_async_space := (if a then p_free_async_space P - buffer_need d f e
                                else p_free_async_space P)\<rparr>)"
proof (cases "first_fit (buffer_need d f e) (p_buffers P)")
  case None
  with alloc P fail show ?thesis
    by (auto simp: binder_buffer_alloc_def Let_def split: if_splits)
next
  case (Some t)
  obtain pre buf post where t: "t = (pre, buf, post)" by (cases t)
  have fit: "p_buffers P = pre @ buf # post" "b_free buf" "buffer_need d f e \<le> b_size buf"
    using split_find_Some Some t unfolding first_fit_def by fastforce+
  show ?thesis
    using alloc P Some t fit
    by (auto simp: binder_buffer_alloc_def Let_def binder_alloc_mem_def upd_proc_def
        binder_next_debug_id_def not_le intro: fail whole split split: if_splits)
qed

lemma binder_buffer_alloc_total:
  "procs s p = Some P \<Longrightarrow> \<exists>r s'. binder_buffer_alloc K p d f e a s = Some (r, s')"
  by (auto simp: binder_buffer_alloc_def binder_alloc_mem_def upd_proc_def binder_next_debug_id_def
      Let_def split: option.split)

lemma min_split_less:
  "BINDER_MIN_SPLIT \<le> b_size buf - need \<Longrightarrow> need \<le> b_size buf \<Longrightarrow> need < b_size buf"
  by (cases "need = b_size buf") (auto simp: BINDER_MIN_SPLIT_def)

lemma binder_buffer_alloc_inv:
  assumes alloc: "binder_buffer_alloc K p d f e a s = Some (r, s')" and inv: "arena_inv p s"
  shows "arena_inv p s'"
proof -
  obtain P where P: "procs s p = Some P" and ok: "proc_arena_ok P"
    and ids: "\<forall>b \<in> set (p_buffers P). b_id b < clock s"
    using inv by (auto simp: arena_inv_def)
  from alloc P show ?thesis
  proof (cases rule: binder_buffer_alloc_cases)
    case fail
    with P ok ids show ?thesis by (auto simp: arena_inv_def)
  next
    case (whole pre buf post)
    then have "arena_ok (p_arena_size P) (pre @ buffer_claim d f e a buf # post)"
      using ok by (intro arena_ok_claim) (auto simp: proc_arena_ok_def)
    with whole ok ids show ?thesis by (auto simp: arena_inv_def proc_arena_ok_def)
  next
    case (split pre buf post dbg)
    have "arena_ok (p_arena_size P)
        (pre @ buffer_claim d f e a (buf\<lparr>b_size := buffer_need d f e\<rparr>) #
          buffer_rest (clock s) dbg (buffer_need d f e) buf # post)"
      using split ok ids by (intro arena_ok_split min_split_less) (auto simp: proc_arena_ok_def)
    with split ok ids show ?thesis
      by (auto simp: arena_inv_def proc_arena_ok_def less_Suc_eq)
  qed
qed

lemma live_buffers_append:
  "p_buffers P = pre @ xs @ post \<Longrightarrow>
    live_buffers P = {b \<in> set pre \<union> set xs \<union> set post. \<not> b_free b}"
  by (auto simp: live_buffers_def)

lemma not_live_by_id:
  assumes "p_buffers P = pre @ buf # post" and "b_free buf" and "b_id B = b_id buf"
    and "b_id buf \<notin> b_id ` (set pre \<union> set post)"
  shows "B \<notin> live_buffers P"
proof
  assume "B \<in> live_buffers P"
  then have "B = buf \<or> B \<in> set pre \<union> set post" and "\<not> b_free B"
    using assms(1) by (auto simp: live_buffers_def)
  with assms(2-4) show False by (metis imageI)
qed

text \<open>A successful allocation adds one live buffer, which holds what was asked for,
  and changes no other live buffer.\<close>

lemma binder_buffer_alloc_live:
  assumes alloc: "binder_buffer_alloc K p d f e a s = Some (Some b, s')" and inv: "arena_inv p s"
  shows "\<exists>B. arena_live p s' = insert B (arena_live p s) \<and> B \<notin> arena_live p s \<and> b_id B = b \<and>
    \<not> b_free B \<and> b_data_size B = d \<and> b_offsets_size B = f \<and> b_extra_buffers_size B = e \<and>
    b_async B = a \<and> buffer_need d f e \<le> b_size B \<and>
    b_size B - buffer_need d f e < BINDER_MIN_SPLIT"
proof -
  obtain P where P: "procs s p = Some P" and ok: "proc_arena_ok P"
    using inv by (auto simp: arena_inv_def)
  have nz: "p_arena_size P = 0 \<Longrightarrow> p_buffers P = []"
    using ok by (simp add: proc_arena_ok_def arena_ok_def)
  from alloc P show ?thesis
  proof (cases rule: binder_buffer_alloc_cases)
    case fail
    then show ?thesis by simp
  next
    case (whole pre buf post)
    let ?B = "buffer_claim d f e a buf"
    have "b_id buf \<notin> b_id ` (set pre \<union> set post)"
      using ok whole by (auto simp: proc_arena_ok_def arena_ok_pos)
    then have "?B \<notin> live_buffers P"
      using whole(1,2) by (intro not_live_by_id) auto
    moreover have "arena_live p s' = insert ?B (arena_live p s)"
      using whole P by (auto simp: arena_live_def live_buffers_def)
    ultimately show ?thesis
      using whole P by (intro exI [of _ ?B]) (auto simp: arena_live_def)
  next
    case (split pre buf post dbg)
    let ?B = "buffer_claim d f e a (buf\<lparr>b_size := buffer_need d f e\<rparr>)"
    have "b_id buf \<notin> b_id ` (set pre \<union> set post)"
      using ok split by (auto simp: proc_arena_ok_def arena_ok_pos)
    then have "?B \<notin> live_buffers P"
      using split(1,2) by (intro not_live_by_id) auto
    moreover have "arena_live p s' = insert ?B (arena_live p s)"
      using split P by (auto simp: arena_live_def live_buffers_def)
    ultimately show ?thesis
      using split P by (intro exI [of _ ?B]) (auto simp: arena_live_def BINDER_MIN_SPLIT_def)
  qed
qed

text \<open>Freeing a live buffer removes exactly that one.\<close>

lemma binder_buffer_free_eq:
  assumes "procs s p = Some P" and "p_buffers P = pre @ buf # post" and "\<not> b_free buf"
    and "b_id buf \<notin> b_id ` set pre"
  shows "binder_buffer_free p (b_id buf) s = Some (s\<lparr>
      stat_kdata_bytes := stat_kdata_bytes s -
        (if b_kdata buf \<noteq> None then sint (b_kdata_size buf) else 0),
      procs := (procs s)(p \<mapsto> P\<lparr>
        p_buffers := merge_prev pre (merge_next (buffer_release buf) post),
        p_free_async_space := (if b_async buf then p_free_async_space P + b_size buf
                               else p_free_async_space P)\<rparr>)\<rparr>)"
proof -
  have "split_find (\<lambda>B. b_id B = b_id buf) (p_buffers P) = Some (pre, buf, post)"
    using assms(2,4) by (auto intro!: split_find_at) (metis imageI)
  with assms show ?thesis
    by (simp add: binder_buffer_free_def upd_proc_def Let_def)
qed

lemma live_merge_next: "b_free b \<Longrightarrow>
    {x \<in> set (merge_next b post). \<not> b_free x} = {x \<in> set post. \<not> b_free x}"
  by (auto simp: merge_next_def split: list.splits)

lemma live_merge_prev: "cur \<noteq> [] \<Longrightarrow> b_free (hd cur) \<Longrightarrow>
    {x \<in> set (merge_prev pre cur). \<not> b_free x} =
    {x \<in> set pre. \<not> b_free x} \<union> {x \<in> set cur. \<not> b_free x}"
  by (cases pre rule: rev_cases; cases cur) (auto simp: merge_prev_def)

lemma merge_next_free_hd: "b_free b \<Longrightarrow> merge_next b post \<noteq> [] \<and> b_free (hd (merge_next b post))"
  by (auto simp: merge_next_def split: list.splits)

lemma arena_inv_split:
  assumes "arena_inv p s" and "B \<in> arena_live p s"
  obtains P pre post where "procs s p = Some P" "proc_arena_ok P" "p_buffers P = pre @ B # post"
    "\<not> b_free B" "b_id B \<notin> b_id ` (set pre \<union> set post)" "p_arena_size P \<noteq> 0"
    "\<forall>b \<in> set (p_buffers P). b_id b < clock s"
proof -
  obtain P where P: "procs s p = Some P" "proc_arena_ok P"
      "\<forall>b \<in> set (p_buffers P). b_id b < clock s"
    using assms(1) by (auto simp: arena_inv_def)
  with assms(2) have B: "B \<in> set (p_buffers P)" "\<not> b_free B"
    by (auto simp: arena_live_def live_buffers_def)
  then obtain pre post where s: "p_buffers P = pre @ B # post" by (meson split_list)
  have "p_arena_size P \<noteq> 0"
    using B(1) P(2) by (auto simp: proc_arena_ok_def arena_ok_def)
  moreover from this have "b_id B \<notin> b_id ` (set pre \<union> set post)"
    using P(2) s by (auto simp: proc_arena_ok_def arena_ok_pos)
  ultimately show ?thesis using that P B s by blast
qed

lemma binder_buffer_free_spec:
  assumes inv: "arena_inv p s" and B: "B \<in> arena_live p s"
  shows "\<exists>s'. binder_buffer_free p (b_id B) s = Some s' \<and> arena_inv p s' \<and>
    arena_live p s' = arena_live p s - {B} \<and> clock s' = clock s"
proof -
  obtain P pre post where P: "procs s p = Some P" "proc_arena_ok P" "p_buffers P = pre @ B # post"
      "\<not> b_free B" "b_id B \<notin> b_id ` (set pre \<union> set post)" "p_arena_size P \<noteq> 0"
      "\<forall>b \<in> set (p_buffers P). b_id b < clock s"
    using inv B by (rule arena_inv_split)
  let ?cur = "merge_next (buffer_release B) post"
  have ok: "arena_ok (p_arena_size P) (merge_prev pre ?cur)"
    using P by (intro arena_ok_free) (auto simp: proc_arena_ok_def)
  have ids: "b_id ` set (merge_prev pre ?cur) \<subseteq> b_id ` set (p_buffers P)"
    by (cases pre rule: rev_cases) (auto simp: P(3) merge_prev_def merge_next_def split: list.splits)
  have live: "{x \<in> set (merge_prev pre ?cur). \<not> b_free x} = live_buffers P - {B}"
    using P(3,5) by (subst live_merge_prev) (auto simp: merge_next_free_hd live_merge_next live_buffers_def)
  show ?thesis
    using binder_buffer_free_eq [OF P(1,3,4)] P ok ids live
    by (fastforce simp: arena_inv_def proc_arena_ok_def arena_live_def live_buffers_def)
qed

lemma arena_live_ok:
  assumes "arena_inv p s" and "B \<in> arena_live p s"
  obtains P where "procs s p = Some P" "arena_ok (p_arena_size P) (p_buffers P)"
    "B \<in> set (p_buffers P)" "arena_cap p s = unat (p_arena_size P)"
    "arena_live p s \<subseteq> set (p_buffers P)"
  using assms
  by (auto simp: arena_inv_def arena_live_def arena_cap_def live_buffers_def proc_arena_ok_def)

lemma arena_live_disjoint:
  assumes "arena_inv p s" "B \<in> arena_live p s" "C \<in> arena_live p s" "B \<noteq> C"
  shows "extent B \<inter> extent C = {} \<and> b_id B \<noteq> b_id C"
proof -
  obtain P where "procs s p = Some P" "arena_ok (p_arena_size P) (p_buffers P)"
      "B \<in> set (p_buffers P)" "arena_cap p s = unat (p_arena_size P)"
      "arena_live p s \<subseteq> set (p_buffers P)"
    using assms(1,2) by (rule arena_live_ok)
  with assms(3,4) show ?thesis using arena_ok_disjoint [of _ "p_buffers P" B C] by blast
qed

lemma arena_live_inside:
  assumes "arena_inv p s" "B \<in> arena_live p s"
  shows "extent B \<subseteq> {..< arena_cap p s}"
proof -
  obtain P where "procs s p = Some P" "arena_ok (p_arena_size P) (p_buffers P)"
      "B \<in> set (p_buffers P)" "arena_cap p s = unat (p_arena_size P)"
      "arena_live p s \<subseteq> set (p_buffers P)"
    using assms by (rule arena_live_ok)
  then show ?thesis using arena_ok_extent_bound [of "p_arena_size P" "p_buffers P" B] by simp
qed

lemma binder_buffer_alloc_none:
  assumes "arena_inv p s" and "binder_buffer_alloc K p d f e a s = Some (None, s')"
  shows "arena_live p s' = arena_live p s"
proof -
  obtain P where P: "procs s p = Some P" using assms(1) by (auto simp: arena_inv_def)
  from assms(2) P show ?thesis
    by (cases rule: binder_buffer_alloc_cases) (auto simp: arena_live_def)
qed

section \<open>The contract of the arena\<close>

text \<open>
  What the transaction code relies on: a state \<open>'s\<close> with live allocations, each an
  identity with the bytes it occupies; an allocation that succeeds adds one
  disjoint from the others and inside the arena, and a free removes one.
\<close>

datatype 'r arena_op = ArenaAlloc 'r | ArenaFree addr

text \<open>A client's run over an allocator: it frees only what is allocated.\<close>

fun arena_run ::
    "('r \<Rightarrow> 's \<Rightarrow> (addr option \<times> 's) option) \<Rightarrow> (addr \<Rightarrow> 's \<Rightarrow> 's option) \<Rightarrow> ('s \<Rightarrow> addr set) \<Rightarrow>
      'r arena_op list \<Rightarrow> 's \<Rightarrow> 's option" where
  "arena_run alloc free ids [] s = Some s"
| "arena_run alloc free ids (ArenaAlloc q # ops) s =
     do { (_, s) \<leftarrow> alloc q s; arena_run alloc free ids ops s }"
| "arena_run alloc free ids (ArenaFree b # ops) s =
     (if b \<in> ids s then do { s \<leftarrow> free b s; arena_run alloc free ids ops s }
      else arena_run alloc free ids ops s)"

locale arena_provider =
  fixes inv :: "'s \<Rightarrow> bool"
    and live :: "'s \<Rightarrow> 'b set"
    and ident :: "'b \<Rightarrow> addr"
    and bytes :: "'b \<Rightarrow> nat set"
    and cap :: "'s \<Rightarrow> nat"
    and alloc :: "'r \<Rightarrow> 's \<Rightarrow> (addr option \<times> 's) option"
    and free :: "addr \<Rightarrow> 's \<Rightarrow> 's option"
  assumes alloc_total: "inv s \<Longrightarrow> \<exists>r s'. alloc q s = Some (r, s')"
    and alloc_inv: "inv s \<Longrightarrow> alloc q s = Some (r, s') \<Longrightarrow> inv s'"
    and alloc_none: "inv s \<Longrightarrow> alloc q s = Some (None, s') \<Longrightarrow> live s' = live s"
    and alloc_some: "inv s \<Longrightarrow> alloc q s = Some (Some b, s') \<Longrightarrow>
      \<exists>B. live s' = insert B (live s) \<and> B \<notin> live s \<and> ident B = b"
    and free_live: "inv s \<Longrightarrow> B \<in> live s \<Longrightarrow>
      \<exists>s'. free (ident B) s = Some s' \<and> inv s' \<and> live s' = live s - {B}"
    and disjoint: "inv s \<Longrightarrow> B \<in> live s \<Longrightarrow> C \<in> live s \<Longrightarrow> B \<noteq> C \<Longrightarrow>
      bytes B \<inter> bytes C = {} \<and> ident B \<noteq> ident C"
    and inside: "inv s \<Longrightarrow> B \<in> live s \<Longrightarrow> bytes B \<subseteq> {..< cap s}"
begin

text \<open>A client that only frees what is live runs without undefined behaviour, and
  its allocations never overlap.\<close>

lemma run_inv: "inv s \<Longrightarrow> \<exists>s'. arena_run alloc free (\<lambda>s. ident ` live s) ops s = Some s' \<and> inv s'"
proof (induction ops arbitrary: s)
  case Nil
  then show ?case by simp
next
  case (Cons op ops)
  show ?case
  proof (cases op)
    case (ArenaAlloc q)
    then show ?thesis
      using Cons alloc_total [of s q] alloc_inv [of s q] by fastforce
  next
    case (ArenaFree b)
    then show ?thesis using Cons free_live [of s] by fastforce
  qed
qed

lemma run_disjoint:
  assumes "inv s"
  shows "\<exists>s'. arena_run alloc free (\<lambda>s. ident ` live s) ops s = Some s' \<and>
    (\<forall>B \<in> live s'. bytes B \<subseteq> {..< cap s'} \<and> (\<forall>C \<in> live s'. B \<noteq> C \<longrightarrow> bytes B \<inter> bytes C = {}))"
  using run_inv [OF assms, of ops] disjoint inside by blast

lemma alloc_then_free:
  assumes "inv s" and "alloc q s = Some (Some b, s')"
  shows "\<exists>s''. free b s' = Some s'' \<and> inv s'' \<and> live s'' = live s"
proof -
  obtain B where B: "live s' = insert B (live s)" "B \<notin> live s" "ident B = b"
    using alloc_some [OF assms] by blast
  with free_live [OF alloc_inv [OF assms], of B] show ?thesis by auto
qed

end

type_synonym alloc_request = "u64 \<times> u64 \<times> u64 \<times> bool"

definition arena_alloc ::
    "kpi \<Rightarrow> addr \<Rightarrow> alloc_request \<Rightarrow> binder_state \<Rightarrow> (addr option \<times> binder_state) option" where
  "arena_alloc K p q = (case q of (d, f, e, a) \<Rightarrow> binder_buffer_alloc K p d f e a)"

interpretation arena: arena_provider "arena_inv p" "arena_live p" b_id extent "arena_cap p"
    "arena_alloc K p" "binder_buffer_free p"
  for K p
proof (unfold_locales, goal_cases)
  case (1 s q)
  then show ?case
    using binder_buffer_alloc_total by (cases q) (auto simp: arena_alloc_def arena_inv_def)
next
  case (2 s q r s')
  then show ?case using binder_buffer_alloc_inv by (cases q) (simp add: arena_alloc_def)
next
  case (3 s q s')
  then show ?case using binder_buffer_alloc_none by (cases q) (simp add: arena_alloc_def)
next
  case (4 s q b s')
  obtain d f e a where q: "q = (d, f, e, a)" by (cases q) auto
  show ?case
    using binder_buffer_alloc_live [of K p d f e a s b s'] 4 unfolding q arena_alloc_def
    by auto
next
  case (5 s B)
  then show ?case using binder_buffer_free_spec [of p s B] by blast
next
  case (6 s B C)
  then show ?case by (rule arena_live_disjoint)
next
  case (7 s B)
  then show ?case by (rule arena_live_inside)
qed

section \<open>Lookup, completeness and the asynchronous quota\<close>

lemma lookup_loop_iff:
  "tiles o' bs \<Longrightarrow> lookup_loop off bs = Some b \<longleftrightarrow>
    (\<exists>B \<in> set bs. b_offset B = off \<and> \<not> b_free B \<and> b_id B = b)"
proof (induction bs arbitrary: o')
  case Nil
  then show ?case by simp
next
  case (Cons x bs)
  have later: "unat (b_offset x) < unat (b_offset B)" if "B \<in> set bs" for B
    using Cons.prems tiles_bounds [of "o' + unat (b_size x)" bs B] that
    by (auto simp: word_less_nat_alt)
  show ?case
  proof (cases "b_offset x < off")
    case True
    then show ?thesis using Cons.IH Cons.prems by auto
  next
    case False
    then have "b_offset B \<noteq> off" if "B \<in> set bs" for B
      using later [OF that] by (auto simp: word_less_nat_alt)
    with False show ?thesis by auto
  qed
qed


text \<open>The quota of asynchronous traffic over an allocation and its free: it comes back
  with the slack of the allocation on top.\<close>

lemma alloc_async_space:
  assumes "binder_buffer_alloc K p d f e a s = Some (Some b, s')" and "procs s p = Some P"
  shows "\<exists>P'. procs s' p = Some P' \<and> p_free_async_space P' =
    (if a then p_free_async_space P - buffer_need d f e else p_free_async_space P)"
  using assms by (cases rule: binder_buffer_alloc_cases) auto

lemma free_async_space:
  assumes inv: "arena_inv p s" and B: "B \<in> arena_live p s" and P: "procs s p = Some P"
  shows "\<exists>s' P'. binder_buffer_free p (b_id B) s = Some s' \<and> procs s' p = Some P' \<and>
    p_free_async_space P' = (if b_async B then p_free_async_space P + b_size B
                             else p_free_async_space P)"
proof -
  obtain P0 pre post where s: "procs s p = Some P0" "proc_arena_ok P0" "p_buffers P0 = pre @ B # post"
      "\<not> b_free B" "b_id B \<notin> b_id ` (set pre \<union> set post)" "p_arena_size P0 \<noteq> 0"
      "\<forall>b \<in> set (p_buffers P0). b_id b < clock s"
    using inv B by (rule arena_inv_split)
  from s(5) have "b_id B \<notin> b_id ` set pre" by auto
  with binder_buffer_free_eq [OF s(1,3,4)] s P show ?thesis by auto
qed

text \<open>The layout of a buffer, as a client can observe it.\<close>

definition buffer_shape :: "binder_buffer \<Rightarrow> addr \<times> u64 \<times> u64 \<times> bool" where
  "buffer_shape b = (b_id b, b_offset b, b_size b, b_free b)"


lemma alloc_free_shape:
  assumes inv: "arena_inv p s" and P: "procs s p = Some P"
    and alloc: "binder_buffer_alloc K p d f e a s = Some (Some b, s')"
  shows "\<exists>s'' P''. binder_buffer_free p b s' = Some s'' \<and> procs s'' p = Some P'' \<and>
    map buffer_shape (p_buffers P'') = map buffer_shape (p_buffers P)"
proof -
  have ok: "proc_arena_ok P" using inv P by (auto simp: arena_inv_def)
  from alloc P show ?thesis
  proof (cases rule: binder_buffer_alloc_cases)
    case fail
    then show ?thesis by simp
  next
    case (whole pre buf post)
    have n: "b_id buf \<notin> b_id ` set pre"
      and c: "pre \<noteq> [] \<longrightarrow> \<not> b_free (last pre)" "post \<noteq> [] \<longrightarrow> \<not> b_free (hd post)"
      using ok whole by (auto simp: proc_arena_ok_def arena_ok_pos coalesced_simps)
    show ?thesis
      using whole n c binder_buffer_free_eq [of s' p _ pre "buffer_claim d f e a buf" post]
      by (auto simp: merge_prev_def merge_next_def buffer_shape_def split: list.splits)
  next
    case (split pre buf post dbg)
    have n: "b_id buf \<notin> b_id ` set pre" and c: "pre \<noteq> [] \<longrightarrow> \<not> b_free (last pre)"
      using ok split by (auto simp: proc_arena_ok_def arena_ok_pos coalesced_simps)
    show ?thesis
      using split n c binder_buffer_free_eq [of s' p _ pre
          "buffer_claim d f e a (buf\<lparr>b_size := buffer_need d f e\<rparr>)"
          "buffer_rest (clock s) dbg (buffer_need d f e) buf # post"]
      by (auto simp: merge_prev_def merge_next_def buffer_shape_def)
  qed
qed

section \<open>An example arena\<close>

text \<open>A process with a fresh arena of 128 KB.\<close>

definition fresh_proc :: binder_proc where
  "fresh_proc = \<lparr>p_pid = 100, p_context = Some 0, p_threads = [], p_nodes = [], p_refs = [],
     p_todo = [], p_max_threads = 15, p_requested_threads = 0, p_requested_threads_started = 0,
     p_ready_threads = 0, p_is_dead = False, p_arena_addr = 0, p_arena_size = 0,
     p_buffers = [], p_free_async_space = 0, p_sel_recorded = False,
     p_oneway_spam_detection = False, p_last_error = \<lparr>ee_id = 0, ee_command = 0, ee_param = 0\<rparr>\<rparr>"

definition arena_example :: binder_state where
  "arena_example = initial_state\<lparr>procs := Map.empty(1 \<mapsto> fresh_proc\<lparr>
       p_arena_addr := 0x10000, p_arena_size := 0x20000,
       p_buffers := [(new_buffer 2)\<lparr>b_size := 0x20000, b_free := True\<rparr>],
       p_free_async_space := 0x10000\<rparr>), clock := 3\<rparr>"

lemma arena_example_inv: "arena_inv 1 arena_example"
  by (auto simp: arena_inv_def arena_example_def proc_arena_ok_def arena_ok_def coalesced_def
      new_buffer_def buffer_fits_def BINDER_MSL_ARENA_MAX_def fresh_proc_def initial_state_def)

text \<open>An arena with a hole of 40 bytes before a live buffer.\<close>

definition hole_example :: binder_state where
  "hole_example = initial_state\<lparr>procs := Map.empty(1 \<mapsto> fresh_proc\<lparr>
       p_arena_addr := 0x10000, p_arena_size := 0x20000,
       p_buffers := [(new_buffer 2)\<lparr>b_size := 40, b_free := True\<rparr>,
         (new_buffer 3)\<lparr>b_offset := 40, b_size := 64, b_data_size := 64\<rparr>,
         (new_buffer 4)\<lparr>b_offset := 104, b_size := 0x20000 - 104, b_free := True\<rparr>],
       p_free_async_space := 0x10000\<rparr>), clock := 5\<rparr>"

lemma hole_example_inv: "arena_inv 1 hole_example"
  by (auto simp: arena_inv_def hole_example_def proc_arena_ok_def arena_ok_def coalesced_def
      new_buffer_def buffer_fits_def BINDER_MSL_ARENA_MAX_def fresh_proc_def initial_state_def
      buffer_need_def BINDER_ALIGN_def)

lemma hole_example_live: "arena_live 1 hole_example =
    {(new_buffer 3)\<lparr>b_offset := 40, b_size := 64, b_data_size := 64\<rparr>}"
  by (auto simp: arena_live_def live_buffers_def hole_example_def new_buffer_def)

lemma example_procs:
  "procs arena_example 1 = Some (fresh_proc\<lparr>p_arena_addr := 0x10000, p_arena_size := 0x20000,
     p_buffers := [(new_buffer 2)\<lparr>b_size := 0x20000, b_free := True\<rparr>],
     p_free_async_space := 0x10000\<rparr>)"
  by (simp add: arena_example_def)

section \<open>Properties\<close>

text \<open>C2: no client of the allocator is ever handed the same bytes twice. From any
  well-formed arena, any sequence of allocations and of frees of live buffers
  runs without undefined behaviour, and all live buffers then lie inside the
  arena and are pairwise disjoint.\<close>

theorem arena_run_disjoint:
  assumes "arena_inv p s"
  shows "\<exists>s'. arena_run (arena_alloc K p) (binder_buffer_free p) (\<lambda>s. b_id ` arena_live p s) ops s
      = Some s' \<and>
    (\<forall>B \<in> arena_live p s'. extent B \<subseteq> {..< arena_cap p s'} \<and>
       (\<forall>C \<in> arena_live p s'. B \<noteq> C \<longrightarrow> extent B \<inter> extent C = {}))"
  using assms by (rule arena.run_disjoint)

theorem arena_run_disjoint_witness:
  "\<exists>s'. arena_run (arena_alloc quiet_kpi 1) (binder_buffer_free 1) (\<lambda>s. b_id ` arena_live 1 s)
      [ArenaAlloc (100, 16, 0, True), ArenaAlloc (8, 0, 0, False), ArenaFree 2] arena_example
      = Some s' \<and>
    (\<forall>B \<in> arena_live 1 s'. extent B \<subseteq> {..< arena_cap 1 s'} \<and>
       (\<forall>C \<in> arena_live 1 s'. B \<noteq> C \<longrightarrow> extent B \<inter> extent C = {}))"
  by (rule arena_run_disjoint) (rule arena_example_inv)



text \<open>C23: freeing a live buffer succeeds, keeps the arena well-formed (merged with its
  free neighbours) and removes exactly that buffer from the live ones.\<close>

theorem free_exact:
  assumes "arena_inv p s" and "B \<in> arena_live p s"
  shows "\<exists>s'. binder_buffer_free p (b_id B) s = Some s' \<and> arena_inv p s' \<and>
    arena_live p s' = arena_live p s - {B}"
  using assms by (rule arena.free_live)

theorem free_exact_witness:
  "\<exists>s'. binder_buffer_free 1 3 hole_example = Some s' \<and> arena_inv 1 s' \<and> arena_live 1 s' = {}"
  using free_exact [OF hole_example_inv, of "(new_buffer 3)\<lparr>b_offset := 40, b_size := 64, b_data_size := 64\<rparr>"]
  unfolding hole_example_live by (simp add: new_buffer_def)

text \<open>C30: an allocation followed by its free restores the layout of the arena: the
  same buffers with the same offsets, sizes and free flags, so traffic that is
  given back leaves no fragmentation behind.\<close>

theorem alloc_free_roundtrip:
  assumes "arena_inv p s" and "procs s p = Some P"
    and "binder_buffer_alloc K p d f e a s = Some (Some b, s')"
  shows "\<exists>s'' P''. binder_buffer_free p b s' = Some s'' \<and> procs s'' p = Some P'' \<and>
    map buffer_shape (p_buffers P'') = map buffer_shape (p_buffers P)"
  using assms by (rule alloc_free_shape)

theorem alloc_free_roundtrip_witness:
  "\<exists>s' s'' P''. binder_buffer_alloc quiet_kpi 1 100 16 0 True arena_example = Some (Some 2, s') \<and>
    binder_buffer_free 1 2 s' = Some s'' \<and> procs s'' 1 = Some P'' \<and>
    map buffer_shape (p_buffers P'') = [(2, 0, 0x20000, True)]"
proof -
  obtain s' where s': "binder_buffer_alloc quiet_kpi 1 100 16 0 True arena_example = Some (Some 2, s')"
    by (simp add: op_defs arena_example_def quiet_kpi_def fresh_proc_def initial_state_def)
  from alloc_free_roundtrip [OF arena_example_inv example_procs s'] s' show ?thesis
    by (auto simp: buffer_shape_def new_buffer_def)
qed

text \<open>C28: \<open>BC_FREE_BUFFER\<close>'s lookup resolves exactly the start addresses of live
  buffers: an address inside one, of a freed one or outside the arena is
  refused.\<close>

theorem lookup_exact:
  assumes inv: "arena_inv p s" and P: "procs s p = Some P"
  shows "binder_buffer_lookup p u s = Some (Some b) \<longleftrightarrow>
    (\<exists>B \<in> arena_live p s. b_id B = b \<and> u = binder_buffer_uaddr P B)"
proof (cases "p_arena_size P = 0")
  case True
  with inv P show ?thesis
    by (auto simp: binder_buffer_lookup_def arena_inv_def proc_arena_ok_def arena_ok_def
        arena_live_def live_buffers_def)
next
  case False
  have ok: "arena_ok (p_arena_size P) (p_buffers P)"
    and wrap: "unat (p_arena_addr P) + unat (p_arena_size P) < 2 ^ 64"
    using inv P False by (auto simp: arena_inv_def proc_arena_ok_def)
  have t: "tiles 0 (p_buffers P)" and tot: "total_size (p_buffers P) = unat (p_arena_size P)"
    using ok False by (auto simp: arena_ok_pos)
  have off: "b_offset B < p_arena_size P \<and> p_arena_addr P \<le> binder_buffer_uaddr P B"
    if "B \<in> set (p_buffers P)" for B
  proof -
    have 1: "unat (b_offset B) + unat (b_size B) \<le> unat (p_arena_size P)"
      using tiles_bounds [OF t that] tot by simp
    have "0 < unat (b_size B)"
      using t that by (rule tiles_pos)
    with 1 wrap show ?thesis
      by (auto simp: word_less_nat_alt word_le_nat_alt binder_buffer_uaddr_def unat_word_ariths)
  qed
  have "binder_buffer_lookup p u s = Some (Some b) \<longleftrightarrow> p_arena_addr P \<le> u \<and>
      u - p_arena_addr P < p_arena_size P \<and>
      (\<exists>B \<in> set (p_buffers P). b_offset B = u - p_arena_addr P \<and> \<not> b_free B \<and> b_id B = b)"
    using False P lookup_loop_iff [OF t, of "u - p_arena_addr P" b]
    by (auto simp: binder_buffer_lookup_def Let_def)
  also have "\<dots> \<longleftrightarrow> (\<exists>B \<in> set (p_buffers P). u = binder_buffer_uaddr P B \<and> \<not> b_free B \<and> b_id B = b)"
    using off by (auto simp: binder_buffer_uaddr_def) force
  finally show ?thesis
    using P by (auto simp: arena_live_def live_buffers_def)
qed

theorem lookup_exact_witness:
  "binder_buffer_lookup 1 0x10028 hole_example = Some (Some 3) \<and>
   binder_buffer_lookup 1 0x10030 hole_example \<noteq> Some (Some 3)"
proof -
  obtain P where P: "procs hole_example 1 = Some P" and a: "p_arena_addr P = 0x10000"
    by (simp add: hole_example_def)
  show ?thesis
    unfolding lookup_exact [OF hole_example_inv P, of _ 3] hole_example_live
    by (simp add: a binder_buffer_uaddr_def new_buffer_def)
qed

lemma register_ok:
  assumes P: "procs s p = Some P" and new: "p_arena_size P = 0"
    and page: "page_size K = 4096 \<or> page_size K = 16384"
    and res: "binder_arena_register K p ua sz s = Some (r, s')"
  shows "(r = OK \<longrightarrow> arena_inv p s' \<and> arena_live p s' = {} \<and> arena_cap p s' = unat sz) \<and>
    (r \<noteq> OK \<longrightarrow> procs s' = procs s)"
proof -
  have dvd: "8 dvd unat sz" if "sz AND (page_size K - 1) = 0"
  proof -
    have "sz AND 7 = (sz AND (page_size K - 1)) AND 7"
      using page by (auto simp: and.assoc)
    with that have "sz AND 7 = 0" by simp
    then show ?thesis using and_7 [of sz] by (simp add: dvd_eq_mod_eq_0)
  qed
  have "r = OK \<longrightarrow> arena_inv p s' \<and> arena_live p s' = {} \<and> arena_cap p s' = unat sz"
  proof
    assume "r = OK"
    with res P new have sz: "BINDER_MSL_ARENA_MIN \<le> sz" "sz \<le> BINDER_MSL_ARENA_MAX"
        "sz AND (page_size K - 1) = 0" "ua \<noteq> 0" "ua \<le> ua + sz"
      and s': "\<exists>dbg. procs s' = (procs s)(p \<mapsto> P\<lparr>p_buffers := [(new_buffer (clock s))\<lparr>b_offset := 0,
          b_size := sz, b_free := True, b_debug_id := dbg\<rparr>], p_arena_addr := ua,
          p_arena_size := sz, p_free_async_space := sz div BINDER_ASYNC_FRACTION\<rparr>)"
        "clock s' = Suc (clock s)"
      by (auto simp: binder_arena_register_def binder_alloc_mem_def Let_def
        binder_next_debug_id_def upd_proc_def not_less not_le split: if_splits)
    have "0 < sz" using sz(1) by (simp add: BINDER_MSL_ARENA_MIN_def word_le_nat_alt word_less_nat_alt)
    moreover have "unat ua + unat sz < 2 ^ 64"
      using sz(5) unat_plus_simple [of ua sz] unat_bounded [of "ua + sz"] by simp
    ultimately show "arena_inv p s' \<and> arena_live p s' = {} \<and> arena_cap p s' = unat sz"
      using s' sz dvd by (auto simp: arena_inv_def proc_arena_ok_def arena_ok_def coalesced_def
          buffer_fits_def new_buffer_def arena_live_def live_buffers_def arena_cap_def)
  qed
  moreover have "r \<noteq> OK \<longrightarrow> procs s' = procs s"
    using res P by (auto simp: binder_arena_register_def binder_alloc_mem_def Let_def
        binder_next_debug_id_def upd_proc_def split: if_splits)
  ultimately show ?thesis by blast
qed

text \<open>C29: registration, on every branch. \<open>binder_arena_register\<close> always returns. It refuses a process that
  has an arena with \<open>EBUSY\<close>; otherwise it refuses with \<open>EINVAL\<close> a size outside its limits, a size or an
  address that is not a multiple of the page size, the address 0 and a range that wraps; otherwise it refuses with
  \<open>ENOMEM\<close> when there is no memory, and succeeds when there is. A refusal changes no process, and that for
  \<open>EBUSY\<close> or \<open>EINVAL\<close> nothing at all; success establishes a well-formed arena at the requested
  address, of the requested size and with nothing live in it.\<close>

theorem register_establishes:
  assumes P: "procs s p = Some P" and page: "page_size K = 4096 \<or> page_size K = 16384"
  shows "\<exists>r s' P'. binder_arena_register K p ua sz s = Some (r, s') \<and> procs s' p = Some P' \<and>
    r = (if p_arena_size P \<noteq> 0 then EBUSY
         else if sz < BINDER_MSL_ARENA_MIN \<or> BINDER_MSL_ARENA_MAX < sz \<or> sz AND (page_size K - 1) \<noteq> 0 \<or>
           ua AND (page_size K - 1) \<noteq> 0 \<or> ua = 0 \<or> ua + sz < ua then EINVAL
         else if osmalloc K (clock s) (Sizeof ''binder_buffer'') then OK else ENOMEM) \<and>
    (if r = OK then arena_inv p s' \<and> p_arena_addr P' = ua \<and> p_arena_size P' = sz \<and> arena_live p s' = {} \<and>
       arena_cap p s' = unat sz
     else if r = ENOMEM then procs s' = procs s else s' = s)"
proof -
  obtain r s' where res: "binder_arena_register K p ua sz s = Some (r, s')"
    using P by (cases "binder_arena_register K p ua sz s") (auto simp: binder_arena_register_def binder_alloc_mem_def
        Let_def binder_next_debug_id_def upd_proc_def split: if_splits)
  have r: "r = (if p_arena_size P \<noteq> 0 then EBUSY
         else if sz < BINDER_MSL_ARENA_MIN \<or> BINDER_MSL_ARENA_MAX < sz \<or> sz AND (page_size K - 1) \<noteq> 0 \<or>
           ua AND (page_size K - 1) \<noteq> 0 \<or> ua = 0 \<or> ua + sz < ua then EINVAL
         else if osmalloc K (clock s) (Sizeof ''binder_buffer'') then OK else ENOMEM)"
    using res P by (auto simp: binder_arena_register_def binder_alloc_mem_def Let_def binder_next_debug_id_def
        upd_proc_def split: if_splits)
  have refused: "if r = OK then \<exists>P'. procs s' p = Some P' \<and> p_arena_addr P' = ua \<and> p_arena_size P' = sz
      else if r = ENOMEM then procs s' = procs s else s' = s"
    using res P by (auto simp: binder_arena_register_def binder_alloc_mem_def Let_def binder_next_debug_id_def
        upd_proc_def split: if_splits)
  have "arena_inv p s' \<and> arena_live p s' = {} \<and> arena_cap p s' = unat sz" if "r = OK"
    using register_ok [OF P _ page res] r that by (auto split: if_splits)
  then show ?thesis using res r refused P by (auto split: if_splits)
qed

theorem register_establishes_witness:
  "\<exists>s'. binder_arena_register quiet_kpi 1 0x10000 0x20000 (initial_state\<lparr>procs := Map.empty(1 \<mapsto> fresh_proc)\<rparr>)
      = Some (OK, s') \<and> arena_inv 1 s' \<and> arena_cap 1 s' = 0x20000 \<and>
    binder_arena_register quiet_kpi 1 0x30000 0x20000 s' = Some (EBUSY, s')"
proof -
  let ?s = "initial_state\<lparr>procs := Map.empty(1 \<mapsto> fresh_proc)\<rparr>"
  obtain s' P' where s': "binder_arena_register quiet_kpi 1 0x10000 0x20000 ?s = Some (OK, s')"
      "procs s' 1 = Some P'" "p_arena_size P' = 0x20000" "arena_inv 1 s'" "arena_cap 1 s' = 0x20000"
    using register_establishes [of ?s 1 fresh_proc quiet_kpi, where ua = "0x10000" and sz = "0x20000"]
    by (auto simp: fresh_proc_def quiet_kpi_def abi_defs)
  then show ?thesis
    using register_establishes [of s' 1 P' quiet_kpi, where ua = "0x30000" and sz = "0x20000"] by (auto simp: quiet_kpi_def)
qed

text \<open>C35: the asynchronous quota is not conserved. An asynchronous allocation is
  charged what it needs and credited, when it is freed, the size of the buffer
  it was given: each cycle over a hole that is too small to split raises
  \<open>free_async_space\<close> by the slack, at most 31 bytes, with no bound on the number of
  cycles.\<close>

theorem async_quota_drift:
  assumes inv: "arena_inv p s" and P: "procs s p = Some P"
    and alloc: "binder_buffer_alloc K p d f e True s = Some (Some b, s')"
  shows "\<exists>s'' P''. \<exists>B \<in> arena_live p s'. b_id B = b \<and>
    binder_buffer_free p b s' = Some s'' \<and> procs s'' p = Some P'' \<and>
    p_free_async_space P'' = p_free_async_space P + (b_size B - buffer_need d f e) \<and>
    b_size B - buffer_need d f e < BINDER_MIN_SPLIT"
proof -
  obtain B where B: "arena_live p s' = insert B (arena_live p s)" "b_id B = b" "b_async B"
      "b_size B - buffer_need d f e < BINDER_MIN_SPLIT"
    using binder_buffer_alloc_live [OF alloc inv] by blast
  obtain P' where P': "procs s' p = Some P'"
      "p_free_async_space P' = p_free_async_space P - buffer_need d f e"
    using alloc_async_space [OF alloc P] by auto
  obtain s'' P'' where f: "binder_buffer_free p b s' = Some s''" "procs s'' p = Some P''"
      "p_free_async_space P'' = p_free_async_space P' + b_size B"
    using free_async_space [OF binder_buffer_alloc_inv [OF alloc inv] _ P'(1), of B] B by auto
  show ?thesis
    using f P'(2) B
    by (intro exI [of _ s''] exI [of _ P''] bexI [of _ B]) auto
qed

theorem async_quota_drift_witness:
  "\<exists>s' s'' P''. binder_buffer_alloc quiet_kpi 1 32 0 0 True hole_example = Some (Some 2, s') \<and>
    binder_buffer_free 1 2 s' = Some s'' \<and> procs s'' 1 = Some P'' \<and>
    p_free_async_space P'' = 0x10000 + 8"
proof -
  obtain P where P: "procs hole_example 1 = Some P" and q: "p_free_async_space P = 0x10000"
    by (simp add: hole_example_def)
  obtain s' where s': "binder_buffer_alloc quiet_kpi 1 32 0 0 True hole_example = Some (Some 2, s')"
      "\<forall>B \<in> arena_live 1 s'. b_id B = 2 \<longrightarrow> b_size B = 40"
    by (rule that) (auto simp: op_defs hole_example_def quiet_kpi_def fresh_proc_def initial_state_def
        arena_live_def live_buffers_def)
  have n: "buffer_need 32 0 0 = 32" by (simp add: op_defs)
  from async_quota_drift [OF hole_example_inv P s'(1)] s' show ?thesis
    by (auto simp: n q)
qed

end
