(* ===== verification/Binder_Queue.thy ===== *)
theory Binder_Queue
  imports Binder_Alloc
begin

text \<open>
  Work queues and wakeups (\<^verbatim>\<open>kext/binder_proc.c\<close>, "Queues"): insertion at either
  end, removal of an item from whichever queue holds it, the rule that says
  which threads take work aimed at the whole process, and the wakeups.

  The interface \<open>work_queues\<close> states what the rest of the driver relies on: an item
  is on at most one queue and there once, insertion leaves an item alone that
  is already queued, removal takes it off the queue that holds it.
\<close>

section \<open>Operations\<close>

definition binder_queue_insert ::
    "work_head \<Rightarrow> work_ptr \<Rightarrow> bool \<Rightarrow> binder_state \<Rightarrow> binder_state option" where
  "binder_queue_insert q w head s = do {
     W \<leftarrow> get_work w s;
     if w_queue W \<noteq> None then Some s
     else do {
       s \<leftarrow> upd_queue q (\<lambda>ws. if head then w # ws else ws @ [w]) s;
       upd_work w (w_queue_update (\<lambda>_. Some q)) s } }"

definition binder_enqueue_work :: "addr \<Rightarrow> work_ptr \<Rightarrow> binder_state \<Rightarrow> binder_state option" where
  "binder_enqueue_work p w s = binder_queue_insert (ProcTodo p) w False s"

definition binder_enqueue_thread_work :: "addr \<Rightarrow> work_ptr \<Rightarrow> binder_state \<Rightarrow> binder_state option" where
  "binder_enqueue_thread_work t w s = binder_queue_insert (ThreadTodo t) w False s"

text \<open>\<open>TAILQ_REMOVE\<close> of an item that is not on the list corrupts it, so it is undefined.\<close>

definition binder_dequeue_work :: "work_ptr \<Rightarrow> binder_state \<Rightarrow> binder_state option" where
  "binder_dequeue_work w s = do {
     W \<leftarrow> get_work w s;
     (case w_queue W of
        None \<Rightarrow> Some s
      | Some q \<Rightarrow> do {
          ws \<leftarrow> get_queue q s;
          if w \<in> set ws then do {
            s \<leftarrow> upd_queue q (remove1 w) s;
            upd_work w (w_queue_update (\<lambda>_. None)) s }
          else None }) }"

definition binder_thread_takes_proc_work :: "binder_thread \<Rightarrow> bool" where
  "binder_thread_takes_proc_work T \<longleftrightarrow>
     (if t_transaction_stack T \<noteq> None then False
      else if t_todo T \<noteq> [] then False
      else t_looper T AND (BINDER_LOOPER_STATE_REGISTERED OR BINDER_LOOPER_STATE_ENTERED) \<noteq> 0)"

definition binder_has_work :: "addr \<Rightarrow> addr option \<Rightarrow> binder_state \<Rightarrow> bool option" where
  "binder_has_work p t s = do {
     P \<leftarrow> procs s p;
     (case t of
        None \<Rightarrow> Some (p_todo P \<noteq> [])
      | Some t \<Rightarrow> do {
          T \<leftarrow> threads s t;
          if t_todo T \<noteq> [] then Some True
          else if t_looper T AND BINDER_LOOPER_STATE_NEED_RETURN \<noteq> 0 then Some True
          else if \<not> binder_thread_takes_proc_work T then Some False
          else Some (p_todo P \<noteq> []) }) }"

text \<open>Threads that wait for process work sleep on \<open>&proc->todo\<close>, the others on the
  thread itself.\<close>

definition binder_sel_wakeup :: "addr \<Rightarrow> binder_state \<Rightarrow> binder_state option" where
  "binder_sel_wakeup p s = do {
     P \<leftarrow> procs s p;
     if p_sel_recorded P then upd_proc p (p_sel_recorded_update (\<lambda>_. False)) (emit (SelWakeup p) s)
     else Some s }"

definition binder_wakeup_proc :: "addr \<Rightarrow> binder_state \<Rightarrow> binder_state option" where
  "binder_wakeup_proc p s = binder_sel_wakeup p (binder_wake (ChanProc p) s)"

definition binder_wakeup_thread :: "addr \<Rightarrow> binder_state \<Rightarrow> binder_state option" where
  "binder_wakeup_thread t s = do {
     T \<leftarrow> threads s t;
     (case t_proc T of
        None \<Rightarrow> Some (binder_wake (ChanThread t) s)
      | Some p \<Rightarrow> binder_sel_wakeup p (binder_wake (ChanThread t) s)) }"

declare binder_queue_insert_def [op_defs] binder_enqueue_work_def [op_defs]
  binder_enqueue_thread_work_def [op_defs] binder_dequeue_work_def [op_defs]
  binder_thread_takes_proc_work_def [op_defs] binder_has_work_def [op_defs]
  binder_sel_wakeup_def [op_defs] binder_wakeup_proc_def [op_defs] binder_wakeup_thread_def [op_defs]

text \<open>A thread fresh from \<open>binder_alloc_mem\<close>: zeroed.\<close>

definition new_error :: binder_error where
  "new_error = \<lparr>e_work = new_work, e_cmd = 0\<rparr>"

definition new_thread :: binder_thread where
  "new_thread = \<lparr>t_proc = None, t_tid = 0, t_looper = 0, t_is_dead = False,
     t_transaction_stack = None, t_todo = [], t_return_error = new_error,
     t_reply_error = new_error, t_debug_id = 0, t_frozen = False, t_freeze_timeout_ms = 0\<rparr>"

section \<open>Access laws\<close>

lemma get_work_upd_work:
  "upd_work w f s = Some s' \<Longrightarrow>
     get_work v s' = (if v = w then map_option f (get_work w s) else get_work v s)"
  by (cases w; cases v) (auto simp: get_work_def upd_work_def upd_defs bind_eq_Some_conv)

lemma get_queue_upd_work [frame_simps]: "upd_work w f s = Some s' \<Longrightarrow> get_queue q s' = get_queue q s"
  by (cases w; cases q) (auto simp: get_queue_def upd_work_def upd_defs bind_eq_Some_conv)

lemma get_queue_upd_queue:
  "upd_queue q f s = Some s' \<Longrightarrow>
     get_queue r s' = (if r = q then map_option f (get_queue q s) else get_queue r s)"
  by (cases q; cases r) (auto simp: get_queue_def upd_queue_def upd_defs bind_eq_Some_conv)

lemma get_work_upd_queue [frame_simps]: "upd_queue q f s = Some s' \<Longrightarrow> get_work w s' = get_work w s"
  by (cases w; cases q) (auto simp: get_work_def upd_queue_def upd_defs bind_eq_Some_conv)

lemma upd_work_defined: "(\<exists>s'. upd_work w f s = Some s') \<longleftrightarrow> get_work w s \<noteq> None"
  by (cases w) (auto simp: get_work_def upd_work_def upd_defs split: Option.bind_splits)

lemma upd_queue_defined: "(\<exists>s'. upd_queue q f s = Some s') \<longleftrightarrow> get_queue q s \<noteq> None"
  by (cases q) (auto simp: get_queue_def upd_queue_def upd_defs split: Option.bind_splits)

section \<open>The queue invariant\<close>

text \<open>Where an item says it is, and what a queue holds, agree: the \<open>queue\<close> field is
  "the only record of that fact".\<close>

definition place :: "binder_state \<Rightarrow> work_ptr \<Rightarrow> work_head option option" where
  "place s w = map_option w_queue (get_work w s)"

definition items :: "binder_state \<Rightarrow> work_head \<Rightarrow> work_ptr list option" where
  "items s q = get_queue q s"

definition held :: "(work_head \<Rightarrow> work_ptr list option) \<Rightarrow> work_head \<Rightarrow> work_ptr set" where
  "held it q = (case it q of None \<Rightarrow> {} | Some ws \<Rightarrow> set ws)"

definition queues_ok_on ::
    "(work_ptr \<Rightarrow> work_head option option) \<Rightarrow> (work_head \<Rightarrow> work_ptr list option) \<Rightarrow> bool" where
  "queues_ok_on pl it \<longleftrightarrow>
     (\<forall>q ws. it q = Some ws \<longrightarrow> distinct ws) \<and> (\<forall>w q. pl w = Some (Some q) \<longleftrightarrow> w \<in> held it q)"

definition queues_ok :: "binder_state \<Rightarrow> bool" where
  "queues_ok s \<longleftrightarrow> queues_ok_on (place s) (items s)"

lemma held_upd [simp]: "held (it(q := Some ws)) r = (if r = q then set ws else held it r)"
  by (simp add: held_def)

lemma held_Some [simp]: "it q = Some ws \<Longrightarrow> held it q = set ws"
  by (simp add: held_def)

lemma queues_ok_on_iff: "queues_ok_on pl it \<Longrightarrow> w \<in> held it q \<longleftrightarrow> pl w = Some (Some q)"
  by (simp add: queues_ok_on_def)

lemma queues_ok_on_enq:
  assumes "queues_ok_on pl it" and "pl w = Some None" and "it q = Some ws"
    and "ws' = w # ws \<or> ws' = ws @ [w]"
  shows "queues_ok_on (pl(w := Some (Some q))) (it(q := Some ws'))"
proof -
  have w: "w \<notin> held it r" for r using assms(2) by (simp add: queues_ok_on_iff [OF assms(1)])
  have "w \<notin> set ws" using w [of q] assms(3) by simp
  then have "distinct ws'" "set ws' = insert w (held it q)"
    using assms by (auto simp: queues_ok_on_def)
  then show ?thesis
    using assms(1) w unfolding queues_ok_on_def by auto
qed

lemma queues_ok_on_deq:
  assumes "queues_ok_on pl it" and "pl w = Some (Some q)" and "it q = Some ws"
  shows "queues_ok_on (pl(w := Some None)) (it(q := Some (remove1 w ws)))"
proof -
  have "w \<notin> held it r" if "r \<noteq> q" for r
    using assms(2) that by (simp add: queues_ok_on_iff [OF assms(1)])
  moreover have "distinct ws" using assms by (auto simp: queues_ok_on_def)
  then have "distinct (remove1 w ws)" "set (remove1 w ws) = held it q - {w}"
    using assms(3) by auto
  ultimately show ?thesis
    using assms(1) unfolding queues_ok_on_def by auto
qed

lemma queues_okD:
  assumes "queues_ok s"
  shows "place s w = Some (Some q) \<Longrightarrow> \<exists>ws. items s q = Some ws \<and> w \<in> set ws"
    and "items s q = Some ws \<Longrightarrow> w \<in> set ws \<Longrightarrow> place s w = Some (Some q)"
    and "items s q = Some ws \<Longrightarrow> distinct ws"
  using assms by (auto simp: queues_ok_def queues_ok_on_def held_def split: option.splits)

lemma binder_queue_insert_queued:
  "place s w = Some (Some q') \<Longrightarrow> binder_queue_insert q w h s = Some s"
  by (auto simp: place_def binder_queue_insert_def)

lemma binder_queue_insert_effect:
  assumes "place s w = Some None" and "items s q = Some ws"
  shows "\<exists>s'. binder_queue_insert q w h s = Some s' \<and>
    items s' = (items s)(q := Some (if h then w # ws else ws @ [w])) \<and>
    place s' = (place s)(w := Some (Some q))"
proof -
  obtain s1 where s1: "upd_queue q (\<lambda>ws. if h then w # ws else ws @ [w]) s = Some s1"
    using assms upd_queue_defined [of q "\<lambda>ws. if h then w # ws else ws @ [w]" s]
    by (auto simp: items_def)
  obtain s2 where s2: "upd_work w (w_queue_update (\<lambda>_. Some q)) s1 = Some s2"
    using assms upd_work_defined [of w "w_queue_update (\<lambda>_. Some q)" s1] get_work_upd_queue [OF s1]
    by (auto simp: place_def)
  have "items s2 = (items s)(q := Some (if h then w # ws else ws @ [w]))"
    using assms(2) by (auto simp: items_def get_queue_upd_work [OF s2] get_queue_upd_queue [OF s1])
  moreover have "place s2 = (place s)(w := Some (Some q))"
    using assms(1) by (auto simp: place_def get_work_upd_work [OF s2] get_work_upd_queue [OF s1])
  ultimately show ?thesis
    using assms(1) s1 s2 by (auto simp: place_def binder_queue_insert_def)
qed

lemma binder_dequeue_unqueued: "place s w = Some None \<Longrightarrow> binder_dequeue_work w s = Some s"
  by (auto simp: place_def binder_dequeue_work_def)

lemma binder_dequeue_effect:
  assumes "place s w = Some (Some q)" and "items s q = Some ws" and "w \<in> set ws"
  shows "\<exists>s'. binder_dequeue_work w s = Some s' \<and>
    items s' = (items s)(q := Some (remove1 w ws)) \<and> place s' = (place s)(w := Some None)"
proof -
  obtain s1 where s1: "upd_queue q (remove1 w) s = Some s1"
    using assms upd_queue_defined [of q "remove1 w" s] by (auto simp: items_def)
  obtain s2 where s2: "upd_work w (w_queue_update (\<lambda>_. None)) s1 = Some s2"
    using assms upd_work_defined [of w "w_queue_update (\<lambda>_. None)" s1] get_work_upd_queue [OF s1]
    by (auto simp: place_def)
  have "items s2 = (items s)(q := Some (remove1 w ws))"
    using assms(2) by (auto simp: items_def get_queue_upd_work [OF s2] get_queue_upd_queue [OF s1])
  moreover have "place s2 = (place s)(w := Some None)"
    using assms(1) by (auto simp: place_def get_work_upd_work [OF s2] get_work_upd_queue [OF s1])
  ultimately show ?thesis
    using assms s1 s2 by (auto simp: place_def items_def binder_dequeue_work_def)
qed

section \<open>What the driver relies on\<close>

text \<open>A client of the queues only names items that exist and queues that exist.\<close>

datatype ('q, 'w) queue_op = Enqueue 'q 'w | Dequeue 'w

fun queue_run ::
    "('q \<Rightarrow> 'w \<Rightarrow> 's \<Rightarrow> 's option) \<Rightarrow> ('w \<Rightarrow> 's \<Rightarrow> 's option) \<Rightarrow> ('q, 'w) queue_op list \<Rightarrow> 's \<Rightarrow> 's option"
where
  "queue_run enq deq [] s = Some s"
| "queue_run enq deq (Enqueue q w # ops) s = do { s \<leftarrow> enq q w s; queue_run enq deq ops s }"
| "queue_run enq deq (Dequeue w # ops) s = do { s \<leftarrow> deq w s; queue_run enq deq ops s }"

locale work_queues =
  fixes enq :: "'q \<Rightarrow> 'w \<Rightarrow> 's \<Rightarrow> 's option"
    and deq :: "'w \<Rightarrow> 's \<Rightarrow> 's option"
    and contents :: "'s \<Rightarrow> 'q \<Rightarrow> 'w list option"
    and whereabouts :: "'s \<Rightarrow> 'w \<Rightarrow> 'q option option"
    and wf :: "'s \<Rightarrow> bool"
  assumes enq_new: "wf s \<Longrightarrow> whereabouts s w = Some None \<Longrightarrow> contents s q = Some ws \<Longrightarrow>
      \<exists>s'. enq q w s = Some s' \<and> wf s' \<and> contents s' = (contents s)(q := Some (ws @ [w])) \<and>
        whereabouts s' = (whereabouts s)(w := Some (Some q))"
    and enq_queued: "wf s \<Longrightarrow> whereabouts s w = Some (Some r) \<Longrightarrow> enq q w s = Some s"
    and deq_queued: "wf s \<Longrightarrow> whereabouts s w = Some (Some q) \<Longrightarrow>
      \<exists>s' ws. contents s q = Some ws \<and> w \<in> set ws \<and> deq w s = Some s' \<and> wf s' \<and>
        contents s' = (contents s)(q := Some (remove1 w ws)) \<and>
        whereabouts s' = (whereabouts s)(w := Some None)"
    and deq_unqueued: "wf s \<Longrightarrow> whereabouts s w = Some None \<Longrightarrow> deq w s = Some s"
    and wf_queue: "wf s \<Longrightarrow> contents s q = Some ws \<Longrightarrow>
      distinct ws \<and> (\<forall>w \<in> set ws. whereabouts s w = Some (Some q))"
begin

definition known :: "('q, 'w) queue_op \<Rightarrow> 's \<Rightarrow> bool" where
  "known oper s = (case oper of Enqueue q w \<Rightarrow> contents s q \<noteq> None \<and> whereabouts s w \<noteq> None
     | Dequeue w \<Rightarrow> whereabouts s w \<noteq> None)"

lemma step_keeps_known:
  assumes "known oper s" and "dom (contents s') = dom (contents s)"
    and "dom (whereabouts s') = dom (whereabouts s)"
  shows "known oper s'"
  using assms by (auto simp: known_def dom_def split: queue_op.splits)

lemma enq_step:
  assumes "wf s" and "contents s q \<noteq> None" and "whereabouts s w \<noteq> None"
  shows "\<exists>s'. enq q w s = Some s' \<and> wf s' \<and> dom (contents s') = dom (contents s) \<and>
    dom (whereabouts s') = dom (whereabouts s)"
proof (cases "whereabouts s w = Some None")
  case True
  then show ?thesis using enq_new [OF assms(1) True] assms(2) by fastforce
next
  case False
  then show ?thesis using assms enq_queued [OF assms(1)] by fastforce
qed

lemma deq_step:
  assumes "wf s" and "whereabouts s w \<noteq> None"
  shows "\<exists>s'. deq w s = Some s' \<and> wf s' \<and> dom (contents s') = dom (contents s) \<and>
    dom (whereabouts s') = dom (whereabouts s)"
proof (cases "whereabouts s w = Some None")
  case True
  then show ?thesis using deq_unqueued [OF assms(1) True] assms(1) by blast
next
  case False
  then obtain q where "whereabouts s w = Some (Some q)" using assms(2) by auto
  then show ?thesis using deq_queued [OF assms(1)] by fastforce
qed

lemma run_ok:
  assumes "wf s" and "\<forall>oper \<in> set ops. known oper s"
  shows "\<exists>s'. queue_run enq deq ops s = Some s' \<and> wf s'"
  using assms
proof (induction ops arbitrary: s)
  case Nil
  then show ?case by simp
next
  case (Cons oper ops)
  have known: "known oper s" using Cons.prems by simp
  obtain s1 where s1: "queue_run enq deq (oper # ops) s = queue_run enq deq ops s1" "wf s1"
      "dom (contents s1) = dom (contents s)" "dom (whereabouts s1) = dom (whereabouts s)"
  proof (cases oper)
    case (Enqueue q w)
    then show ?thesis
      using that enq_step [OF Cons.prems(1), of q w] known by (fastforce simp: known_def)
  next
    case (Dequeue w)
    then show ?thesis
      using that deq_step [OF Cons.prems(1), of w] known by (fastforce simp: known_def)
  qed
  moreover have "\<forall>oper \<in> set ops. known oper s1"
    using Cons.prems(2) step_keeps_known [OF _ s1(3,4)] by simp
  ultimately show ?case using Cons.IH [of s1] by simp
qed

text \<open>An item that is moved leaves its queue and arrives at the tail of the other.\<close>

lemma move:
  assumes "wf s" and "whereabouts s w = Some (Some q)" and "contents s q = Some ws"
    and "contents s r = Some vs" and "r \<noteq> q"
  shows "\<exists>s1 s2. deq w s = Some s1 \<and> enq r w s1 = Some s2 \<and> wf s2 \<and>
    contents s2 = (contents s)(q := Some (remove1 w ws), r := Some (vs @ [w])) \<and>
    whereabouts s2 = (whereabouts s)(w := Some (Some r))"
proof -
  obtain s1 where s1: "deq w s = Some s1" "wf s1" "contents s1 = (contents s)(q := Some (remove1 w ws))"
      "whereabouts s1 = (whereabouts s)(w := Some None)"
    using deq_queued [OF assms(1,2)] assms(3) by auto
  then obtain s2 where "enq r w s1 = Some s2" "wf s2" "contents s2 = (contents s1)(r := Some (vs @ [w]))"
      "whereabouts s2 = (whereabouts s1)(w := Some (Some r))"
    using enq_new [OF s1(2), of w r vs] assms(4,5) by auto
  with s1 show ?thesis by auto
qed

text \<open>Items that are not queued anywhere line up in the order they are inserted.\<close>

lemma fifo:
  assumes "wf s" and "contents s q = Some ws" and "distinct vs"
    and "\<forall>v \<in> set vs. whereabouts s v = Some None"
  shows "\<exists>s'. queue_run enq deq (map (Enqueue q) vs) s = Some s' \<and> wf s' \<and>
    contents s' = (contents s)(q := Some (ws @ vs))"
  using assms
proof (induction vs arbitrary: s ws)
  case Nil
  then show ?case by (simp add: fun_upd_idem)
next
  case (Cons v vs)
  obtain s1 where s1: "enq q v s = Some s1" "wf s1" "contents s1 = (contents s)(q := Some (ws @ [v]))"
      "whereabouts s1 = (whereabouts s)(v := Some (Some q))"
    using enq_new [OF Cons.prems(1) _ Cons.prems(2), of v] Cons.prems(4) by auto
  have "\<exists>s'. queue_run enq deq (map (Enqueue q) vs) s1 = Some s' \<and> wf s' \<and>
      contents s' = (contents s1)(q := Some ((ws @ [v]) @ vs))"
    using s1 Cons.prems by (intro Cons.IH) auto
  with s1 show ?case by auto
qed

text \<open>Taking every item off a queue empties it and leaves the other queues alone.\<close>

lemma drain:
  assumes "wf s" and "contents s q = Some ws"
  shows "\<exists>s'. queue_run enq deq (map Dequeue ws) s = Some s' \<and> wf s' \<and>
    contents s' = (contents s)(q := Some [])"
  using assms
proof (induction ws arbitrary: s)
  case Nil
  then show ?case by (simp add: fun_upd_idem)
next
  case (Cons w ws)
  have "whereabouts s w = Some (Some q)" using wf_queue [OF Cons.prems] by simp
  then obtain s1 where s1: "deq w s = Some s1" "wf s1" "contents s1 = (contents s)(q := Some ws)"
    using deq_queued [OF Cons.prems(1), of w q] Cons.prems(2) by auto
  have "\<exists>s'. queue_run enq deq (map Dequeue ws) s1 = Some s' \<and> wf s' \<and>
      contents s' = (contents s1)(q := Some [])"
    using s1 by (intro Cons.IH) auto
  then show ?case
    by (simp only: s1(1,3) fun_upd_upd list.map queue_run.simps bind.bind_lunit)
qed

end

interpretation todo: work_queues "\<lambda>q w. binder_queue_insert q w False" binder_dequeue_work
  items place queues_ok
proof (unfold_locales, goal_cases)
  case (1 s w q ws)
  then show ?case
    using binder_queue_insert_effect [of s w q ws False]
      queues_ok_on_enq [of "place s" "items s" w q ws "ws @ [w]"]
    by (auto simp: queues_ok_def)
next
  case (2 s w r q)
  then show ?case by (simp add: binder_queue_insert_queued)
next
  case (3 s w q)
  then obtain ws where ws: "items s q = Some ws" "w \<in> set ws" using queues_okD(1) by blast
  then show ?case
    using binder_dequeue_effect [of s w q ws] queues_ok_on_deq [of "place s" "items s" w q ws] 3
    by (auto simp: queues_ok_def)
next
  case (4 s w)
  then show ?case by (simp add: binder_dequeue_unqueued)
next
  case (5 s q ws)
  then show ?case using queues_okD(2,3) by blast
qed

text \<open>Putting an item back at the head, as the read loop does, keeps the invariant.\<close>

lemma queues_ok_insert:
  assumes "queues_ok s" and "binder_queue_insert q w h s = Some s'"
  shows "queues_ok s'"
proof (cases "place s w = Some None \<and> items s q \<noteq> None")
  case True
  then obtain ws where ws: "items s q = Some ws" by blast
  then show ?thesis
    using True assms binder_queue_insert_effect [of s w q ws h]
      queues_ok_on_enq [of "place s" "items s" w q ws "if h then w # ws else ws @ [w]"]
    by (auto simp: queues_ok_def)
next
  case False
  then have "s' = s"
    using assms(2) upd_queue_defined [of q "\<lambda>ws. if h then w # ws else ws @ [w]" s]
    by (auto simp: binder_queue_insert_def place_def items_def bind_eq_Some_conv split: if_splits)
  with assms show ?thesis by simp
qed

section \<open>Properties\<close>

text \<open>Two items, the queues of a process and of one of its threads.\<close>

definition queue_example :: binder_state where
  "queue_example = initial_state\<lparr>procs := Map.empty(1 \<mapsto> fresh_proc),
     threads := Map.empty(2 \<mapsto> new_thread), completes := Map.empty(3 \<mapsto> new_work, 4 \<mapsto> new_work)\<rparr>"

lemma queue_example_ok: "queues_ok queue_example"
  by (auto simp: queues_ok_def queues_ok_on_def held_def place_def items_def get_work_def
      get_queue_def queue_example_def initial_state_def fresh_proc_def new_thread_def new_work_def new_error_def
      split: work_ptr.splits work_head.splits if_splits)

text \<open>C7: whatever sequence of insertions at the tail and of removals is made on items and
  queues that exist, it runs without undefined behaviour; afterwards no item
  is twice on a queue or on two queues, and an item's \<open>queue\<close> field names the
  queue that holds it.\<close>

theorem queue_run_exclusive:
  assumes "queues_ok s"
    and "\<forall>oper \<in> set ops. case oper of
        Enqueue q w \<Rightarrow> get_queue q s \<noteq> None \<and> get_work w s \<noteq> None
      | Dequeue w \<Rightarrow> get_work w s \<noteq> None"
  shows "\<exists>s'. queue_run (\<lambda>q w. binder_queue_insert q w False) binder_dequeue_work ops s = Some s' \<and>
    (\<forall>q ws. get_queue q s' = Some ws \<longrightarrow> distinct ws \<and>
      (\<forall>w \<in> set ws. map_option w_queue (get_work w s') = Some (Some q) \<and>
         (\<forall>r vs. r \<noteq> q \<longrightarrow> get_queue r s' = Some vs \<longrightarrow> w \<notin> set vs)))"
proof -
  have "\<forall>oper \<in> set ops. todo.known oper s"
    using assms(2) by (auto simp: todo.known_def items_def place_def split: queue_op.splits)
  then obtain s' where s': "queue_run (\<lambda>q w. binder_queue_insert q w False) binder_dequeue_work ops s
      = Some s'" "queues_ok s'"
    using todo.run_ok [OF assms(1)] by blast
  have "w \<notin> set vs" if "get_queue q s' = Some ws" "w \<in> set ws" "r \<noteq> q" "get_queue r s' = Some vs"
    for q ws w r vs
    using that queues_okD(2) [OF s'(2), of q ws w] queues_okD(2) [OF s'(2), of r vs w]
    by (auto simp: items_def)
  with s' queues_okD [OF s'(2)] show ?thesis
    by (auto simp: items_def place_def)
qed

theorem queue_run_exclusive_witness:
  "\<exists>s'. queue_run (\<lambda>q w. binder_queue_insert q w False) binder_dequeue_work
      [Enqueue (ProcTodo 1) (CompleteWork 3), Enqueue (ThreadTodo 2) (CompleteWork 3),
       Dequeue (CompleteWork 3), Enqueue (ThreadTodo 2) (CompleteWork 3)] queue_example = Some s' \<and>
    (\<forall>q ws. get_queue q s' = Some ws \<longrightarrow> distinct ws \<and>
      (\<forall>w \<in> set ws. map_option w_queue (get_work w s') = Some (Some q) \<and>
         (\<forall>r vs. r \<noteq> q \<longrightarrow> get_queue r s' = Some vs \<longrightarrow> w \<notin> set vs)))"
  by (rule queue_run_exclusive [OF queue_example_ok])
    (simp add: get_queue_def get_work_def queue_example_def)

text \<open>A queue is served in order. Items that wait nowhere, inserted one after
  the other, stand behind what the queue held, in that order, and no other
  queue changes.\<close>

theorem queue_fifo:
  assumes "queues_ok s" and "get_queue q s = Some ws" and "distinct vs"
    and "\<forall>v \<in> set vs. map_option w_queue (get_work v s) = Some None"
  shows "\<exists>s'. queue_run (\<lambda>q w. binder_queue_insert q w False) binder_dequeue_work
      (map (Enqueue q) vs) s = Some s' \<and> get_queue q s' = Some (ws @ vs) \<and>
    (\<forall>r. r \<noteq> q \<longrightarrow> get_queue r s' = get_queue r s)"
proof -
  obtain s' where s': "queue_run (\<lambda>q w. binder_queue_insert q w False) binder_dequeue_work
      (map (Enqueue q) vs) s = Some s'" "items s' = (items s)(q := Some (ws @ vs))"
    using todo.fifo [of s q ws vs] assms by (auto simp: items_def place_def)
  then show ?thesis by (auto simp: items_def fun_eq_iff)
qed

theorem queue_fifo_witness:
  "\<exists>s'. queue_run (\<lambda>q w. binder_queue_insert q w False) binder_dequeue_work
      (map (Enqueue (ThreadTodo 2)) [CompleteWork 3, CompleteWork 4]) queue_example = Some s' \<and>
    get_queue (ThreadTodo 2) s' = Some [CompleteWork 3, CompleteWork 4] \<and>
    (\<forall>r. r \<noteq> ThreadTodo 2 \<longrightarrow> get_queue r s' = get_queue r queue_example)"
  using queue_fifo [OF queue_example_ok, of "ThreadTodo 2" "[]" "[CompleteWork 3, CompleteWork 4]"]
  by (simp add: get_queue_def get_work_def queue_example_def new_thread_def new_work_def)

end
