(* ===== verification/Binder_Node.thy ===== *)
theory Binder_Node
  imports Binder_Queue
begin

text \<open>
  Objects, handles and reference counting (\<^verbatim>\<open>kext/binder_node.c\<close>), the context
  manager and death notifications. \<open>binder_free_transaction\<close> of \<^verbatim>\<open>kext/binder_txn.c\<close>
  is here too, because freeing a node frees the transactions queued behind it.
  What its operations keep is the subject of \<^verbatim>\<open>Binder_Graph\<close> and \<^verbatim>\<open>Binder_Handles\<close>.
\<close>

section \<open>Nodes\<close>

definition new_node :: binder_node where
  "new_node = \<lparr>n_work = new_work, n_proc = None, n_ptr = 0, n_cookie = 0, n_refs = [],
     n_internal_strong_refs = 0, n_local_strong_refs = 0, n_local_weak_refs = 0, n_tmp_refs = 0,
     n_has_strong_ref = False, n_has_weak_ref = False, n_pending_strong_ref = False,
     n_pending_weak_ref = False, n_has_async_transaction = False, n_accept_fds = False,
     n_is_dead = False, n_flags = 0, n_async_todo = [], n_debug_id = 0\<rparr>"

primrec node_find_loop :: "u64 \<Rightarrow> addr list \<Rightarrow> binder_state \<Rightarrow> addr option option" where
  "node_find_loop ptr [] s = Some None"
| "node_find_loop ptr (n # ns) s = do {
     N \<leftarrow> nodes s n;
     if n_ptr N = ptr then Some (Some n) else node_find_loop ptr ns s }"

definition binder_node_find :: "addr \<Rightarrow> u64 \<Rightarrow> binder_state \<Rightarrow> addr option option" where
  "binder_node_find p ptr s = do { P \<leftarrow> procs s p; node_find_loop ptr (p_nodes P) s }"

definition binder_node_new ::
    "kpi \<Rightarrow> addr \<Rightarrow> u64 \<Rightarrow> u64 \<Rightarrow> u32 \<Rightarrow> binder_state \<Rightarrow> (addr option \<times> binder_state) option" where
  "binder_node_new K p ptr cookie flags s = do {
     found \<leftarrow> binder_node_find p ptr s;
     (case found of
        Some n \<Rightarrow> Some (Some n, s)
      | None \<Rightarrow>
          (case binder_alloc_mem K (Sizeof ''binder_node'') s of
             (None, s) \<Rightarrow> Some (None, s)
           | (Some n, s) \<Rightarrow>
               (case binder_next_debug_id s of (dbg, s) \<Rightarrow> do {
                  let N = new_node\<lparr>n_proc := Some p, n_ptr := ptr, n_cookie := cookie, n_flags := flags,
                    n_accept_fds := (flags AND FLAT_BINDER_FLAG_ACCEPTS_FDS \<noteq> 0),
                    n_work := new_work\<lparr>w_type := BINDER_WORK_NODE\<rparr>, n_debug_id := dbg\<rparr>;
                  s \<leftarrow> upd_proc p (p_nodes_update (\<lambda>ns. n # ns)) (s\<lparr>nodes := (nodes s)(n \<mapsto> N)\<rparr>);
                  Some (Some n, s\<lparr>stat_nodes := stat_nodes s + 1\<rparr>) }))) }"

definition binder_node_inc_tmpref :: "addr \<Rightarrow> binder_state \<Rightarrow> binder_state option" where
  "binder_node_inc_tmpref n s = do {
     N \<leftarrow> nodes s n;
     i \<leftarrow> int_inc (n_tmp_refs N);
     upd_node n (n_tmp_refs_update (\<lambda>_. i)) s }"

definition binder_node_has_strong :: "binder_node \<Rightarrow> bool" where
  "binder_node_has_strong N \<longleftrightarrow> n_internal_strong_refs N \<noteq> 0 \<or> n_local_strong_refs N \<noteq> 0"

definition binder_node_has_weak :: "binder_node \<Rightarrow> bool" where
  "binder_node_has_weak N \<longleftrightarrow>
     binder_node_has_strong N \<or> n_local_weak_refs N \<noteq> 0 \<or> n_refs N \<noteq> []"

section \<open>Freeing a transaction\<close>

definition pop_stack :: "addr option \<Rightarrow> addr \<Rightarrow> addr option \<Rightarrow> binder_state \<Rightarrow> binder_state option" where
  "pop_stack t x parent s = (case t of
       None \<Rightarrow> Some s
     | Some t \<Rightarrow> do {
         T \<leftarrow> threads s t;
         if t_transaction_stack T = Some x
         then upd_thread t (t_transaction_stack_update (\<lambda>_. parent)) s
         else Some s })"

definition binder_free_transaction :: "addr option \<Rightarrow> binder_state \<Rightarrow> binder_state option" where
  "binder_free_transaction t s = (case t of
       None \<Rightarrow> Some s
     | Some x \<Rightarrow> do {
         s \<leftarrow> binder_dequeue_work (TxnWork x) s;
         X \<leftarrow> txns s x;
         s \<leftarrow> pop_stack (x_from X) x (x_from_parent X) s;
         s \<leftarrow> pop_stack (x_to_thread X) x (x_to_parent X) s;
         s \<leftarrow> (case x_buffer X of
                 None \<Rightarrow> Some s
               | Some (p, b) \<Rightarrow> upd_buffer p b (b_transaction_update (\<lambda>_. None)) s);
         Some (s\<lparr>txns := (txns s)(x := None), stat_transactions := stat_transactions s - 1\<rparr>) })"

section \<open>Freeing a node\<close>

primrec async_drain :: "work_ptr list \<Rightarrow> binder_state \<Rightarrow> binder_state option" where
  "async_drain [] s = Some s"
| "async_drain (w # ws) s = do {
     s \<leftarrow> binder_dequeue_work w s;
     W \<leftarrow> get_work w s;
     s \<leftarrow> (if w_type W = BINDER_WORK_TRANSACTION
           then (case w of TxnWork x \<Rightarrow> binder_free_transaction (Some x) s | _ \<Rightarrow> None)
           else Some s);
     async_drain ws s }"

definition binder_node_maybe_free :: "addr \<Rightarrow> binder_state \<Rightarrow> binder_state option" where
  "binder_node_maybe_free n s = do {
     N \<leftarrow> nodes s n;
     if n_tmp_refs N \<noteq> 0 \<or> binder_node_has_weak N then Some s
     else if n_has_strong_ref N \<or> n_has_weak_ref N then Some s
     else if BINDER_WORK_QUEUED (n_work N) then Some s
     else do {
       s \<leftarrow> async_drain (n_async_todo N) s;
       s \<leftarrow> (case n_proc N of
               None \<Rightarrow> Some s
             | Some p \<Rightarrow> upd_proc p (p_nodes_update (remove1 n)) s);
       s \<leftarrow> (case n_proc N of
               None \<Rightarrow> Some s
             | Some p \<Rightarrow> do {
                 P \<leftarrow> procs s p;
                 Some (case p_context P of
                     None \<Rightarrow> s
                   | Some c \<Rightarrow>
                       if c_mgr_node (contexts s c) = Some n
                       then upd_context c (c_mgr_node_update (\<lambda>_. None)) s else s) });
       Some (s\<lparr>nodes := (nodes s)(n := None), stat_nodes := stat_nodes s - 1\<rparr>) } }"

definition binder_node_dec_tmpref :: "addr \<Rightarrow> binder_state \<Rightarrow> binder_state option" where
  "binder_node_dec_tmpref n s = do {
     N \<leftarrow> nodes s n;
     i \<leftarrow> int_dec (n_tmp_refs N);
     s \<leftarrow> upd_node n (n_tmp_refs_update (\<lambda>_. i)) s;
     binder_node_maybe_free n s }"

section \<open>Counting\<close>

definition binder_node_notify_owner :: "addr \<Rightarrow> addr option \<Rightarrow> binder_state \<Rightarrow> binder_state option" where
  "binder_node_notify_owner n th s = do {
     N \<leftarrow> nodes s n;
     (case n_proc N of
        None \<Rightarrow> Some s
      | Some p \<Rightarrow> do {
          P \<leftarrow> procs s p;
          if p_is_dead P then Some s
          else if BINDER_WORK_QUEUED (n_work N) then Some s
          else (case th of
              None \<Rightarrow> binder_enqueue_work p (NodeWork n) s
            | Some t \<Rightarrow> do {
                T \<leftarrow> threads s t;
                if t_proc T = Some p then binder_enqueue_thread_work t (NodeWork n) s
                else binder_enqueue_work p (NodeWork n) s }) }) }"

text \<open>The change of the counts, and whether it is refused.\<close>

definition count_refs :: "bool \<Rightarrow> bool \<Rightarrow> bool \<Rightarrow> binder_node \<Rightarrow> (errno \<times> binder_node) option" where
  "count_refs strong increment internal N =
     (if strong then
        if increment then
          if internal then do {
            i \<leftarrow> int_inc (n_internal_strong_refs N);
            Some (OK, N\<lparr>n_internal_strong_refs := i\<rparr>) }
          else do {
            i \<leftarrow> int_inc (n_local_strong_refs N);
            Some (OK, N\<lparr>n_local_strong_refs := i\<rparr>) }
        else if internal then
          if n_internal_strong_refs N = 0 then Some (EINVAL, N)
          else do {
            i \<leftarrow> int_dec (n_internal_strong_refs N);
            Some (OK, N\<lparr>n_internal_strong_refs := i\<rparr>) }
        else
          if n_local_strong_refs N = 0 then Some (EINVAL, N)
          else do {
            i \<leftarrow> int_dec (n_local_strong_refs N);
            Some (OK, N\<lparr>n_local_strong_refs := i\<rparr>) }
      else
        if increment then
          if \<not> internal then do {
            i \<leftarrow> int_inc (n_local_weak_refs N);
            Some (OK, N\<lparr>n_local_weak_refs := i\<rparr>) }
          else Some (OK, N)
        else
          if \<not> internal then
            if n_local_weak_refs N = 0 then Some (EINVAL, N)
            else do {
              i \<leftarrow> int_dec (n_local_weak_refs N);
              Some (OK, N\<lparr>n_local_weak_refs := i\<rparr>) }
          else Some (OK, N))"

definition binder_node_update_refs ::
    "addr \<Rightarrow> bool \<Rightarrow> bool \<Rightarrow> bool \<Rightarrow> addr option \<Rightarrow> binder_state \<Rightarrow> (errno \<times> binder_state) option" where
  "binder_node_update_refs n strong increment internal th s = do {
     N \<leftarrow> nodes s n;
     (e, N') \<leftarrow> count_refs strong increment internal N;
     if e \<noteq> OK then Some (e, s)
     else do {
       s \<leftarrow> upd_node n (\<lambda>_. N') s;
       s \<leftarrow> (if binder_node_has_strong N' \<noteq> binder_node_has_strong N \<or>
              binder_node_has_weak N' \<noteq> binder_node_has_weak N
            then binder_node_notify_owner n th s else Some s);
       s \<leftarrow> binder_node_maybe_free n s;
       Some (OK, s) } }"

section \<open>Death of an owner\<close>

primrec died_loop :: "addr list \<Rightarrow> binder_state \<Rightarrow> binder_state option" where
  "died_loop [] s = Some s"
| "died_loop (r # rs) s = do {
     R \<leftarrow> refs s r;
     s \<leftarrow> (case r_death R of
             None \<Rightarrow> Some s
           | Some d \<Rightarrow> do {
               D \<leftarrow> deaths s d;
               if BINDER_WORK_QUEUED (d_work D) then Some s
               else do {
                 s \<leftarrow> upd_death d (d_work_update (w_type_update (\<lambda>_. BINDER_WORK_DEAD_BINDER))) s;
                 s \<leftarrow> binder_enqueue_work (r_proc R) (DeathWork d) s;
                 binder_wakeup_proc (r_proc R) s } });
     died_loop rs s }"

definition binder_node_died :: "addr \<Rightarrow> binder_state \<Rightarrow> binder_state option" where
  "binder_node_died n s = do {
     s \<leftarrow> upd_node n (\<lambda>N. N\<lparr>n_is_dead := True, n_proc := None\<rparr>) s;
     N \<leftarrow> nodes s n;
     died_loop (n_refs N) s }"

definition binder_node_release :: "addr \<Rightarrow> binder_state \<Rightarrow> binder_state option" where
  "binder_node_release n s = binder_node_maybe_free n s"

section \<open>References\<close>

primrec desc_find_loop :: "u32 \<Rightarrow> addr list \<Rightarrow> binder_state \<Rightarrow> addr option option" where
  "desc_find_loop desc [] s = Some None"
| "desc_find_loop desc (r # rs) s = do {
     R \<leftarrow> refs s r;
     if r_desc R = desc then Some (Some r) else desc_find_loop desc rs s }"

definition binder_ref_find_by_desc :: "addr \<Rightarrow> u32 \<Rightarrow> binder_state \<Rightarrow> addr option option" where
  "binder_ref_find_by_desc p desc s = do { P \<leftarrow> procs s p; desc_find_loop desc (p_refs P) s }"

primrec ref_find_loop :: "addr \<Rightarrow> addr list \<Rightarrow> binder_state \<Rightarrow> addr option option" where
  "ref_find_loop n [] s = Some None"
| "ref_find_loop n (r # rs) s = do {
     R \<leftarrow> refs s r;
     if r_node R = Some n then Some (Some r) else ref_find_loop n rs s }"

definition binder_ref_find_for_node :: "addr \<Rightarrow> addr \<Rightarrow> binder_state \<Rightarrow> addr option option" where
  "binder_ref_find_for_node p n s = do { P \<leftarrow> procs s p; ref_find_loop n (p_refs P) s }"

text \<open>The search for a free descriptor, \<open>for (desc = 1; desc != 0; desc++)\<close>: it wraps
  around after \<open>2\<^sup>3\<^sup>2 - 1\<close> steps.\<close>

function next_desc_loop :: "addr \<Rightarrow> u32 \<Rightarrow> binder_state \<Rightarrow> u32 option" where
  "next_desc_loop p desc s =
     (if desc = 0 then Some 0
      else do {
        found \<leftarrow> binder_ref_find_by_desc p desc s;
        if found = None then Some desc else next_desc_loop p (desc + 1) s })"
  by pat_completeness auto

termination next_desc_loop
proof (relation "measure (\<lambda>(p, desc, s). unat (- desc))")
  fix p and desc :: u32 and s and found :: "addr option"
  assume "desc \<noteq> 0"
  then have "- desc \<noteq> 0" by simp
  then have "unat (- desc - 1) < unat (- desc)" by (metis measure_unat)
  moreover have "- (desc + 1) = - desc - 1" by simp
  ultimately show "((p, desc + 1, s), p, desc, s) \<in> measure (\<lambda>(p, desc, s). unat (- desc))"
    by (simp only: in_measure prod.case)
qed simp

declare next_desc_loop.simps [simp del]

definition binder_ref_next_desc :: "addr \<Rightarrow> addr \<Rightarrow> binder_state \<Rightarrow> u32 option" where
  "binder_ref_next_desc p n s = do {
     P \<leftarrow> procs s p;
     if (case p_context P of None \<Rightarrow> False | Some c \<Rightarrow> c_mgr_node (contexts s c) = Some n)
     then Some 0
     else next_desc_loop p 1 s }"

definition binder_ref_get_for_node ::
    "kpi \<Rightarrow> addr \<Rightarrow> addr \<Rightarrow> binder_state \<Rightarrow> (addr option \<times> binder_state) option" where
  "binder_ref_get_for_node K p n s = do {
     found \<leftarrow> binder_ref_find_for_node p n s;
     (case found of
        Some r \<Rightarrow> Some (Some r, s)
      | None \<Rightarrow>
          (case binder_alloc_mem K (Sizeof ''binder_ref'') s of
             (None, s) \<Rightarrow> Some (None, s)
           | (Some r, s) \<Rightarrow> do {
               desc \<leftarrow> binder_ref_next_desc p n s;
               (case binder_next_debug_id s of (dbg, s) \<Rightarrow> do {
                  let R = \<lparr>r_proc = p, r_node = Some n, r_desc = desc, r_strong = 0, r_weak = 0,
                    r_death = None, r_debug_id = dbg\<rparr>;
                  s \<leftarrow> upd_proc p (p_refs_update (\<lambda>rs. r # rs)) (s\<lparr>refs := (refs s)(r \<mapsto> R)\<rparr>);
                  s \<leftarrow> upd_node n (n_refs_update (\<lambda>rs. r # rs)) s;
                  Some (Some r, s\<lparr>stat_refs := stat_refs s + 1\<rparr>) }) })) }"

definition binder_ref_delete :: "addr \<Rightarrow> binder_state \<Rightarrow> binder_state option" where
  "binder_ref_delete r s = do {
     R \<leftarrow> refs s r;
     let had_strong = 0 < r_strong R;
     s \<leftarrow> (case r_death R of
             None \<Rightarrow> Some s
           | Some d \<Rightarrow> do {
               s \<leftarrow> binder_dequeue_work (DeathWork d) s;
               upd_ref r (r_death_update (\<lambda>_. None)) (s\<lparr>deaths := (deaths s)(d := None)\<rparr>) });
     s \<leftarrow> upd_proc (r_proc R) (p_refs_update (remove1 r)) s;
     s \<leftarrow> (case r_node R of
             None \<Rightarrow> Some s
           | Some n \<Rightarrow> upd_node n (n_refs_update (remove1 r)) s);
     let s = s\<lparr>refs := (refs s)(r := None), stat_refs := stat_refs s - 1\<rparr>;
     (case r_node R of
        None \<Rightarrow> Some s
      | Some n \<Rightarrow> do {
          (_, s) \<leftarrow> binder_node_update_refs n had_strong False True None s;
          Some s }) }"

definition binder_ref_update ::
    "addr \<Rightarrow> bool \<Rightarrow> bool \<Rightarrow> addr option \<Rightarrow> binder_state \<Rightarrow> (errno \<times> binder_state) option" where
  "binder_ref_update r strong increment th s = do {
     R \<leftarrow> refs s r;
     (stop, e, s) \<leftarrow>
       (if strong then
          if increment then do {
            (e, s) \<leftarrow> (if r_strong R = 0
                       then do { n \<leftarrow> r_node R; binder_node_update_refs n True True True th s }
                       else Some (OK, s));
            if e \<noteq> OK then Some (True, e, s)
            else do {
              i \<leftarrow> int_inc (r_strong R);
              s \<leftarrow> upd_ref r (r_strong_update (\<lambda>_. i)) s;
              Some (False, OK, s) } }
          else if r_strong R = 0 then Some (True, EINVAL, s)
          else do {
            i \<leftarrow> int_dec (r_strong R);
            s \<leftarrow> upd_ref r (r_strong_update (\<lambda>_. i)) s;
            (e, s) \<leftarrow> (if i = 0
                       then do { n \<leftarrow> r_node R; binder_node_update_refs n True False True th s }
                       else Some (OK, s));
            Some (False, e, s) }
        else
          if increment then do {
            i \<leftarrow> int_inc (r_weak R);
            s \<leftarrow> upd_ref r (r_weak_update (\<lambda>_. i)) s;
            Some (False, OK, s) }
          else if r_weak R = 0 then Some (True, EINVAL, s)
          else do {
            i \<leftarrow> int_dec (r_weak R);
            s \<leftarrow> upd_ref r (r_weak_update (\<lambda>_. i)) s;
            Some (False, OK, s) });
     if stop then Some (e, s)
     else do {
       R \<leftarrow> refs s r;
       s \<leftarrow> (if r_strong R = 0 \<and> r_weak R = 0 then binder_ref_delete r s else Some s);
       Some (e, s) } }"

section \<open>The context manager\<close>

definition binder_context_mgr_set ::
    "kpi \<Rightarrow> addr \<Rightarrow> u64 \<Rightarrow> u64 \<Rightarrow> u32 \<Rightarrow> binder_state \<Rightarrow> (errno \<times> binder_state) option" where
  "binder_context_mgr_set K p ptr cookie flags s = do {
     P \<leftarrow> procs s p;
     (case p_context P of
        None \<Rightarrow> Some (EINVAL, s)
      | Some c \<Rightarrow>
          let C = contexts s c; uid = kauth_uid K in
          if c_mgr_node C \<noteq> None then Some (EBUSY, s)
          else if c_mgr_uid_valid C \<and> c_mgr_uid C \<noteq> uid then Some (EPERM, s)
          else do {
            let s = (if c_mgr_uid_valid C then s
                     else upd_context c (\<lambda>C. C\<lparr>c_mgr_uid := uid, c_mgr_uid_valid := True\<rparr>) s);
            (node, s) \<leftarrow> binder_node_new K p ptr cookie flags s;
            (case node of
               None \<Rightarrow> Some (ENOMEM, s)
             | Some n \<Rightarrow> do {
                 let s = upd_context c (c_mgr_node_update (\<lambda>_. Some n)) s;
                 N \<leftarrow> nodes s n;
                 i \<leftarrow> int_inc (n_local_strong_refs N);
                 j \<leftarrow> int_inc (n_local_weak_refs N);
                 s \<leftarrow> upd_node n (\<lambda>N. N\<lparr>n_local_strong_refs := i, n_local_weak_refs := j,
                   n_has_strong_ref := True, n_has_weak_ref := True\<rparr>) s;
                 Some (OK, s) }) }) }"

section \<open>Death notifications\<close>

definition binder_death_request ::
    "kpi \<Rightarrow> addr \<Rightarrow> addr \<Rightarrow> u32 \<Rightarrow> u64 \<Rightarrow> binder_state \<Rightarrow> (errno \<times> binder_state) option" where
  "binder_death_request K p t handle cookie s = do {
     found \<leftarrow> binder_ref_find_by_desc p handle s;
     (case found of
        None \<Rightarrow> Some (EINVAL, s)
      | Some r \<Rightarrow> do {
          R \<leftarrow> refs s r;
          if r_death R \<noteq> None then Some (EINVAL, s)
          else (case binder_alloc_mem K (Sizeof ''binder_ref_death'') s of
              (None, s) \<Rightarrow> Some (ENOMEM, s)
            | (Some d, s) \<Rightarrow> do {
                let s = s\<lparr>deaths := (deaths s)(d \<mapsto>
                  \<lparr>d_work = new_work\<lparr>w_type := BINDER_WORK_DEAD_BINDER\<rparr>, d_cookie = cookie\<rparr>)\<rparr>;
                s \<leftarrow> upd_ref r (r_death_update (\<lambda>_. Some d)) s;
                s \<leftarrow> (case r_node R of
                        None \<Rightarrow> Some s
                      | Some n \<Rightarrow> do {
                          N \<leftarrow> nodes s n;
                          if n_is_dead N then binder_enqueue_thread_work t (DeathWork d) s
                          else Some s });
                Some (OK, s) }) }) }"

definition binder_death_clear ::
    "addr \<Rightarrow> addr \<Rightarrow> u32 \<Rightarrow> u64 \<Rightarrow> binder_state \<Rightarrow> (errno \<times> binder_state) option" where
  "binder_death_clear p t handle cookie s = do {
     found \<leftarrow> binder_ref_find_by_desc p handle s;
     (case found of
        None \<Rightarrow> Some (EINVAL, s)
      | Some r \<Rightarrow> do {
          R \<leftarrow> refs s r;
          (case r_death R of
             None \<Rightarrow> Some (EINVAL, s)
           | Some d \<Rightarrow> do {
               D \<leftarrow> deaths s d;
               if d_cookie D \<noteq> cookie then Some (EINVAL, s)
               else do {
                 s \<leftarrow> (if \<not> BINDER_WORK_QUEUED (d_work D) then do {
                         s \<leftarrow> upd_death d (d_work_update (w_type_update
                           (\<lambda>_. BINDER_WORK_CLEAR_DEATH_NOTIFICATION))) s;
                         binder_enqueue_thread_work t (DeathWork d) s }
                       else upd_death d (d_work_update (w_type_update
                         (\<lambda>_. BINDER_WORK_DEAD_BINDER_AND_CLEAR))) s);
                 s \<leftarrow> upd_ref r (r_death_update (\<lambda>_. None)) s;
                 Some (OK, s) } }) }) }"

declare new_node_def [op_defs] binder_node_find_def [op_defs] binder_node_new_def [op_defs]
  binder_node_inc_tmpref_def [op_defs] binder_node_has_strong_def [op_defs]
  binder_node_has_weak_def [op_defs] pop_stack_def [op_defs] binder_free_transaction_def [op_defs]
  binder_node_maybe_free_def [op_defs] binder_node_dec_tmpref_def [op_defs]
  binder_node_notify_owner_def [op_defs] count_refs_def [op_defs]
  binder_node_update_refs_def [op_defs] binder_node_died_def [op_defs]
  binder_node_release_def [op_defs] binder_ref_find_by_desc_def [op_defs]
  binder_ref_find_for_node_def [op_defs] binder_ref_next_desc_def [op_defs]
  binder_ref_get_for_node_def [op_defs] binder_ref_delete_def [op_defs]
  binder_ref_update_def [op_defs] binder_context_mgr_set_def [op_defs]
  binder_death_request_def [op_defs] binder_death_clear_def [op_defs]

end
