(* ===== verification/Binder_Txn.thy ===== *)
theory Binder_Txn
  imports Binder_Node
begin

text \<open>
  Transactions (\<^verbatim>\<open>kext/binder_txn.c\<close>): walking the objects of a parcel, translating
  each of them for the receiver, undoing that when a buffer is released, and
  \<open>binder_transaction\<close> itself, in the stages the C function has: the target, the
  bounds and the payload, the translation loop, the queueing, and the common
  exit.

  The kernel copy of a payload is a block of bytes. Every access the code makes
  to it goes through the checked accessors below, so that a read or write
  outside the block is undefined behaviour of the model.
\<close>

section \<open>Checked access to a kernel block\<close>

definition rd_u32 :: "nat \<Rightarrow> byte list \<Rightarrow> u32 option" where
  "rd_u32 off bs = (if off + 4 \<le> length bs then Some (get_u32 off bs) else None)"

definition rd_u64 :: "nat \<Rightarrow> byte list \<Rightarrow> u64 option" where
  "rd_u64 off bs = (if off + 8 \<le> length bs then Some (get_u64 off bs) else None)"

definition wr_bytes :: "nat \<Rightarrow> byte list \<Rightarrow> byte list \<Rightarrow> byte list option" where
  "wr_bytes off xs bs = (if off + length xs \<le> length bs then Some (put_bytes off xs bs) else None)"

definition wr_u32 :: "nat \<Rightarrow> u32 \<Rightarrow> byte list \<Rightarrow> byte list option" where
  "wr_u32 off w = wr_bytes off (word_le 4 w)"

definition wr_u64 :: "nat \<Rightarrow> u64 \<Rightarrow> byte list \<Rightarrow> byte list option" where
  "wr_u64 off w = wr_bytes off (word_le 8 w)"

text \<open>The payload of a buffer.\<close>

definition get_kdata :: "addr \<Rightarrow> addr \<Rightarrow> binder_state \<Rightarrow> byte list option" where
  "get_kdata p b s = do { B \<leftarrow> get_buffer p b s; b_kdata B }"

definition put_kdata :: "addr \<Rightarrow> addr \<Rightarrow> byte list \<Rightarrow> binder_state \<Rightarrow> binder_state option" where
  "put_kdata p b bs s = upd_buffer p b (b_kdata_update (\<lambda>_. Some bs)) s"

section \<open>Errors\<close>

definition set_return_error :: "addr \<Rightarrow> u32 \<Rightarrow> binder_state \<Rightarrow> binder_state option" where
  "set_return_error t br s = do {
     s \<leftarrow> upd_thread t (t_return_error_update (\<lambda>E. E\<lparr>e_cmd := br,
       e_work := (e_work E)\<lparr>w_type := BINDER_WORK_RETURN_ERROR\<rparr>\<rparr>)) s;
     binder_enqueue_thread_work t (ReturnErrorWork t) s }"

definition binder_txn_error :: "addr \<Rightarrow> u32 \<Rightarrow> binder_state \<Rightarrow> binder_state option" where
  "binder_txn_error t br s =
     set_return_error t br (s\<lparr>stat_failed_transactions := stat_failed_transactions s + 1\<rparr>)"

section \<open>Object walking\<close>

definition binder_object_size :: "u32 \<Rightarrow> u64" where
  "binder_object_size type =
     (if type = BINDER_TYPE_BINDER \<or> type = BINDER_TYPE_WEAK_BINDER \<or>
         type = BINDER_TYPE_HANDLE \<or> type = BINDER_TYPE_WEAK_HANDLE
      then of_nat (struct_size flat_binder_object)
      else if type = BINDER_TYPE_FD then of_nat (struct_size binder_fd_object)
      else if type = BINDER_TYPE_PTR then of_nat (struct_size binder_buffer_object)
      else if type = BINDER_TYPE_FDA then of_nat (struct_size binder_fd_array_object)
      else 0)"

text \<open>The result is the size of the object; the object itself is at the offset.\<close>

definition binder_object_at :: "byte list \<Rightarrow> u64 \<Rightarrow> u64 \<Rightarrow> u64 option option" where
  "binder_object_at kdata data_size off =
     (if off AND 7 \<noteq> 0 \<or> data_size \<le> off then Some None
      else if data_size - off < of_nat (struct_size binder_object_header) then Some None
      else do {
        type \<leftarrow> rd_u32 (unat off) kdata;
        let objsize = binder_object_size type;
        Some (if objsize = 0 \<or> data_size - off < objsize then None else Some objsize) })"

section \<open>Object translation\<close>

text \<open>Members of the wire objects, by offset: the type, the flags, the union of
  \<open>binder\<close> and \<open>handle\<close>, the cookie; for a buffer object its address, length and
  parent.\<close>

abbreviation o_type :: nat where "o_type \<equiv> 0"
abbreviation o_flags :: nat where "o_flags \<equiv> 4"
abbreviation o_binder :: nat where "o_binder \<equiv> 8"
abbreviation o_handle :: nat where "o_handle \<equiv> 8"
abbreviation o_cookie :: nat where "o_cookie \<equiv> 16"
abbreviation o_buffer :: nat where "o_buffer \<equiv> 8"
abbreviation o_length :: nat where "o_length \<equiv> 16"
abbreviation o_parent :: nat where "o_parent \<equiv> 24"

text \<open>An object is named by the buffer that holds it and its offset.\<close>

definition binder_translate_binder ::
    "kpi \<Rightarrow> addr \<Rightarrow> nat \<Rightarrow> addr \<Rightarrow> addr \<Rightarrow> addr \<Rightarrow> binder_state \<Rightarrow> (errno \<times> binder_state) option" where
  "binder_translate_binder K b fp p t tp s = do {
     kd \<leftarrow> get_kdata tp b s;
     ptr \<leftarrow> rd_u64 (fp + o_binder) kd;
     cookie \<leftarrow> rd_u64 (fp + o_cookie) kd;
     flags \<leftarrow> rd_u32 (fp + o_flags) kd;
     type \<leftarrow> rd_u32 (fp + o_type) kd;
     found \<leftarrow> binder_node_find p ptr s;
     (node, s) \<leftarrow> (case found of
         Some n \<Rightarrow> Some (Some n, s)
       | None \<Rightarrow> binder_node_new K p ptr cookie flags s);
     (case node of
        None \<Rightarrow> Some (ENOMEM, s)
      | Some n \<Rightarrow> do {
          N \<leftarrow> nodes s n;
          if cookie \<noteq> n_cookie N then Some (EINVAL, s)
          else do {
            (ref, s) \<leftarrow> binder_ref_get_for_node K tp n s;
            (case ref of
               None \<Rightarrow> Some (ENOMEM, s)
             | Some r \<Rightarrow> do {
                 (e, s) \<leftarrow> binder_ref_update r (type = BINDER_TYPE_BINDER) True (Some t) s;
                 if e \<noteq> OK then Some (e, s)
                 else do {
                   R \<leftarrow> refs s r;
                   kd \<leftarrow> get_kdata tp b s;
                   kd \<leftarrow> wr_u32 (fp + o_type) (if type = BINDER_TYPE_BINDER then BINDER_TYPE_HANDLE
                     else BINDER_TYPE_WEAK_HANDLE) kd;
                   kd \<leftarrow> wr_u64 (fp + o_binder) 0 kd;
                   kd \<leftarrow> wr_u32 (fp + o_handle) (r_desc R) kd;
                   kd \<leftarrow> wr_u64 (fp + o_cookie) 0 kd;
                   s \<leftarrow> put_kdata tp b kd s;
                   Some (OK, s) } }) } }) }"

definition binder_translate_handle ::
    "kpi \<Rightarrow> addr \<Rightarrow> nat \<Rightarrow> addr \<Rightarrow> addr \<Rightarrow> addr \<Rightarrow> binder_state \<Rightarrow> (errno \<times> binder_state) option" where
  "binder_translate_handle K b fp p t tp s = do {
     kd \<leftarrow> get_kdata tp b s;
     type \<leftarrow> rd_u32 (fp + o_type) kd;
     handle \<leftarrow> rd_u32 (fp + o_handle) kd;
     let strong = (type = BINDER_TYPE_HANDLE);
     found \<leftarrow> binder_ref_find_by_desc p handle s;
     (case found of
        None \<Rightarrow> Some (EINVAL, s)
      | Some r \<Rightarrow> do {
          R \<leftarrow> refs s r;
          (case r_node R of
             None \<Rightarrow> Some (EINVAL, s)
           | Some n \<Rightarrow> do {
               N \<leftarrow> nodes s n;
               if n_proc N = Some tp then do {
                 (e, s) \<leftarrow> binder_node_update_refs n strong True False (Some t) s;
                 if e \<noteq> OK then Some (e, s)
                 else do {
                   N \<leftarrow> nodes s n;
                   kd \<leftarrow> wr_u32 (fp + o_type) (if strong then BINDER_TYPE_BINDER
                     else BINDER_TYPE_WEAK_BINDER) kd;
                   kd \<leftarrow> wr_u64 (fp + o_binder) (n_ptr N) kd;
                   kd \<leftarrow> wr_u64 (fp + o_cookie) (n_cookie N) kd;
                   s \<leftarrow> put_kdata tp b kd s;
                   Some (OK, s) } }
               else do {
                 (ref, s) \<leftarrow> binder_ref_get_for_node K tp n s;
                 (case ref of
                    None \<Rightarrow> Some (ENOMEM, s)
                  | Some r' \<Rightarrow> do {
                      (e, s) \<leftarrow> binder_ref_update r' strong True (Some t) s;
                      if e \<noteq> OK then Some (e, s)
                      else do {
                        R' \<leftarrow> refs s r';
                        kd \<leftarrow> wr_u32 (fp + o_handle) (r_desc R') kd;
                        s \<leftarrow> put_kdata tp b kd s;
                        Some (OK, s) } }) } }) }) }"

definition binder_translate_fd ::
    "addr \<Rightarrow> nat \<Rightarrow> addr \<Rightarrow> addr option \<Rightarrow> addr \<Rightarrow> binder_state \<Rightarrow> (errno \<times> binder_state) option" where
  "binder_translate_fd b fp p target_node tp s = do {
     refused \<leftarrow> (case target_node of
         None \<Rightarrow> Some False
       | Some n \<Rightarrow> do { N \<leftarrow> nodes s n; Some (\<not> n_accept_fds N) });
     if refused then Some (EPERM, s)
     else do {
       P \<leftarrow> procs s p;
       kd \<leftarrow> get_kdata tp b s;
       kd \<leftarrow> wr_u64 (fp + o_cookie) (scast (p_pid P)) kd;
       s \<leftarrow> put_kdata tp b kd s;
       Some (OK, s) } }"

text \<open>The scatter-gather buffer of \<open>binder_transaction\<close>'s loop. The parent of a nested
  one is the first offset equal to its \<open>parent\<close> member.\<close>

primrec find_parent :: "byte list \<Rightarrow> nat \<Rightarrow> u64 \<Rightarrow> nat list \<Rightarrow> u64 option option" where
  "find_parent kd off_area parent [] = Some None"
| "find_parent kd off_area parent (j # js) = do {
     off \<leftarrow> rd_u64 (off_area + 8 * j) kd;
     if off = parent then Some (Some off) else find_parent kd off_area parent js }"

definition binder_translate_ptr ::
    "kpi \<Rightarrow> addr \<Rightarrow> nat \<Rightarrow> addr \<Rightarrow> u64 \<Rightarrow> u64 \<Rightarrow> u64 \<Rightarrow> nat \<Rightarrow> u64 \<Rightarrow> binder_state \<Rightarrow>
     (errno \<times> u64 \<times> binder_state) option" where
  "binder_translate_ptr K b bp tp extra_size off_area sg_area count sg_used s = do {
     kd \<leftarrow> get_kdata tp b s;
     flags \<leftarrow> rd_u32 (bp + o_flags) kd;
     buf \<leftarrow> rd_u64 (bp + o_buffer) kd;
     len \<leftarrow> rd_u64 (bp + o_length) kd;
     let need = BINDER_ALIGN len;
     nested_ok \<leftarrow>
       (if flags AND BINDER_BUFFER_FLAG_HAS_PARENT \<noteq> 0 then do {
          parent \<leftarrow> rd_u64 (bp + o_parent) kd;
          found \<leftarrow> find_parent kd (unat off_area) parent [0..<count];
          (case found of
             None \<Rightarrow> Some False
           | Some off \<Rightarrow> do {
               pbuf \<leftarrow> rd_u64 (unat off + o_buffer) kd;
               if buf < pbuf then Some False
               else do {
                 plen \<leftarrow> rd_u64 (unat off + o_length) kd;
                 Some (\<not> (pbuf + plen < buf + len)) } }) }
        else Some True);
     if \<not> nested_ok then Some (EINVAL, sg_used, s)
     else if extra_size < len \<or> BINDER_ALIGN extra_size < sg_used + need
     then Some (EINVAL, sg_used, s)
     else (case binder_copyin K buf len s of
         (None, s) \<Rightarrow> Some (EFAULT, sg_used, s)
       | (Some bytes, s) \<Rightarrow> do {
           kd \<leftarrow> wr_bytes (unat (sg_area + sg_used)) bytes kd;
           TP \<leftarrow> procs s tp;
           B \<leftarrow> get_buffer tp b s;
           kd \<leftarrow> wr_u64 (bp + o_buffer) (binder_buffer_uaddr TP B + sg_area + sg_used) kd;
           s \<leftarrow> put_kdata tp b kd s;
           Some (OK, sg_used + need, s) }) }"

section \<open>Releasing a buffer\<close>

definition release_object :: "addr \<Rightarrow> byte list \<Rightarrow> nat \<Rightarrow> binder_state \<Rightarrow> binder_state option" where
  "release_object p kd fp s = do {
     type \<leftarrow> rd_u32 (fp + o_type) kd;
     if type = BINDER_TYPE_BINDER \<or> type = BINDER_TYPE_WEAK_BINDER then do {
       ptr \<leftarrow> rd_u64 (fp + o_binder) kd;
       found \<leftarrow> binder_node_find p ptr s;
       (case found of
          None \<Rightarrow> Some s
        | Some n \<Rightarrow> do {
            (_, s) \<leftarrow> binder_node_update_refs n (type = BINDER_TYPE_BINDER) False False None s;
            Some s }) }
     else if type = BINDER_TYPE_HANDLE \<or> type = BINDER_TYPE_WEAK_HANDLE then do {
       handle \<leftarrow> rd_u32 (fp + o_handle) kd;
       found \<leftarrow> binder_ref_find_by_desc p handle s;
       (case found of
          None \<Rightarrow> Some s
        | Some r \<Rightarrow> do {
            (_, s) \<leftarrow> binder_ref_update r (type = BINDER_TYPE_HANDLE) False None s;
            Some s }) }
     else Some s }"

primrec release_loop ::
    "addr \<Rightarrow> byte list \<Rightarrow> u64 \<Rightarrow> nat \<Rightarrow> nat list \<Rightarrow> binder_state \<Rightarrow> binder_state option" where
  "release_loop p kd data_size off_area [] s = Some s"
| "release_loop p kd data_size off_area (i # is) s = do {
     off \<leftarrow> rd_u64 (off_area + 8 * i) kd;
     obj \<leftarrow> binder_object_at kd data_size off;
     s \<leftarrow> (case obj of None \<Rightarrow> Some s | Some _ \<Rightarrow> release_object p kd (unat off) s);
     release_loop p kd data_size off_area is s }"

definition binder_transaction_buffer_release :: "addr \<Rightarrow> addr option \<Rightarrow> binder_state \<Rightarrow> binder_state option" where
  "binder_transaction_buffer_release p buffer s = (case buffer of
       None \<Rightarrow> Some s
     | Some b \<Rightarrow> do {
         B \<leftarrow> get_buffer p b s;
         (case b_kdata B of
            None \<Rightarrow> Some s
          | Some kd \<Rightarrow>
              release_loop p kd (b_data_size B) (unat (BINDER_ALIGN (b_data_size B)))
                [0..<unat (b_offsets_size B div 8)] s) })"

section \<open>The target thread\<close>

text \<open>The walk down the sender's stack; on a cyclic stack it does not end, which is
  the value \<open>None\<close>.\<close>

partial_function (option) target_thread_loop ::
    "addr \<Rightarrow> binder_state \<Rightarrow> addr option \<Rightarrow> addr option option" where
  "target_thread_loop tp s tmp = (case tmp of
       None \<Rightarrow> Some None
     | Some x \<Rightarrow> do {
         X \<leftarrow> txns s x;
         hit \<leftarrow> (case x_from X of
             None \<Rightarrow> Some False
           | Some f \<Rightarrow> do { F \<leftarrow> threads s f; Some (t_proc F = Some tp) });
         if hit then Some (x_from X) else target_thread_loop tp s (x_from_parent X) })"

declare target_thread_loop.simps [code]

definition binder_target_thread_for :: "addr \<Rightarrow> addr \<Rightarrow> binder_state \<Rightarrow> addr option option" where
  "binder_target_thread_for t tp s = do {
     T \<leftarrow> threads s t;
     target_thread_loop tp s (t_transaction_stack T) }"

section \<open>Sending\<close>

text \<open>What the first stage of \<open>binder_transaction\<close> finds out.\<close>

record txn_target =
  g_in_reply_to :: "addr option"
  g_proc :: addr
  g_thread :: "addr option"
  g_node :: "addr option"
  g_oneway :: bool

definition reply_target :: "addr \<Rightarrow> binder_state \<Rightarrow> (txn_target option \<times> binder_state) option" where
  "reply_target t s = do {
     T \<leftarrow> threads s t;
     (case t_transaction_stack T of
        None \<Rightarrow> do { s \<leftarrow> binder_txn_error t BR_FAILED_REPLY s; Some (None, s) }
      | Some x \<Rightarrow> do {
          X \<leftarrow> txns s x;
          s \<leftarrow> upd_thread t (t_transaction_stack_update (\<lambda>_. x_to_parent X)) s;
          dead \<leftarrow> (case x_from X of
              None \<Rightarrow> Some True
            | Some f \<Rightarrow> do { F \<leftarrow> threads s f; Some (t_is_dead F) });
          if dead then do {
            s \<leftarrow> binder_txn_error t BR_DEAD_REPLY s;
            s \<leftarrow> binder_free_transaction (Some x) s;
            Some (None, s) }
          else do {
            f \<leftarrow> x_from X;
            F \<leftarrow> threads s f;
            tp \<leftarrow> t_proc F;
            Some (Some \<lparr>g_in_reply_to = Some x, g_proc = tp, g_thread = Some f, g_node = None,
              g_oneway = False\<rparr>, s) } }) }"

text \<open>The node a call is for: the handle's, or the context manager's.\<close>

definition call_node ::
    "addr \<Rightarrow> addr \<Rightarrow> u32 \<Rightarrow> binder_state \<Rightarrow> (addr option \<times> binder_state) option" where
  "call_node p t handle s =
     (if handle \<noteq> 0 then do {
        found \<leftarrow> binder_ref_find_by_desc p handle s;
        node \<leftarrow> (case found of None \<Rightarrow> Some None | Some r \<Rightarrow> do { R \<leftarrow> refs s r; Some (r_node R) });
        (case node of
           None \<Rightarrow> do { s \<leftarrow> binder_txn_error t BR_FAILED_REPLY s; Some (None, s) }
         | Some n \<Rightarrow> Some (Some n, s)) }
      else do {
        P \<leftarrow> procs s p;
        (case (case p_context P of None \<Rightarrow> None | Some c \<Rightarrow> c_mgr_node (contexts s c)) of
           None \<Rightarrow> do { s \<leftarrow> binder_txn_error t BR_DEAD_REPLY s; Some (None, s) }
         | Some n \<Rightarrow> Some (Some n, s)) })"

definition call_target ::
    "addr \<Rightarrow> addr \<Rightarrow> u32 \<Rightarrow> bool \<Rightarrow> binder_state \<Rightarrow> (txn_target option \<times> binder_state) option" where
  "call_target p t handle oneway s = do {
     (node, s) \<leftarrow> call_node p t handle s;
     (case node of
        None \<Rightarrow> Some (None, s)
      | Some n \<Rightarrow> do {
          N \<leftarrow> nodes s n;
          dead \<leftarrow> (if n_is_dead N then Some True
              else (case n_proc N of
                  None \<Rightarrow> Some True
                | Some tp \<Rightarrow> do { TP \<leftarrow> procs s tp; Some (p_is_dead TP) }));
          if dead then do { s \<leftarrow> binder_txn_error t BR_DEAD_REPLY s; Some (None, s) }
          else do {
            tp \<leftarrow> n_proc N;
            s \<leftarrow> binder_node_inc_tmpref n s;
            tt \<leftarrow> (if \<not> oneway then binder_target_thread_for t tp s else Some None);
            Some (Some \<lparr>g_in_reply_to = None, g_proc = tp, g_thread = tt, g_node = Some n,
              g_oneway = oneway\<rparr>, s) } }) }"

text \<open>The common exit: give back what was not queued.\<close>

definition txn_out ::
    "addr \<Rightarrow> txn_target \<Rightarrow> addr option \<Rightarrow> addr option \<Rightarrow> addr option \<Rightarrow> addr option \<Rightarrow> binder_state \<Rightarrow>
     binder_state option" where
  "txn_out t G x tc buffer in_reply_to s = do {
     let s = (case x of None \<Rightarrow> s | Some x \<Rightarrow> s\<lparr>txns := (txns s)(x := None)\<rparr>);
     let s = (case tc of None \<Rightarrow> s | Some c \<Rightarrow> s\<lparr>completes := (completes s)(c := None)\<rparr>);
     s \<leftarrow> (case buffer of
             None \<Rightarrow> Some s
           | Some b \<Rightarrow> do {
               s \<leftarrow> binder_transaction_buffer_release (g_proc G) (Some b) s;
               binder_buffer_free (g_proc G) b s });
     s \<leftarrow> (case in_reply_to of
             None \<Rightarrow> Some s
           | Some x \<Rightarrow> upd_thread t (t_transaction_stack_update (\<lambda>_. Some x)) s);
     (case g_node G of None \<Rightarrow> Some s | Some n \<Rightarrow> binder_node_dec_tmpref n s) }"

text \<open>The bounds, the buffer in the receiver's arena and the kernel copy. The flag
  says whether the transaction may go on.\<close>

definition txn_payload ::
    "kpi \<Rightarrow> addr \<Rightarrow> txn_target \<Rightarrow> binder_transaction_data \<Rightarrow> u64 \<Rightarrow> binder_state \<Rightarrow>
     (addr option \<times> bool \<times> binder_state) option" where
  "txn_payload K t G tr extra_size s = do {
     TP \<leftarrow> procs s (g_proc G);
     if p_arena_size TP = 0 then do {
       s \<leftarrow> binder_txn_error t BR_FAILED_REPLY s; Some (None, False, s) }
     else if BINDER_MAX_TRANSACTION_SIZE < tr_data_size tr \<or>
        BINDER_MAX_TRANSACTION_SIZE < tr_offsets_size tr \<or>
        BINDER_MAX_TRANSACTION_SIZE < extra_size \<or> tr_offsets_size tr mod 8 \<noteq> 0 then do {
       s \<leftarrow> binder_txn_error t BR_FAILED_REPLY s; Some (None, False, s) }
     else do {
       let off_area = BINDER_ALIGN (tr_data_size tr);
       let sg_area = off_area + BINDER_ALIGN (tr_offsets_size tr);
       let total = sg_area + BINDER_ALIGN extra_size;
       if total = 0 \<or> BINDER_MAX_TRANSACTION_SIZE < total then do {
         s \<leftarrow> binder_txn_error t BR_FAILED_REPLY s; Some (None, False, s) }
       else do {
         (buffer, s) \<leftarrow> binder_buffer_alloc K (g_proc G) (tr_data_size tr) (tr_offsets_size tr)
           extra_size (g_oneway G) s;
         (case buffer of
            None \<Rightarrow> do { s \<leftarrow> binder_txn_error t BR_FAILED_REPLY s; Some (None, False, s) }
          | Some b \<Rightarrow>
              (case binder_alloc_mem K (Bytes total) s of
                 (None, s) \<Rightarrow> do { s \<leftarrow> binder_txn_error t BR_FAILED_REPLY s; Some (Some b, False, s) }
               | (Some _, s) \<Rightarrow>
                   (case binder_copyin K (tr_buffer tr) (tr_data_size tr) s of
                      (None, s) \<Rightarrow> do { s \<leftarrow> binder_txn_error t BR_FAILED_REPLY s; Some (Some b, False, s) }
                    | (Some data, s) \<Rightarrow>
                        (case binder_copyin K (tr_offsets tr) (tr_offsets_size tr) s of
                           (None, s) \<Rightarrow> do {
                             s \<leftarrow> binder_txn_error t BR_FAILED_REPLY s; Some (Some b, False, s) }
                         | (Some offs, s) \<Rightarrow> do {
                             kd \<leftarrow> wr_bytes 0 data (replicate (unat total) 0);
                             kd \<leftarrow> wr_bytes (unat off_area) offs kd;
                             s \<leftarrow> upd_buffer (g_proc G) b
                               (\<lambda>B. B\<lparr>b_kdata := Some kd, b_kdata_size := total\<rparr>) s;
                             Some (Some b, True,
                               s\<lparr>stat_kdata_bytes := stat_kdata_bytes s + sint total\<rparr>) })))) } } }"

text \<open>One round of the translation loop, and the loop.\<close>

definition translate_object ::
    "kpi \<Rightarrow> addr \<Rightarrow> addr \<Rightarrow> txn_target \<Rightarrow> addr \<Rightarrow> binder_transaction_data \<Rightarrow> u64 \<Rightarrow> nat \<Rightarrow> u64 \<Rightarrow>
     binder_state \<Rightarrow> (errno \<times> u64 \<times> binder_state) option" where
  "translate_object K p t G b tr extra_size i sg_used s = do {
     let off_area = BINDER_ALIGN (tr_data_size tr);
     let sg_area = off_area + BINDER_ALIGN (tr_offsets_size tr);
     let count = unat (tr_offsets_size tr div 8);
     kd \<leftarrow> get_kdata (g_proc G) b s;
     off \<leftarrow> rd_u64 (unat off_area + 8 * i) kd;
     obj \<leftarrow> binder_object_at kd (tr_data_size tr) off;
     (case obj of
        None \<Rightarrow> Some (EINVAL, sg_used, s)
      | Some _ \<Rightarrow> do {
          type \<leftarrow> rd_u32 (unat off) kd;
          if type = BINDER_TYPE_BINDER \<or> type = BINDER_TYPE_WEAK_BINDER then do {
            (e, s) \<leftarrow> binder_translate_binder K b (unat off) p t (g_proc G) s;
            Some (e, sg_used, s) }
          else if type = BINDER_TYPE_HANDLE \<or> type = BINDER_TYPE_WEAK_HANDLE then do {
            (e, s) \<leftarrow> binder_translate_handle K b (unat off) p t (g_proc G) s;
            Some (e, sg_used, s) }
          else if type = BINDER_TYPE_FD then do {
            (e, s) \<leftarrow> binder_translate_fd b (unat off) p (g_node G) (g_proc G) s;
            Some (e, sg_used, s) }
          else if type = BINDER_TYPE_PTR then
            binder_translate_ptr K b (unat off) (g_proc G) extra_size off_area sg_area count sg_used s
          else if type = BINDER_TYPE_FDA then Some (OK, sg_used, s)
          else Some (EINVAL, sg_used, s) }) }"

primrec translate_loop ::
    "kpi \<Rightarrow> addr \<Rightarrow> addr \<Rightarrow> txn_target \<Rightarrow> addr \<Rightarrow> binder_transaction_data \<Rightarrow> u64 \<Rightarrow> nat list \<Rightarrow> u64 \<Rightarrow>
     binder_state \<Rightarrow> (bool \<times> binder_state) option" where
  "translate_loop K p t G b tr extra_size [] sg_used s = Some (True, s)"
| "translate_loop K p t G b tr extra_size (i # is) sg_used s = do {
     (e, sg_used, s) \<leftarrow> translate_object K p t G b tr extra_size i sg_used s;
     if e \<noteq> OK then do { s \<leftarrow> binder_txn_error t BR_FAILED_REPLY s; Some (False, s) }
     else translate_loop K p t G b tr extra_size is sg_used s }"

definition new_transaction :: binder_txn where
  "new_transaction = \<lparr>x_work = new_work, x_debug_id = 0, x_from = None, x_from_parent = None,
     x_to_proc = None, x_to_thread = None, x_to_parent = None, x_need_reply = False,
     x_buffer = None, x_code = 0, x_flags = 0, x_sender_pid = 0, x_sender_euid = 0\<rparr>"

text \<open>Filling in the transaction and linking it to its buffer.\<close>

definition txn_fill ::
    "kpi \<Rightarrow> addr \<Rightarrow> addr \<Rightarrow> txn_target \<Rightarrow> binder_transaction_data \<Rightarrow> bool \<Rightarrow> addr \<Rightarrow> addr \<Rightarrow> addr \<Rightarrow>
     binder_state \<Rightarrow> binder_state option" where
  "txn_fill K p t G tr reply b x c s = do {
     P \<leftarrow> procs s p;
     (case binder_next_debug_id s of (dbg, s) \<Rightarrow> do {
        s \<leftarrow> upd_txn x (\<lambda>X. X\<lparr>x_debug_id := dbg,
          x_work := (x_work X)\<lparr>w_type := BINDER_WORK_TRANSACTION\<rparr>,
          x_from := (if reply \<or> g_oneway G then None else Some t),
          x_to_proc := Some (g_proc G), x_to_thread := g_thread G,
          x_code := tr_code tr, x_flags := tr_flags tr, x_sender_pid := p_pid P,
          x_sender_euid := kauth_uid K, x_need_reply := (\<not> reply \<and> \<not> g_oneway G),
          x_buffer := Some (g_proc G, b)\<rparr>) s;
        s \<leftarrow> upd_buffer (g_proc G) b
          (\<lambda>B. B\<lparr>b_transaction := Some x, b_target_node := g_node G\<rparr>) s;
        upd_complete c (w_type_update (\<lambda>_. BINDER_WORK_TRANSACTION_COMPLETE))
          (s\<lparr>stat_transactions := stat_transactions s + 1\<rparr>) }) }"

text \<open>Where the transaction is queued. The last line is the \<open>tcomplete\<close> of the sender.\<close>

definition txn_enqueue ::
    "addr \<Rightarrow> txn_target \<Rightarrow> bool \<Rightarrow> addr \<Rightarrow> addr \<Rightarrow> binder_state \<Rightarrow> binder_state option" where
  "txn_enqueue t G reply x c s = do {
     s \<leftarrow> (if reply then do {
             s \<leftarrow> binder_free_transaction (g_in_reply_to G) s;
             tt \<leftarrow> g_thread G;
             s \<leftarrow> binder_enqueue_thread_work tt (TxnWork x) s;
             binder_wakeup_thread tt s }
           else if \<not> g_oneway G then do {
             T \<leftarrow> threads s t;
             s \<leftarrow> upd_txn x (x_from_parent_update (\<lambda>_. t_transaction_stack T)) s;
             s \<leftarrow> upd_thread t (t_transaction_stack_update (\<lambda>_. Some x)) s;
             (case g_thread G of
                Some tt \<Rightarrow> do {
                  s \<leftarrow> binder_enqueue_thread_work tt (TxnWork x) s;
                  binder_wakeup_thread tt s }
              | None \<Rightarrow> do {
                  s \<leftarrow> binder_enqueue_work (g_proc G) (TxnWork x) s;
                  binder_wakeup_proc (g_proc G) s }) }
           else do {
             n \<leftarrow> g_node G;
             N \<leftarrow> nodes s n;
             if n_has_async_transaction N then do {
               s \<leftarrow> upd_queue (AsyncTodo n) (\<lambda>ws. ws @ [TxnWork x]) s;
               upd_work (TxnWork x) (w_queue_update (\<lambda>_. Some (AsyncTodo n))) s }
             else do {
               s \<leftarrow> upd_node n (n_has_async_transaction_update (\<lambda>_. True)) s;
               s \<leftarrow> binder_enqueue_work (g_proc G) (TxnWork x) s;
               binder_wakeup_proc (g_proc G) s } });
     binder_enqueue_thread_work t (CompleteWork c) s }"

definition txn_send ::
    "kpi \<Rightarrow> addr \<Rightarrow> addr \<Rightarrow> txn_target \<Rightarrow> binder_transaction_data \<Rightarrow> u64 \<Rightarrow> bool \<Rightarrow> binder_state \<Rightarrow>
     binder_state option" where
  "txn_send K p t G tr extra_size reply s = do {
     (buffer, ok, s) \<leftarrow> txn_payload K t G tr extra_size s;
     (case (buffer, ok) of
        (Some b, True) \<Rightarrow> do {
          (ok, s) \<leftarrow> translate_loop K p t G b tr extra_size [0..<unat (tr_offsets_size tr div 8)] 0 s;
          if \<not> ok then txn_out t G None None (Some b) (g_in_reply_to G) s
          else
            (case binder_alloc_mem K (Sizeof ''binder_transaction'') s of (x, s) \<Rightarrow>
               let s = (case x of None \<Rightarrow> s | Some x \<Rightarrow> s\<lparr>txns := (txns s)(x \<mapsto> new_transaction)\<rparr>) in
               (case binder_alloc_mem K (Sizeof ''binder_work'') s of (c, s) \<Rightarrow>
                  let s = (case c of None \<Rightarrow> s | Some c \<Rightarrow> s\<lparr>completes := (completes s)(c \<mapsto> new_work)\<rparr>) in
                  (case (x, c) of
                     (Some x, Some c) \<Rightarrow> do {
                       s \<leftarrow> txn_fill K p t G tr reply b x c s;
                       s \<leftarrow> txn_enqueue t G reply x c s;
                       txn_out t G None None None (if reply then None else g_in_reply_to G) s }
                   | _ \<Rightarrow> do {
                       s \<leftarrow> binder_txn_error t BR_FAILED_REPLY s;
                       txn_out t G x c (Some b) (g_in_reply_to G) s }))) }
      | _ \<Rightarrow> txn_out t G None None buffer (g_in_reply_to G) s) }"

definition binder_transaction ::
    "kpi \<Rightarrow> addr \<Rightarrow> addr \<Rightarrow> binder_transaction_data \<Rightarrow> u64 \<Rightarrow> bool \<Rightarrow> bool \<Rightarrow> binder_state \<Rightarrow>
     binder_state option" where
  "binder_transaction K p t tr buffers_size reply is_sg s = do {
     let extra_size = (if is_sg then buffers_size else 0);
     (G, s) \<leftarrow> (if reply then reply_target t s
               else call_target p t (tr_handle tr) (tr_flags tr AND TF_ONE_WAY \<noteq> 0) s);
     (case G of
        None \<Rightarrow> Some s
      | Some G \<Rightarrow> txn_send K p t G tr extra_size reply s) }"

declare rd_u32_def [op_defs] rd_u64_def [op_defs] wr_bytes_def [op_defs] wr_u32_def [op_defs]
  wr_u64_def [op_defs] get_kdata_def [op_defs] put_kdata_def [op_defs]
  set_return_error_def [op_defs] binder_txn_error_def [op_defs] binder_object_size_def [op_defs]
  binder_object_at_def [op_defs] binder_translate_binder_def [op_defs]
  binder_translate_handle_def [op_defs] binder_translate_fd_def [op_defs]
  binder_translate_ptr_def [op_defs] release_object_def [op_defs]
  binder_transaction_buffer_release_def [op_defs] binder_target_thread_for_def [op_defs]
  reply_target_def [op_defs] call_node_def [op_defs] call_target_def [op_defs] txn_out_def [op_defs]
  txn_payload_def [op_defs] translate_object_def [op_defs] new_transaction_def [op_defs]
  txn_fill_def [op_defs] txn_enqueue_def [op_defs] txn_send_def [op_defs]
  binder_transaction_def [op_defs]

end
