(* ===== verification/Binder_Proc.thy ===== *)
theory Binder_Proc
  imports Binder_Txn
begin

text \<open>
  Threads and processes (\<^verbatim>\<open>kext/binder_proc.c\<close>, "Threads" and "Processes"): the
  calling thread's state, created on first use, and the teardown of a thread
  and of a process.
\<close>

section \<open>Threads\<close>

primrec thread_find_loop :: "u64 \<Rightarrow> addr list \<Rightarrow> binder_state \<Rightarrow> addr option option" where
  "thread_find_loop tid [] s = Some None"
| "thread_find_loop tid (t # ts) s = do {
     T \<leftarrow> threads s t;
     if t_tid T = tid then Some (Some t) else thread_find_loop tid ts s }"

definition binder_thread_lookup :: "addr \<Rightarrow> u64 \<Rightarrow> binder_state \<Rightarrow> addr option option" where
  "binder_thread_lookup p tid s = do { P \<leftarrow> procs s p; thread_find_loop tid (p_threads P) s }"

definition binder_thread_get :: "kpi \<Rightarrow> addr \<Rightarrow> binder_state \<Rightarrow> (addr option \<times> binder_state) option" where
  "binder_thread_get K p s = do {
     found \<leftarrow> binder_thread_lookup p (thread_tid K) s;
     (case found of
        Some t \<Rightarrow> Some (Some t, s)
      | None \<Rightarrow>
          (case binder_alloc_mem K (Sizeof ''binder_thread'') s of
             (None, s) \<Rightarrow> Some (None, s)
           | (Some t, s) \<Rightarrow>
               (case binder_next_debug_id s of (dbg, s) \<Rightarrow> do {
                  let T = new_thread\<lparr>t_proc := Some p, t_tid := thread_tid K, t_debug_id := dbg,
                    t_return_error := new_error\<lparr>e_cmd := BR_OK\<rparr>,
                    t_reply_error := new_error\<lparr>e_cmd := BR_OK\<rparr>\<rparr>;
                  s \<leftarrow> upd_proc p (p_threads_update (\<lambda>ts. t # ts)) (s\<lparr>threads := (threads s)(t \<mapsto> T)\<rparr>);
                  Some (Some t, s\<lparr>stat_threads := stat_threads s + 1\<rparr>) }))) }"

text \<open>Telling the sender of a transaction that there will be no reply.\<close>

definition fail_sender :: "addr option \<Rightarrow> u32 \<Rightarrow> binder_state \<Rightarrow> binder_state option" where
  "fail_sender from br s = (case from of
       None \<Rightarrow> Some s
     | Some f \<Rightarrow> do {
         F \<leftarrow> threads s f;
         if \<not> t_is_dead F then do {
           s \<leftarrow> set_return_error f br s;
           binder_wakeup_thread f s }
         else Some s })"

definition drop_buffer :: "addr \<Rightarrow> (addr \<times> addr) option \<Rightarrow> binder_state \<Rightarrow> binder_state option" where
  "drop_buffer p buffer s = (case buffer of
       None \<Rightarrow> Some s
     | Some (_, b) \<Rightarrow> do {
         s \<leftarrow> binder_transaction_buffer_release p (Some b) s;
         binder_buffer_free p b s })"

text \<open>The walk over the transaction stack of a thread that goes away. \<open>None\<close> also
  stands for a walk that does not end.\<close>

partial_function (option) release_stack ::
    "addr \<Rightarrow> addr \<Rightarrow> addr option \<Rightarrow> binder_state \<Rightarrow> binder_state option" where
  "release_stack p t tx s = (case tx of
       None \<Rightarrow> Some s
     | Some x \<Rightarrow> do {
         X \<leftarrow> txns s x;
         if x_from X = Some t then do {
           s \<leftarrow> upd_txn x (x_from_update (\<lambda>_. None)) s;
           release_stack p t (x_from_parent X) s }
         else if x_to_thread X = Some t then do {
           s \<leftarrow> upd_txn x (x_to_thread_update (\<lambda>_. None)) s;
           s \<leftarrow> drop_buffer p (x_buffer X) s;
           s \<leftarrow> upd_txn x (x_buffer_update (\<lambda>_. None)) s;
           s \<leftarrow> fail_sender (x_from X) BR_DEAD_REPLY s;
           release_stack p t (x_to_parent X) s }
         else Some s })"

declare release_stack.simps [code]

primrec release_thread_todo :: "addr \<Rightarrow> work_ptr list \<Rightarrow> binder_state \<Rightarrow> binder_state option" where
  "release_thread_todo p [] s = Some s"
| "release_thread_todo p (w # ws) s = do {
     s \<leftarrow> binder_dequeue_work w s;
     W \<leftarrow> get_work w s;
     s \<leftarrow> (if w_type W = BINDER_WORK_TRANSACTION then
             (case w of
                TxnWork x \<Rightarrow> do {
                  P \<leftarrow> procs s p;
                  if \<not> p_is_dead P then binder_enqueue_work p w s
                  else do {
                    X \<leftarrow> txns s x;
                    s \<leftarrow> drop_buffer p (x_buffer X) s;
                    binder_free_transaction (Some x) s } }
              | _ \<Rightarrow> None)
           else if w_type W = BINDER_WORK_TRANSACTION_COMPLETE then
             (case w of CompleteWork c \<Rightarrow> Some (s\<lparr>completes := (completes s)(c := None)\<rparr>) | _ \<Rightarrow> None)
           else Some s);
     release_thread_todo p ws s }"

definition binder_thread_release ::
    "addr \<Rightarrow> addr \<Rightarrow> binder_state \<Rightarrow> (errno \<times> binder_state) option" where
  "binder_thread_release p t s = do {
     s \<leftarrow> upd_thread t (t_is_dead_update (\<lambda>_. True)) s;
     T \<leftarrow> threads s t;
     s \<leftarrow> release_stack p t (t_transaction_stack T) s;
     s \<leftarrow> upd_thread t (t_transaction_stack_update (\<lambda>_. None)) s;
     T \<leftarrow> threads s t;
     s \<leftarrow> release_thread_todo p (t_todo T) s;
     s \<leftarrow> (case t_proc T of
             None \<Rightarrow> Some s
           | Some p' \<Rightarrow> upd_proc p' (p_threads_update (remove1 t)) s);
     Some (OK, s\<lparr>threads := (threads s)(t := None), stat_threads := stat_threads s - 1\<rparr>) }"

section \<open>Processes\<close>

text \<open>A process fresh from \<open>binder_alloc_mem\<close>: zeroed.\<close>

definition new_proc :: binder_proc where
  "new_proc = \<lparr>p_pid = 0, p_context = None, p_threads = [], p_nodes = [], p_refs = [],
     p_todo = [], p_max_threads = 0, p_requested_threads = 0, p_requested_threads_started = 0,
     p_ready_threads = 0, p_is_dead = False, p_arena_addr = 0, p_arena_size = 0,
     p_buffers = [], p_free_async_space = 0, p_sel_recorded = False,
     p_oneway_spam_detection = False, p_last_error = \<lparr>ee_id = 0, ee_command = 0, ee_param = 0\<rparr>\<rparr>"

definition binder_proc_new :: "kpi \<Rightarrow> nat \<Rightarrow> binder_state \<Rightarrow> addr option \<times> binder_state" where
  "binder_proc_new K c s =
     (case binder_alloc_mem K (Sizeof ''binder_proc'') s of
        (None, s) \<Rightarrow> (None, s)
      | (Some p, s) \<Rightarrow>
          let P = new_proc\<lparr>p_pid := proc_selfpid K, p_context := Some c, p_max_threads := 15\<rparr>;
              s = upd_context c (c_procs_update (\<lambda>ps. p # ps)) (s\<lparr>procs := (procs s)(p \<mapsto> P)\<rparr>)
          in (Some p, s\<lparr>stat_procs := stat_procs s + 1\<rparr>))"

text \<open>Giving up the context manager role.\<close>

definition release_mgr :: "addr \<Rightarrow> binder_state \<Rightarrow> binder_state option" where
  "release_mgr p s = do {
     P \<leftarrow> procs s p;
     (case p_context P of
        None \<Rightarrow> Some s
      | Some c \<Rightarrow>
          (case c_mgr_node (contexts s c) of
             None \<Rightarrow> Some s
           | Some m \<Rightarrow> do {
               N \<leftarrow> nodes s m;
               if n_proc N = Some p
               then upd_node m (\<lambda>N. N\<lparr>n_local_strong_refs := 0, n_local_weak_refs := 0,
                      n_has_strong_ref := False, n_has_weak_ref := False\<rparr>)
                    (upd_context c (c_mgr_node_update (\<lambda>_. None)) s)
               else Some s })) }"

primrec release_nodes :: "addr \<Rightarrow> addr list \<Rightarrow> binder_state \<Rightarrow> binder_state option" where
  "release_nodes p [] s = Some s"
| "release_nodes p (n # ns) s = do {
     s \<leftarrow> upd_proc p (p_nodes_update (remove1 n)) s;
     s \<leftarrow> binder_node_died n s;
     s \<leftarrow> binder_node_release n s;
     release_nodes p ns s }"

primrec release_refs :: "addr list \<Rightarrow> binder_state \<Rightarrow> binder_state option" where
  "release_refs [] s = Some s"
| "release_refs (r # rs) s = do {
     s \<leftarrow> binder_ref_delete r s;
     release_refs rs s }"

primrec release_proc_todo :: "addr \<Rightarrow> work_ptr list \<Rightarrow> binder_state \<Rightarrow> binder_state option" where
  "release_proc_todo p [] s = Some s"
| "release_proc_todo p (w # ws) s = do {
     s \<leftarrow> binder_dequeue_work w s;
     W \<leftarrow> get_work w s;
     s \<leftarrow> (if w_type W = BINDER_WORK_TRANSACTION then
             (case w of
                TxnWork x \<Rightarrow> do {
                  X \<leftarrow> txns s x;
                  s \<leftarrow> fail_sender (x_from X) BR_DEAD_REPLY s;
                  s \<leftarrow> drop_buffer p (x_buffer X) s;
                  binder_free_transaction (Some x) s }
              | _ \<Rightarrow> None)
           else if w_type W = BINDER_WORK_TRANSACTION_COMPLETE then
             (case w of CompleteWork c \<Rightarrow> Some (s\<lparr>completes := (completes s)(c := None)\<rparr>) | _ \<Rightarrow> None)
           else Some s);
     release_proc_todo p ws s }"

primrec release_threads :: "addr \<Rightarrow> addr list \<Rightarrow> binder_state \<Rightarrow> binder_state option" where
  "release_threads p [] s = Some s"
| "release_threads p (t # ts) s = do {
     s \<leftarrow> binder_wakeup_thread t s;
     (_, s) \<leftarrow> binder_thread_release p t s;
     release_threads p ts s }"

definition binder_proc_release :: "addr \<Rightarrow> binder_state \<Rightarrow> binder_state option" where
  "binder_proc_release p s = do {
     s \<leftarrow> upd_proc p (p_is_dead_update (\<lambda>_. True)) s;
     s \<leftarrow> release_mgr p s;
     P \<leftarrow> procs s p;
     s \<leftarrow> release_nodes p (p_nodes P) s;
     P \<leftarrow> procs s p;
     s \<leftarrow> release_refs (p_refs P) s;
     P \<leftarrow> procs s p;
     s \<leftarrow> release_proc_todo p (p_todo P) s;
     P \<leftarrow> procs s p;
     s \<leftarrow> release_threads p (p_threads P) s;
     s \<leftarrow> binder_arena_teardown p s;
     P \<leftarrow> procs s p;
     s \<leftarrow> (if p_sel_recorded P
           then upd_proc p (p_sel_recorded_update (\<lambda>_. False)) (emit (SelThreadClear p) s)
           else Some s);
     let s = (case p_context P of
         None \<Rightarrow> s
       | Some c \<Rightarrow> upd_context c (c_procs_update (remove1 p)) s);
     Some (s\<lparr>procs := (procs s)(p := None), stat_procs := stat_procs s - 1\<rparr>) }"

declare new_error_def [op_defs] new_thread_def [op_defs] binder_thread_lookup_def [op_defs]
  binder_thread_get_def [op_defs] fail_sender_def [op_defs] drop_buffer_def [op_defs]
  binder_thread_release_def [op_defs] new_proc_def [op_defs] binder_proc_new_def [op_defs] release_mgr_def [op_defs]
  binder_proc_release_def [op_defs]

end
