(* ===== verification/Binder_RW.thy ===== *)
theory Binder_RW
  imports Binder_Proc
begin

text \<open>
  \<open>BINDER_WRITE_READ\<close> (\<^verbatim>\<open>kext/binder_proc.c\<close>, from "Read-Buffer Helpers"): the loop that
  consumes the client's \<open>BC_\<close> commands and the loop that produces \<open>BR_\<close> commands.

  The write loop runs as long as the client's memory can be read, so it is a
  partial function. The read loop may go to sleep: it then returns
  \<open>Read_Blocked\<close> with the channel it sleeps on, and \<open>binder_read_wakeup\<close> is the
  continuation after \<open>binder_wait\<close> returns. Between the two the driver lock is free
  and other operations change the state.
\<close>

section \<open>Read-buffer helpers\<close>

definition binder_put_cmd ::
    "kpi \<Rightarrow> u64 \<Rightarrow> u64 \<Rightarrow> u64 \<Rightarrow> u32 \<Rightarrow> binder_state \<Rightarrow> errno \<times> u64 \<times> binder_state" where
  "binder_put_cmd K buffer sz consumed cmd s =
     (if sz - consumed < 4 then (ENOMEM, consumed, s)
      else (case binder_copyout K (buffer + consumed) (word_le 4 cmd) s of
          (False, s) \<Rightarrow> (EFAULT, consumed, s)
        | (True, s) \<Rightarrow> (OK, consumed + 4, s)))"

definition binder_put_cmd_data ::
    "kpi \<Rightarrow> u64 \<Rightarrow> u64 \<Rightarrow> u64 \<Rightarrow> u32 \<Rightarrow> byte list \<Rightarrow> binder_state \<Rightarrow> errno \<times> u64 \<times> binder_state" where
  "binder_put_cmd_data K buffer sz consumed cmd data s =
     (let len = of_nat (length data) in
      if sz - consumed < 4 + len then (ENOMEM, consumed, s)
      else (case binder_copyout K (buffer + consumed) (word_le 4 cmd) s of
          (False, s) \<Rightarrow> (EFAULT, consumed, s)
        | (True, s) \<Rightarrow>
            (case binder_copyout K (buffer + consumed + 4) data s of
               (False, s) \<Rightarrow> (EFAULT, consumed, s)
             | (True, s) \<Rightarrow> (OK, consumed + (4 + len), s))))"

section \<open>The write loop\<close>

definition binder_get_user ::
    "kpi \<Rightarrow> u64 \<Rightarrow> u64 \<Rightarrow> u64 \<Rightarrow> binder_state \<Rightarrow> byte list option \<times> u64 \<times> binder_state" where
  "binder_get_user K buffer consumed len s =
     (case binder_copyin K (buffer + consumed) len s of
        (None, s) \<Rightarrow> (None, consumed, s)
      | (Some bs, s) \<Rightarrow> (Some bs, consumed + len, s))"

definition binder_write_ref_cmd ::
    "kpi \<Rightarrow> addr \<Rightarrow> addr \<Rightarrow> u32 \<Rightarrow> u32 \<Rightarrow> binder_state \<Rightarrow> (errno \<times> binder_state) option" where
  "binder_write_ref_cmd K p t cmd desc s = do {
     let strong = (cmd = BC_ACQUIRE \<or> cmd = BC_RELEASE);
     let increment = (cmd = BC_INCREFS \<or> cmd = BC_ACQUIRE);
     found \<leftarrow> binder_ref_find_by_desc p desc s;
     (case found of
        Some r \<Rightarrow> binder_ref_update r strong increment (Some t) s
      | None \<Rightarrow> do {
          P \<leftarrow> procs s p;
          (case (case p_context P of None \<Rightarrow> None | Some c \<Rightarrow> c_mgr_node (contexts s c)) of
             None \<Rightarrow> Some (EINVAL, s)
           | Some n \<Rightarrow>
               if \<not> increment \<or> desc \<noteq> 0 then Some (EINVAL, s)
               else do {
                 (ref, s) \<leftarrow> binder_ref_get_for_node K p n s;
                 (case ref of
                    None \<Rightarrow> Some (ENOMEM, s)
                  | Some r \<Rightarrow> binder_ref_update r strong increment (Some t) s) }) }) }"

text \<open>Letting the next asynchronous transaction for a node through.\<close>

definition async_next :: "addr \<Rightarrow> addr option \<Rightarrow> binder_state \<Rightarrow> binder_state option" where
  "async_next p node s = (case node of
       None \<Rightarrow> Some s
     | Some n \<Rightarrow> do {
         N \<leftarrow> nodes s n;
         if n_has_async_transaction N then
           (case n_async_todo N of
              w # _ \<Rightarrow> do {
                s \<leftarrow> binder_dequeue_work w s;
                s \<leftarrow> binder_enqueue_work p w s;
                binder_wakeup_proc p s }
            | [] \<Rightarrow> upd_node n (n_has_async_transaction_update (\<lambda>_. False)) s)
         else Some s })"

definition binder_write_free_buffer ::
    "addr \<Rightarrow> u64 \<Rightarrow> binder_state \<Rightarrow> (errno \<times> binder_state) option" where
  "binder_write_free_buffer p data_ptr s = do {
     found \<leftarrow> binder_buffer_lookup p data_ptr s;
     (case found of
        None \<Rightarrow> Some (EINVAL, s)
      | Some b \<Rightarrow> do {
          B \<leftarrow> get_buffer p b s;
          if \<not> b_allow_user_free B then Some (EINVAL, s)
          else do {
            let node = b_target_node B;
            s \<leftarrow> binder_transaction_buffer_release p (Some b) s;
            B \<leftarrow> get_buffer p b s;
            s \<leftarrow> (case b_transaction B of
                    None \<Rightarrow> Some s
                  | Some x \<Rightarrow> do {
                      s \<leftarrow> upd_txn x (x_buffer_update (\<lambda>_. None)) s;
                      upd_buffer p b (b_transaction_update (\<lambda>_. None)) s });
            s \<leftarrow> binder_buffer_free p b s;
            s \<leftarrow> async_next p node s;
            Some (OK, s) } }) }"

text \<open>\<open>BC_INCREFS_DONE\<close> and \<open>BC_ACQUIRE_DONE\<close>.\<close>

definition write_ref_done :: "addr \<Rightarrow> u32 \<Rightarrow> u64 \<Rightarrow> binder_state \<Rightarrow> (errno \<times> binder_state) option" where
  "write_ref_done p cmd ptr s = do {
     found \<leftarrow> binder_node_find p ptr s;
     (case found of
        None \<Rightarrow> Some (EINVAL, s)
      | Some n \<Rightarrow> do {
          s \<leftarrow> (if cmd = BC_ACQUIRE_DONE
                then upd_node n (n_pending_strong_ref_update (\<lambda>_. False)) s
                else upd_node n (n_pending_weak_ref_update (\<lambda>_. False)) s);
          Some (OK, s) }) }"

text \<open>\<open>BC_REGISTER_LOOPER\<close>, \<open>BC_ENTER_LOOPER\<close> and \<open>BC_EXIT_LOOPER\<close>.\<close>

definition write_looper :: "addr \<Rightarrow> addr \<Rightarrow> u32 \<Rightarrow> binder_state \<Rightarrow> binder_state option" where
  "write_looper p t cmd s =
     (if cmd = BC_REGISTER_LOOPER then do {
        P \<leftarrow> procs s p;
        s \<leftarrow> (if 0 < p_requested_threads P then do {
                i \<leftarrow> int_dec (p_requested_threads P);
                j \<leftarrow> int_inc (p_requested_threads_started P);
                upd_proc p (\<lambda>P. P\<lparr>p_requested_threads := i, p_requested_threads_started := j\<rparr>) s }
              else Some s);
        upd_thread t (t_looper_update (\<lambda>l. l OR BINDER_LOOPER_STATE_REGISTERED)) s }
      else if cmd = BC_ENTER_LOOPER then
        upd_thread t (t_looper_update (\<lambda>l.
          (if l AND BINDER_LOOPER_STATE_REGISTERED \<noteq> 0 then l OR BINDER_LOOPER_STATE_INVALID else l)
            OR BINDER_LOOPER_STATE_ENTERED)) s
      else upd_thread t (t_looper_update (\<lambda>l. l OR BINDER_LOOPER_STATE_EXITED)) s)"

definition is_looper_cmd :: "u32 \<Rightarrow> bool" where
  "is_looper_cmd cmd \<longleftrightarrow> cmd = BC_REGISTER_LOOPER \<or> cmd = BC_ENTER_LOOPER \<or> cmd = BC_EXIT_LOOPER"

text \<open>The bytes that follow a command, and \<open>None\<close> for one that is refused: the commands
  withdrawn from the protocol and the unknown ones.\<close>

definition write_cmd_len :: "u32 \<Rightarrow> u64 option" where
  "write_cmd_len cmd =
     (if cmd = BC_INCREFS \<or> cmd = BC_ACQUIRE \<or> cmd = BC_RELEASE \<or> cmd = BC_DECREFS then Some 4
      else if cmd = BC_INCREFS_DONE \<or> cmd = BC_ACQUIRE_DONE then
        Some (of_nat (struct_size binder_ptr_cookie_layout))
      else if cmd = BC_FREE_BUFFER then Some 8
      else if cmd = BC_TRANSACTION \<or> cmd = BC_REPLY then
        Some (of_nat (struct_size binder_transaction_data_layout))
      else if cmd = BC_TRANSACTION_SG \<or> cmd = BC_REPLY_SG then
        Some (of_nat (struct_size binder_transaction_data_sg_layout))
      else if is_looper_cmd cmd then Some 0
      else if cmd = BC_REQUEST_DEATH_NOTIFICATION \<or> cmd = BC_CLEAR_DEATH_NOTIFICATION then
        Some (of_nat (packed_size binder_handle_cookie_layout))
      else if cmd = BC_DEAD_BINDER_DONE then Some 8
      else None)"

text \<open>What a command does with its argument bytes.\<close>

definition write_cmd_run ::
    "kpi \<Rightarrow> addr \<Rightarrow> addr \<Rightarrow> u32 \<Rightarrow> byte list \<Rightarrow> binder_state \<Rightarrow> (errno \<times> binder_state) option" where
  "write_cmd_run K p t cmd arg s =
     (if cmd = BC_INCREFS \<or> cmd = BC_ACQUIRE \<or> cmd = BC_RELEASE \<or> cmd = BC_DECREFS then
        binder_write_ref_cmd K p t cmd (get_u32 0 arg) s
      else if cmd = BC_INCREFS_DONE \<or> cmd = BC_ACQUIRE_DONE then
        write_ref_done p cmd (get_u64 0 arg) s
      else if cmd = BC_FREE_BUFFER then binder_write_free_buffer p (get_u64 0 arg) s
      else if cmd = BC_TRANSACTION \<or> cmd = BC_REPLY then do {
        s \<leftarrow> binder_transaction K p t (transaction_data_of arg) 0 (cmd = BC_REPLY) False s;
        Some (OK, s) }
      else if cmd = BC_TRANSACTION_SG \<or> cmd = BC_REPLY_SG then do {
        s \<leftarrow> binder_transaction K p t (transaction_data_of arg) (get_u64 64 arg)
          (cmd = BC_REPLY_SG) True s;
        Some (OK, s) }
      else if is_looper_cmd cmd then do { s \<leftarrow> write_looper p t cmd s; Some (OK, s) }
      else if cmd = BC_REQUEST_DEATH_NOTIFICATION then
        binder_death_request K p t (get_u32 0 arg) (get_u64 4 arg) s
      else if cmd = BC_CLEAR_DEATH_NOTIFICATION then
        binder_death_clear p t (get_u32 0 arg) (get_u64 4 arg) s
      else Some (OK, s))"

text \<open>One round of the loop: the command word, its argument, its effect.\<close>

definition write_cmd ::
    "kpi \<Rightarrow> addr \<Rightarrow> addr \<Rightarrow> u64 \<Rightarrow> u64 \<Rightarrow> binder_state \<Rightarrow> (errno \<times> u64 \<times> binder_state) option" where
  "write_cmd K p t buffer consumed s =
     (case binder_get_user K buffer consumed 4 s of
        (None, consumed, s) \<Rightarrow> Some (EFAULT, consumed, s)
      | (Some bs, consumed, s) \<Rightarrow>
          let cmd = get_u32 0 bs in
          (case write_cmd_len cmd of
             None \<Rightarrow> Some (EINVAL, consumed, s)
           | Some len \<Rightarrow>
               if len = 0 then do {
                 (e, s) \<leftarrow> write_cmd_run K p t cmd [] s;
                 Some (e, consumed, s) }
               else
                 (case binder_get_user K buffer consumed len s of
                    (None, consumed, s) \<Rightarrow> Some (EFAULT, consumed, s)
                  | (Some arg, consumed, s) \<Rightarrow> do {
                      (e, s) \<leftarrow> write_cmd_run K p t cmd arg s;
                      Some (e, consumed, s) })))"

partial_function (option) binder_thread_write ::
    "kpi \<Rightarrow> addr \<Rightarrow> addr \<Rightarrow> u64 \<Rightarrow> u64 \<Rightarrow> u64 \<Rightarrow> binder_state \<Rightarrow> (errno \<times> u64 \<times> binder_state) option"
where
  "binder_thread_write K p t buffer sz consumed s =
     (if consumed + 4 \<le> sz then do {
        r \<leftarrow> write_cmd K p t buffer consumed s;
        (if fst r \<noteq> OK then Some r
         else binder_thread_write K p t buffer sz (fst (snd r)) (snd (snd r))) }
      else Some (OK, consumed, s))"

declare binder_thread_write.simps [code]

section \<open>Delivering one item\<close>

text \<open>The reference commands a node's owner is owed, in the order they are emitted.\<close>

definition node_news :: "binder_node \<Rightarrow> u32 list" where
  "node_news N =
     (let strong = binder_node_has_strong N; weak = binder_node_has_weak N in
      (if weak \<and> \<not> n_has_weak_ref N then [BR_INCREFS] else []) @
      (if strong \<and> \<not> n_has_strong_ref N then [BR_ACQUIRE] else []) @
      (if \<not> strong \<and> n_has_strong_ref N then [BR_RELEASE] else []) @
      (if \<not> weak \<and> n_has_weak_ref N then [BR_DECREFS] else []))"

text \<open>What the driver records with each of them.\<close>

definition record_news :: "u32 \<Rightarrow> binder_node \<Rightarrow> binder_node" where
  "record_news cmd N =
     (if cmd = BR_INCREFS then N\<lparr>n_has_weak_ref := True, n_pending_weak_ref := True\<rparr>
      else if cmd = BR_ACQUIRE then N\<lparr>n_has_strong_ref := True, n_pending_strong_ref := True\<rparr>
      else if cmd = BR_RELEASE then N\<lparr>n_has_strong_ref := False\<rparr>
      else N\<lparr>n_has_weak_ref := False\<rparr>)"

primrec emit_news ::
    "kpi \<Rightarrow> addr \<Rightarrow> u64 \<Rightarrow> u64 \<Rightarrow> byte list \<Rightarrow> u32 list \<Rightarrow> u64 \<Rightarrow> binder_state \<Rightarrow>
     (errno \<times> u64 \<times> binder_state) option" where
  "emit_news K n buffer sz pc [] consumed s = Some (OK, consumed, s)"
| "emit_news K n buffer sz pc (cmd # cmds) consumed s = do {
     s \<leftarrow> upd_node n (record_news cmd) s;
     (case binder_put_cmd_data K buffer sz consumed cmd pc s of (e, consumed, s) \<Rightarrow>
        if e \<noteq> OK then Some (e, consumed, s)
        else do {
          s \<leftarrow> (if cmd = BR_DECREFS then binder_node_release n s else Some s);
          emit_news K n buffer sz pc cmds consumed s }) }"

definition binder_read_node_work ::
    "kpi \<Rightarrow> addr \<Rightarrow> u64 \<Rightarrow> u64 \<Rightarrow> u64 \<Rightarrow> binder_state \<Rightarrow> (errno \<times> u64 \<times> binder_state) option" where
  "binder_read_node_work K n buffer sz consumed s = do {
     N \<leftarrow> nodes s n;
     let pc = ptr_cookie_bytes (n_ptr N) (n_cookie N);
     let news = node_news N;
     if news = [] then Some (OK, consumed, s)
     else if sz - consumed < of_nat (length news) * (4 + of_nat (length pc))
     then Some (ENOMEM, consumed, s)
     else emit_news K n buffer sz pc news consumed s }"

text \<open>The security context every receiver is told, with its terminating zero.\<close>

definition secctx_str :: "byte list" where
  "secctx_str = map (\<lambda>c. of_nat (of_char c)) ''u:r:untrusted_app:s0'' @ [0]"

text \<open>The form a delivery takes, and the data that describes it.\<close>

definition delivery_cmd :: "binder_node option \<Rightarrow> u32" where
  "delivery_cmd target = (case target of
       None \<Rightarrow> BR_REPLY
     | Some N \<Rightarrow> if n_flags N AND FLAT_BINDER_FLAG_TXN_SECURITY_CTX \<noteq> 0
         then BR_TRANSACTION_SEC_CTX else BR_TRANSACTION)"

definition delivery_data ::
    "binder_node option \<Rightarrow> binder_txn \<Rightarrow> binder_buffer \<Rightarrow> u64 \<Rightarrow> binder_transaction_data" where
  "delivery_data target X B uaddr =
     \<lparr>tr_target = (case target of None \<Rightarrow> 0 | Some N \<Rightarrow> n_ptr N),
      tr_cookie = (case target of None \<Rightarrow> 0 | Some N \<Rightarrow> n_cookie N),
      tr_code = x_code X, tr_flags = x_flags X, tr_sender_pid = x_sender_pid X,
      tr_sender_euid = x_sender_euid X, tr_data_size = b_data_size B,
      tr_offsets_size = b_offsets_size B, tr_buffer = uaddr,
      tr_offsets = uaddr + BINDER_ALIGN (b_data_size B)\<rparr>"

text \<open>Writing the description into the read buffer.\<close>

definition put_delivery ::
    "kpi \<Rightarrow> u64 \<Rightarrow> u64 \<Rightarrow> u64 \<Rightarrow> u32 \<Rightarrow> binder_transaction_data \<Rightarrow> binder_state \<Rightarrow>
     errno \<times> u64 \<times> binder_state" where
  "put_delivery K buffer sz consumed cmd tr s =
     (if cmd = BR_TRANSACTION_SEC_CTX then
        let secctx = buffer + consumed + 4 + of_nat (struct_size binder_transaction_data_secctx_layout) in
        (case binder_put_cmd_data K buffer sz consumed cmd
                (transaction_data_bytes tr @ word_le 8 secctx) s of (e, consumed, s) \<Rightarrow>
           if e \<noteq> OK then (e, consumed, s)
           else if sz - consumed < of_nat (length secctx_str) then (ENOMEM, consumed, s)
           else (case binder_copyout K (buffer + consumed) secctx_str s of
               (False, s) \<Rightarrow> (EFAULT, consumed, s)
             | (True, s) \<Rightarrow> (OK, consumed + of_nat (length secctx_str), s)))
      else binder_put_cmd_data K buffer sz consumed cmd (transaction_data_bytes tr) s)"

definition binder_read_transaction ::
    "kpi \<Rightarrow> addr \<Rightarrow> addr \<Rightarrow> addr \<Rightarrow> u64 \<Rightarrow> u64 \<Rightarrow> u64 \<Rightarrow> binder_state \<Rightarrow>
     (errno \<times> u64 \<times> binder_state) option" where
  "binder_read_transaction K p t x buffer sz consumed s = do {
     X \<leftarrow> txns s x;
     (case x_buffer X of
        None \<Rightarrow> Some (EINVAL, consumed, s)
      | Some (_, b) \<Rightarrow> do {
          P \<leftarrow> procs s p;
          B \<leftarrow> get_buffer p b s;
          let uaddr = binder_buffer_uaddr P B;
          (case (case b_kdata B of
                   None \<Rightarrow> (True, s)
                 | Some kd \<Rightarrow> binder_copyout K uaddr (take (unat (b_kdata_size B)) kd) s) of
             (False, s) \<Rightarrow> do {
               s \<leftarrow> fail_sender (x_from X) BR_FAILED_REPLY s;
               s \<leftarrow> drop_buffer p (x_buffer X) s;
               s \<leftarrow> binder_free_transaction (Some x) s;
               Some (OK, consumed, s) }
           | (True, s) \<Rightarrow> do {
               target \<leftarrow> (case b_target_node B of
                   None \<Rightarrow> Some None
                 | Some n \<Rightarrow> do { N \<leftarrow> nodes s n; Some (Some N) });
               (case put_delivery K buffer sz consumed (delivery_cmd target)
                       (delivery_data target X B uaddr) s of (e, consumed, s) \<Rightarrow>
                  if e \<noteq> OK then Some (e, consumed, s)
                  else do {
                    s \<leftarrow> upd_buffer p b (b_allow_user_free_update (\<lambda>_. True)) s;
                    s \<leftarrow> (if target \<noteq> None \<and> x_need_reply X then do {
                            T \<leftarrow> threads s t;
                            s \<leftarrow> upd_txn x (\<lambda>X. X\<lparr>x_to_thread := Some t,
                              x_to_parent := t_transaction_stack T\<rparr>) s;
                            upd_thread t (t_transaction_stack_update (\<lambda>_. Some x)) s }
                          else binder_free_transaction (Some x) s);
                    Some (OK, consumed, s) }) }) }) }"

text \<open>The error item of a thread. \<open>reply_error\<close> is never queued by the code; it has the
  same container.\<close>

definition read_error ::
    "kpi \<Rightarrow> work_ptr \<Rightarrow> u64 \<Rightarrow> u64 \<Rightarrow> u64 \<Rightarrow> binder_state \<Rightarrow> (errno \<times> u64 \<times> binder_state) option" where
  "read_error K w buffer sz consumed s =
     (case w of
        ReturnErrorWork t \<Rightarrow> do {
          T \<leftarrow> threads s t;
          (case binder_put_cmd K buffer sz consumed (e_cmd (t_return_error T)) s of (e, consumed, s) \<Rightarrow>
             do { s \<leftarrow> (if e = OK then upd_thread t (t_return_error_update (e_cmd_update (\<lambda>_. BR_OK))) s
                        else Some s);
                  Some (e, consumed, s) }) }
      | ReplyErrorWork t \<Rightarrow> do {
          T \<leftarrow> threads s t;
          (case binder_put_cmd K buffer sz consumed (e_cmd (t_reply_error T)) s of (e, consumed, s) \<Rightarrow>
             do { s \<leftarrow> (if e = OK then upd_thread t (t_reply_error_update (e_cmd_update (\<lambda>_. BR_OK))) s
                        else Some s);
                  Some (e, consumed, s) }) }
      | _ \<Rightarrow> None)"

definition read_death ::
    "kpi \<Rightarrow> addr \<Rightarrow> addr \<Rightarrow> u64 \<Rightarrow> u64 \<Rightarrow> u64 \<Rightarrow> binder_state \<Rightarrow> (errno \<times> u64 \<times> binder_state) option" where
  "read_death K t d buffer sz consumed s = do {
     D \<leftarrow> deaths s d;
     let type = w_type (d_work D);
     let cmd = (if type = BINDER_WORK_CLEAR_DEATH_NOTIFICATION
                then BR_CLEAR_DEATH_NOTIFICATION_DONE else BR_DEAD_BINDER);
     (case binder_put_cmd_data K buffer sz consumed cmd (word_le 8 (d_cookie D)) s of (e, consumed, s) \<Rightarrow>
        do {
          s \<leftarrow> (if e \<noteq> OK then Some s
                else if type = BINDER_WORK_DEAD_BINDER_AND_CLEAR then do {
                  s \<leftarrow> upd_death d (d_work_update
                    (w_type_update (\<lambda>_. BINDER_WORK_CLEAR_DEATH_NOTIFICATION))) s;
                  binder_enqueue_thread_work t (DeathWork d) s }
                else if type = BINDER_WORK_CLEAR_DEATH_NOTIFICATION
                then Some (s\<lparr>deaths := (deaths s)(d := None)\<rparr>)
                else Some s);
          Some (e, consumed, s) }) }"

definition read_item ::
    "kpi \<Rightarrow> addr \<Rightarrow> addr \<Rightarrow> work_ptr \<Rightarrow> u64 \<Rightarrow> u64 \<Rightarrow> u64 \<Rightarrow> binder_state \<Rightarrow>
     (errno \<times> u64 \<times> binder_state) option" where
  "read_item K p t w buffer sz consumed s = do {
     W \<leftarrow> get_work w s;
     (case w_type W of
        BINDER_WORK_TRANSACTION \<Rightarrow>
          (case w of TxnWork x \<Rightarrow> binder_read_transaction K p t x buffer sz consumed s | _ \<Rightarrow> None)
      | BINDER_WORK_TRANSACTION_COMPLETE \<Rightarrow>
          (case binder_put_cmd K buffer sz consumed BR_TRANSACTION_COMPLETE s of (e, consumed, s) \<Rightarrow>
             if e \<noteq> OK then Some (e, consumed, s)
             else (case w of
                 CompleteWork c \<Rightarrow> Some (OK, consumed, s\<lparr>completes := (completes s)(c := None)\<rparr>)
               | _ \<Rightarrow> None))
      | BINDER_WORK_RETURN_ERROR \<Rightarrow> read_error K w buffer sz consumed s
      | BINDER_WORK_NODE \<Rightarrow>
          (case w of NodeWork n \<Rightarrow> binder_read_node_work K n buffer sz consumed s | _ \<Rightarrow> None)
      | BINDER_WORK_NONE \<Rightarrow> Some (OK, consumed, s)
      | _ \<Rightarrow>
          (case w of DeathWork d \<Rightarrow> read_death K t d buffer sz consumed s | _ \<Rightarrow> None)) }"

section \<open>The read loop\<close>

text \<open>The first item of a queue the thread may take: a frozen thread takes no
  transaction.\<close>

primrec first_item :: "bool \<Rightarrow> work_ptr list \<Rightarrow> binder_state \<Rightarrow> work_ptr option option" where
  "first_item frozen [] s = Some None"
| "first_item frozen (w # ws) s = do {
     W \<leftarrow> get_work w s;
     if w_type W \<noteq> BINDER_WORK_TRANSACTION \<or> \<not> frozen then Some (Some w)
     else first_item frozen ws s }"

definition read_select ::
    "addr \<Rightarrow> addr \<Rightarrow> binder_state \<Rightarrow> ((work_ptr \<times> bool) option \<times> binder_state) option" where
  "read_select p t s = do {
     T \<leftarrow> threads s t;
     P \<leftarrow> procs s p;
     if t_todo T \<noteq> [] then do {
       found \<leftarrow> first_item (t_frozen T) (t_todo T) s;
       (case found of
          None \<Rightarrow> Some (None, s)
        | Some w \<Rightarrow> do { s \<leftarrow> binder_dequeue_work w s; Some (Some (w, False), s) }) }
     else if binder_thread_takes_proc_work T \<and> p_todo P \<noteq> [] then do {
       found \<leftarrow> first_item (t_frozen T) (p_todo P) s;
       (case found of
          None \<Rightarrow> Some (None, s)
        | Some w \<Rightarrow> do { s \<leftarrow> binder_dequeue_work w s; Some (Some (w, True), s) }) }
     else Some (None, s) }"

text \<open>How a read ends: with an error number, or asleep on a channel.\<close>

datatype read_outcome = Read_Done errno u64 | Read_Blocked channel u64

definition read_sleep ::
    "addr \<Rightarrow> addr \<Rightarrow> u64 \<Rightarrow> binder_state \<Rightarrow> (read_outcome \<times> binder_state) option" where
  "read_sleep p t consumed s = do {
     s \<leftarrow> upd_thread t (t_looper_update (\<lambda>l. l OR BINDER_LOOPER_STATE_WAITING)) s;
     T \<leftarrow> threads s t;
     if binder_thread_takes_proc_work T then do {
       P \<leftarrow> procs s p;
       i \<leftarrow> int_inc (p_ready_threads P);
       s \<leftarrow> upd_proc p (p_ready_threads_update (\<lambda>_. i)) s;
       Some (Read_Blocked (ChanProc p) consumed, s) }
     else Some (Read_Blocked (ChanThread t) consumed, s) }"

text \<open>Asking the client for another thread.\<close>

definition spawn_looper ::
    "kpi \<Rightarrow> addr \<Rightarrow> addr \<Rightarrow> bool \<Rightarrow> u64 \<Rightarrow> u64 \<Rightarrow> u64 \<Rightarrow> binder_state \<Rightarrow> (u64 \<times> binder_state) option" where
  "spawn_looper K p t from_proc buffer sz consumed s = do {
     P \<leftarrow> procs s p;
     T \<leftarrow> threads s t;
     if from_proc \<and> p_requested_threads P = 0 \<and> p_ready_threads P = 0 \<and>
        p_requested_threads_started P < p_max_threads P \<and>
        t_looper T AND (BINDER_LOOPER_STATE_REGISTERED OR BINDER_LOOPER_STATE_ENTERED) \<noteq> 0
     then do {
       i \<leftarrow> int_inc (p_requested_threads P);
       s \<leftarrow> upd_proc p (p_requested_threads_update (\<lambda>_. i)) s;
       (case binder_put_cmd K buffer sz consumed BR_SPAWN_LOOPER s of (_, consumed, s) \<Rightarrow>
          Some (consumed, s)) }
     else Some (consumed, s) }"

text \<open>One round of the loop: \<open>None\<close> to go round again, with at least one item written.\<close>

definition read_round ::
    "kpi \<Rightarrow> addr \<Rightarrow> addr \<Rightarrow> u64 \<Rightarrow> u64 \<Rightarrow> bool \<Rightarrow> bool \<Rightarrow> u64 \<Rightarrow> binder_state \<Rightarrow>
     (read_outcome option \<times> u64 \<times> binder_state) option" where
  "read_round K p t buffer sz non_block wrote consumed s = do {
     T \<leftarrow> threads s t;
     (sel, s) \<leftarrow> read_select p t s;
     (case sel of
        None \<Rightarrow>
          if t_frozen T then Some (Some (Read_Done OK consumed), consumed, s)
          else if wrote then Some (Some (Read_Done OK consumed), consumed, s)
          else if non_block then Some (Some (Read_Done EAGAIN consumed), consumed, s)
          else do { (out, s) \<leftarrow> read_sleep p t consumed s; Some (Some out, consumed, s) }
      | Some (w, from_proc) \<Rightarrow> do {
          (e, consumed, s) \<leftarrow> read_item K p t w buffer sz consumed s;
          if e = ENOMEM then do {
            s \<leftarrow> binder_queue_insert (if from_proc then ProcTodo p else ThreadTodo t) w True s;
            Some (Some (Read_Done OK consumed), consumed, s) }
          else if e \<noteq> OK then Some (Some (Read_Done e consumed), consumed, s)
          else do {
            (consumed, s) \<leftarrow> spawn_looper K p t from_proc buffer sz consumed s;
            Some (if sz - consumed < 4 + of_nat (struct_size binder_transaction_data_layout)
                  then Some (Read_Done OK consumed) else None, consumed, s) } }) }"

partial_function (option) read_loop ::
    "kpi \<Rightarrow> addr \<Rightarrow> addr \<Rightarrow> u64 \<Rightarrow> u64 \<Rightarrow> bool \<Rightarrow> bool \<Rightarrow> u64 \<Rightarrow> binder_state \<Rightarrow>
     (read_outcome \<times> binder_state) option" where
  "read_loop K p t buffer sz non_block wrote consumed s = do {
     r \<leftarrow> read_round K p t buffer sz non_block wrote consumed s;
     (case fst r of
        Some out \<Rightarrow> Some (out, snd (snd r))
      | None \<Rightarrow> read_loop K p t buffer sz non_block True (fst (snd r)) (snd (snd r))) }"

declare read_loop.simps [code]

definition binder_thread_read ::
    "kpi \<Rightarrow> addr \<Rightarrow> addr \<Rightarrow> u64 \<Rightarrow> u64 \<Rightarrow> u64 \<Rightarrow> bool \<Rightarrow> binder_state \<Rightarrow>
     (read_outcome \<times> binder_state) option" where
  "binder_thread_read K p t buffer sz consumed non_block s =
     (if consumed = 0 then
        (case binder_put_cmd K buffer sz consumed BR_NOOP s of (e, consumed, s) \<Rightarrow>
           if e \<noteq> OK then Some (Read_Done e consumed, s)
           else read_loop K p t buffer sz non_block False consumed s)
      else read_loop K p t buffer sz non_block False consumed s)"

text \<open>After \<open>binder_wait\<close> on a channel returned \<open>ret\<close>.\<close>

definition binder_read_wakeup ::
    "kpi \<Rightarrow> addr \<Rightarrow> addr \<Rightarrow> u64 \<Rightarrow> u64 \<Rightarrow> bool \<Rightarrow> channel \<Rightarrow> u64 \<Rightarrow> errno \<Rightarrow> binder_state \<Rightarrow>
     (read_outcome \<times> binder_state) option" where
  "binder_read_wakeup K p t buffer sz non_block chan consumed ret s = do {
     s \<leftarrow> (case chan of
             ChanProc _ \<Rightarrow> do {
               P \<leftarrow> procs s p;
               i \<leftarrow> int_dec (p_ready_threads P);
               upd_proc p (p_ready_threads_update (\<lambda>_. i)) s }
           | ChanThread _ \<Rightarrow> Some s);
     s \<leftarrow> upd_thread t (t_looper_update (\<lambda>l. l AND NOT BINDER_LOOPER_STATE_WAITING)) s;
     if ret \<noteq> OK then Some (Read_Done (if ret = ENOMEM then OK else ret) consumed, s)
     else do {
       P \<leftarrow> procs s p;
       T \<leftarrow> threads s t;
       if p_is_dead P \<or> t_is_dead T then Some (Read_Done ENODEV consumed, s)
       else read_loop K p t buffer sz non_block False consumed s } }"

section \<open>BINDER\_WRITE\_READ\<close>

record binder_write_read =
  write_size :: u64
  write_consumed :: u64
  write_buffer :: u64
  read_size :: u64
  read_consumed :: u64
  read_buffer :: u64

text \<open>How the ioctl ends: done, with the argument to copy back, or asleep in its read
  half.\<close>

datatype wr_outcome = WR_Done errno binder_write_read | WR_Blocked channel binder_write_read

definition write_read_finish ::
    "addr \<Rightarrow> binder_write_read \<Rightarrow> read_outcome \<times> binder_state \<Rightarrow> (wr_outcome \<times> binder_state) option" where
  "write_read_finish p bwr r = (case r of
       (Read_Blocked chan consumed, s) \<Rightarrow> Some (WR_Blocked chan (bwr\<lparr>read_consumed := consumed\<rparr>), s)
     | (Read_Done e consumed, s) \<Rightarrow> do {
         P \<leftarrow> procs s p;
         s \<leftarrow> (if p_todo P \<noteq> [] then binder_wakeup_proc p s else Some s);
         Some (WR_Done e (bwr\<lparr>read_consumed := consumed\<rparr>), s) })"

definition binder_ioctl_write_read ::
    "kpi \<Rightarrow> addr \<Rightarrow> addr \<Rightarrow> binder_write_read \<Rightarrow> binder_state \<Rightarrow> (wr_outcome \<times> binder_state) option" where
  "binder_ioctl_write_read K p t bwr s = do {
     (e, bwr, s) \<leftarrow>
       (if 0 < write_size bwr then do {
          (e, consumed, s) \<leftarrow> binder_thread_write K p t (write_buffer bwr) (write_size bwr)
            (write_consumed bwr) s;
          Some (e, bwr\<lparr>write_consumed := consumed\<rparr>, s) }
        else Some (OK, bwr, s));
     if e \<noteq> OK then Some (WR_Done e (bwr\<lparr>read_consumed := 0\<rparr>), s)
     else if 0 < read_size bwr then do {
       r \<leftarrow> binder_thread_read K p t (read_buffer bwr) (read_size bwr) (read_consumed bwr) False s;
       write_read_finish p bwr r }
     else Some (WR_Done OK bwr, s) }"

definition binder_write_read_wakeup ::
    "kpi \<Rightarrow> addr \<Rightarrow> addr \<Rightarrow> channel \<Rightarrow> binder_write_read \<Rightarrow> errno \<Rightarrow> binder_state \<Rightarrow>
     (wr_outcome \<times> binder_state) option" where
  "binder_write_read_wakeup K p t chan bwr ret s = do {
     r \<leftarrow> binder_read_wakeup K p t (read_buffer bwr) (read_size bwr) False chan (read_consumed bwr) ret s;
     write_read_finish p bwr r }"

declare binder_put_cmd_def [op_defs] binder_put_cmd_data_def [op_defs] binder_get_user_def [op_defs]
  binder_write_ref_cmd_def [op_defs] async_next_def [op_defs] binder_write_free_buffer_def [op_defs]
  write_ref_done_def [op_defs] write_looper_def [op_defs] is_looper_cmd_def [op_defs]
  write_cmd_len_def [op_defs] write_cmd_run_def [op_defs] write_cmd_def [op_defs]
  node_news_def [op_defs] record_news_def [op_defs] binder_read_node_work_def [op_defs]
  secctx_str_def [op_defs] delivery_cmd_def [op_defs] delivery_data_def [op_defs]
  put_delivery_def [op_defs] binder_read_transaction_def [op_defs] read_error_def [op_defs]
  read_death_def [op_defs] read_item_def [op_defs] read_select_def [op_defs] read_sleep_def [op_defs]
  spawn_looper_def [op_defs] read_round_def [op_defs] binder_thread_read_def [op_defs]
  binder_read_wakeup_def [op_defs] write_read_finish_def [op_defs]
  binder_ioctl_write_read_def [op_defs] binder_write_read_wakeup_def [op_defs]

end
