(* ===== verification/Binder_Graph.thy ===== *)
theory Binder_Graph
  imports Binder_Node
begin

text \<open>
  The invariant of nodes and references, and what each operation of
  \<^verbatim>\<open>kext/binder_node.c\<close> does to it.
\<close>

section \<open>What the queues do not touch\<close>

text \<open>\<open>core\<close> forgets where work items wait, the transactions, the transaction stacks and
  the links from buffers to transactions: everything that queueing an item or
  freeing a transaction may change. Two states with the same core have the same
  nodes, references and counts.\<close>

definition work_core :: "binder_work \<Rightarrow> binder_work" where
  "work_core W = W\<lparr>w_queue := None\<rparr>"

definition error_core :: "binder_error \<Rightarrow> binder_error" where
  "error_core E = E\<lparr>e_work := work_core (e_work E)\<rparr>"

definition proc_core :: "binder_proc \<Rightarrow> binder_proc" where
  "proc_core P = P\<lparr>p_todo := [], p_sel_recorded := False,
     p_buffers := map (b_transaction_update (\<lambda>_. None)) (p_buffers P)\<rparr>"

definition thread_core :: "binder_thread \<Rightarrow> binder_thread" where
  "thread_core T = T\<lparr>t_todo := [], t_transaction_stack := None,
     t_return_error := error_core (t_return_error T), t_reply_error := error_core (t_reply_error T)\<rparr>"

definition node_core :: "binder_node \<Rightarrow> binder_node" where
  "node_core N = N\<lparr>n_work := work_core (n_work N), n_async_todo := []\<rparr>"

definition death_core :: "binder_ref_death \<Rightarrow> binder_ref_death" where
  "death_core D = D\<lparr>d_work := work_core (d_work D)\<rparr>"

definition core :: "binder_state \<Rightarrow> binder_state" where
  "core s = s\<lparr>procs := (\<lambda>p. map_option proc_core (procs s p)),
     threads := (\<lambda>t. map_option thread_core (threads s t)),
     nodes := (\<lambda>n. map_option node_core (nodes s n)),
     deaths := (\<lambda>d. map_option death_core (deaths s d)),
     completes := (\<lambda>c. map_option work_core (completes s c)),
     txns := Map.empty, stat_transactions := 0, trace := []\<rparr>"

lemmas core_defs = work_core_def error_core_def proc_core_def thread_core_def node_core_def
  death_core_def

lemma core_upd_queue: "upd_queue q f s = Some s' \<Longrightarrow> core s' = core s"
  by (cases q) (auto simp: upd_queue_def upd_defs core_def core_defs bind_eq_Some_conv fun_eq_iff)

lemma core_upd_work_queue:
  "upd_work w (w_queue_update f) s = Some s' \<Longrightarrow> core s' = core s"
  by (cases w) (auto simp: upd_work_def upd_defs core_def core_defs bind_eq_Some_conv fun_eq_iff)

lemma core_insert: "binder_queue_insert q w h s = Some s' \<Longrightarrow> core s' = core s"
  by (auto simp: binder_queue_insert_def bind_eq_Some_conv core_upd_queue core_upd_work_queue
      split: if_splits dest!: core_upd_queue core_upd_work_queue)

lemma core_dequeue: "binder_dequeue_work w s = Some s' \<Longrightarrow> core s' = core s"
  by (auto simp: binder_dequeue_work_def bind_eq_Some_conv
      split: if_splits option.splits dest!: core_upd_queue core_upd_work_queue)

lemma core_emit: "core (emit e s) = core s"
  by (simp add: emit_def core_def)

lemma core_sel_wakeup: "binder_sel_wakeup p s = Some s' \<Longrightarrow> core s' = core s"
  by (auto simp: binder_sel_wakeup_def upd_proc_def emit_def core_def core_defs bind_eq_Some_conv
      fun_eq_iff split: if_splits)

lemma core_wakeup_proc: "binder_wakeup_proc p s = Some s' \<Longrightarrow> core s' = core s"
  by (auto simp: binder_wakeup_proc_def binder_wake_def core_emit dest!: core_sel_wakeup)

lemma core_wakeup_thread: "binder_wakeup_thread t s = Some s' \<Longrightarrow> core s' = core s"
  by (auto simp: binder_wakeup_thread_def binder_wake_def core_emit bind_eq_Some_conv
      split: option.splits dest!: core_sel_wakeup)

lemma core_pop_stack: "pop_stack t x y s = Some s' \<Longrightarrow> core s' = core s"
  by (auto simp: pop_stack_def upd_thread_def core_def core_defs bind_eq_Some_conv fun_eq_iff
      split: option.splits if_splits)

lemma core_buffer_unlink:
  "upd_buffer p b (b_transaction_update f) s = Some s' \<Longrightarrow> core s' = core s"
  by (auto simp: upd_buffer_def upd_proc_def core_def core_defs bind_eq_Some_conv fun_eq_iff comp_def)

lemma core_txns [simp]: "core (s\<lparr>txns := t, stat_transactions := i\<rparr>) = core s"
  by (simp add: core_def)

lemma core_free_transaction:
  assumes "binder_free_transaction x s = Some s'"
  shows "core s' = core s"
  using assms
  by (cases x) (auto simp: binder_free_transaction_def bind_eq_Some_conv split: option.splits
        dest!: core_dequeue core_pop_stack core_buffer_unlink)

lemma core_async_drain: "async_drain ws s = Some s' \<Longrightarrow> core s' = core s"
proof (induction ws arbitrary: s)
  case (Cons w ws)
  then show ?case
    by (auto simp: bind_eq_Some_conv split: if_splits work_ptr.splits
        dest!: core_dequeue core_free_transaction Cons.IH)
qed simp

lemma core_notify_owner: "binder_node_notify_owner n t s = Some s' \<Longrightarrow> core s' = core s"
  by (auto simp: binder_node_notify_owner_def binder_enqueue_work_def
      binder_enqueue_thread_work_def bind_eq_Some_conv
      split: option.splits if_splits dest!: core_insert)

section \<open>The graph of nodes and references\<close>

text \<open>\<open>d\<close> is the amount by which the internal strong count of a node is ahead of its
  handles, which is 0 except in the middle of an operation.\<close>

definition owner_of :: "binder_state \<Rightarrow> addr \<Rightarrow> addr option" where
  "owner_of s n = Option.bind (nodes s n) n_proc"

definition holder_of :: "binder_state \<Rightarrow> addr \<Rightarrow> addr option" where
  "holder_of s r = map_option r_proc (refs s r)"

definition target_of :: "binder_state \<Rightarrow> addr \<Rightarrow> addr option" where
  "target_of s r = Option.bind (refs s r) r_node"

definition holds_strong :: "binder_state \<Rightarrow> addr \<Rightarrow> bool" where
  "holds_strong s r \<longleftrightarrow> (case refs s r of None \<Rightarrow> False | Some R \<Rightarrow> 0 < r_strong R)"

definition proc_graph_ok :: "binder_state \<Rightarrow> addr \<Rightarrow> binder_proc \<Rightarrow> bool" where
  "proc_graph_ok s p P \<longleftrightarrow> distinct (p_nodes P) \<and> distinct (p_refs P) \<and>
     (\<forall>n. n \<in> set (p_nodes P) \<longleftrightarrow> owner_of s n = Some p) \<and>
     (\<forall>r. r \<in> set (p_refs P) \<longleftrightarrow> holder_of s r = Some p)"

definition node_graph_ok :: "binder_state \<Rightarrow> int \<Rightarrow> addr \<Rightarrow> binder_node \<Rightarrow> bool" where
  "node_graph_ok s d n N \<longleftrightarrow> distinct (n_refs N) \<and>
     (\<forall>r. r \<in> set (n_refs N) \<longleftrightarrow> target_of s r = Some n) \<and>
     n_internal_strong_refs N = int (length (filter (holds_strong s) (n_refs N))) + d \<and>
     0 \<le> n_local_strong_refs N \<and> 0 \<le> n_local_weak_refs N \<and>
     (\<forall>p. n_proc N = Some p \<longrightarrow> procs s p \<noteq> None)"

definition ref_graph_ok :: "binder_state \<Rightarrow> binder_ref \<Rightarrow> bool" where
  "ref_graph_ok s R \<longleftrightarrow> procs s (r_proc R) \<noteq> None \<and>
     (\<exists>n. r_node R = Some n \<and> nodes s n \<noteq> None) \<and> 0 \<le> r_strong R \<and> 0 \<le> r_weak R"

definition graph_off :: "(addr \<Rightarrow> int) \<Rightarrow> binder_state \<Rightarrow> bool" where
  "graph_off d s \<longleftrightarrow>
     (\<forall>p P. procs s p = Some P \<longrightarrow> proc_graph_ok s p P) \<and>
     (\<forall>n N. nodes s n = Some N \<longrightarrow> node_graph_ok s (d n) n N) \<and>
     (\<forall>r R. refs s r = Some R \<longrightarrow> ref_graph_ok s R)"

abbreviation graph_ok :: "binder_state \<Rightarrow> bool" where
  "graph_ok \<equiv> graph_off (\<lambda>_. 0)"

lemma core_fields:
  assumes "core s' = core s"
  shows "refs s' = refs s" "contexts s' = contexts s" "clock s' = clock s"
    "map_option proc_core (procs s' p) = map_option proc_core (procs s p)"
    "map_option node_core (nodes s' n) = map_option node_core (nodes s n)"
    "map_option thread_core (threads s' t) = map_option thread_core (threads s t)"
    "map_option death_core (deaths s' d) = map_option death_core (deaths s d)"
proof -
  have "f (core s') = f (core s)" for f :: "binder_state \<Rightarrow> 'z" using assms by simp
  from this [of refs] this [of contexts] this [of clock] this [of "\<lambda>s. procs s p"]
    this [of "\<lambda>s. nodes s n"] this [of "\<lambda>s. threads s t"] this [of "\<lambda>s. deaths s d"]
  show "refs s' = refs s" "contexts s' = contexts s" "clock s' = clock s"
    "map_option proc_core (procs s' p) = map_option proc_core (procs s p)"
    "map_option node_core (nodes s' n) = map_option node_core (nodes s n)"
    "map_option thread_core (threads s' t) = map_option thread_core (threads s t)"
    "map_option death_core (deaths s' d) = map_option death_core (deaths s d)"
    by (simp_all add: core_def)
qed

lemma core_procD:
  assumes "core s' = core s" and "procs s' p = Some P'"
  shows "\<exists>P. procs s p = Some P \<and> proc_core P' = proc_core P"
  using core_fields(4) [OF assms(1), of p] assms(2) by (cases "procs s p") auto

lemma core_nodeD:
  assumes "core s' = core s" and "nodes s' n = Some N'"
  shows "\<exists>N. nodes s n = Some N \<and> node_core N' = node_core N"
  using core_fields(5) [OF assms(1), of n] assms(2) by (cases "nodes s n") auto

lemma core_threadD:
  assumes "core s' = core s" and "threads s' t = Some T'"
  shows "\<exists>T. threads s t = Some T \<and> thread_core T' = thread_core T"
  using core_fields(6) [OF assms(1), of t] assms(2) by (cases "threads s t") auto

lemma proc_coreD:
  assumes "proc_core P' = proc_core P"
  shows "p_nodes P' = p_nodes P" "p_refs P' = p_refs P" "p_is_dead P' = p_is_dead P"
    "p_context P' = p_context P" "p_threads P' = p_threads P" "p_pid P' = p_pid P"
    "p_arena_size P' = p_arena_size P" "p_arena_addr P' = p_arena_addr P"
    "p_free_async_space P' = p_free_async_space P"
  using arg_cong [OF assms, of p_nodes] arg_cong [OF assms, of p_refs]
    arg_cong [OF assms, of p_is_dead] arg_cong [OF assms, of p_context]
    arg_cong [OF assms, of p_threads] arg_cong [OF assms, of p_pid]
    arg_cong [OF assms, of p_arena_size] arg_cong [OF assms, of p_arena_addr]
    arg_cong [OF assms, of p_free_async_space]
  by (simp_all add: proc_core_def)

lemma node_coreD:
  assumes "node_core N' = node_core N"
  shows "n_refs N' = n_refs N" "n_proc N' = n_proc N" "n_ptr N' = n_ptr N" "n_cookie N' = n_cookie N"
    "n_internal_strong_refs N' = n_internal_strong_refs N"
    "n_local_strong_refs N' = n_local_strong_refs N" "n_local_weak_refs N' = n_local_weak_refs N"
    "n_tmp_refs N' = n_tmp_refs N" "n_has_strong_ref N' = n_has_strong_ref N"
    "n_has_weak_ref N' = n_has_weak_ref N" "n_is_dead N' = n_is_dead N" "n_flags N' = n_flags N"
    "n_accept_fds N' = n_accept_fds N" "n_has_async_transaction N' = n_has_async_transaction N"
    "w_type (n_work N') = w_type (n_work N)"
  using arg_cong [OF assms, of n_refs] arg_cong [OF assms, of n_proc] arg_cong [OF assms, of n_ptr]
    arg_cong [OF assms, of n_cookie] arg_cong [OF assms, of n_internal_strong_refs]
    arg_cong [OF assms, of n_local_strong_refs] arg_cong [OF assms, of n_local_weak_refs]
    arg_cong [OF assms, of n_tmp_refs] arg_cong [OF assms, of n_has_strong_ref]
    arg_cong [OF assms, of n_has_weak_ref] arg_cong [OF assms, of n_is_dead]
    arg_cong [OF assms, of n_flags] arg_cong [OF assms, of n_accept_fds]
    arg_cong [OF assms, of n_has_async_transaction] arg_cong [OF assms, of "\<lambda>N. w_type (n_work N)"]
  by (simp_all add: node_core_def work_core_def)

lemma core_dom:
  assumes "core s' = core s"
  shows "procs s' p = None \<longleftrightarrow> procs s p = None" "nodes s' n = None \<longleftrightarrow> nodes s n = None"
    "threads s' t = None \<longleftrightarrow> threads s t = None" "deaths s' d = None \<longleftrightarrow> deaths s d = None"
  using core_fields(4) [OF assms, of p] core_fields(5) [OF assms, of n]
    core_fields(6) [OF assms, of t] core_fields(7) [OF assms, of d]
  by (auto simp: map_option_case split: option.splits)

lemma core_owner_of:
  assumes "core s' = core s"
  shows "owner_of s' n = owner_of s n"
proof (cases "nodes s' n")
  case None
  then show ?thesis using core_dom(2) [OF assms, of n] by (simp add: owner_of_def)
next
  case (Some N')
  then obtain N where N: "nodes s n = Some N" "node_core N' = node_core N"
    using core_nodeD [OF assms] by blast
  with Some node_coreD(2) [OF N(2)] show ?thesis by (simp add: owner_of_def)
qed

lemma core_refs:
  assumes "core s' = core s"
  shows "target_of s' r = target_of s r" "holder_of s' r = holder_of s r"
    "holds_strong s' = holds_strong s"
  by (simp_all add: target_of_def holder_of_def holds_strong_def fun_eq_iff core_fields(1) [OF assms])

lemma graph_off_core:
  assumes "core s' = core s" and "graph_off d s"
  shows "graph_off d s'"
  unfolding graph_off_def
proof (intro conjI allI impI)
  fix p P' assume "procs s' p = Some P'"
  then obtain P where P: "procs s p = Some P" "proc_core P' = proc_core P"
    using core_procD [OF assms(1)] by blast
  then have "proc_graph_ok s p P" using assms(2) by (simp add: graph_off_def)
  then show "proc_graph_ok s' p P'"
    by (simp add: proc_graph_ok_def proc_coreD [OF P(2)] core_owner_of [OF assms(1)]
        core_refs [OF assms(1)])
next
  fix n N' assume "nodes s' n = Some N'"
  then obtain N where N: "nodes s n = Some N" "node_core N' = node_core N"
    using core_nodeD [OF assms(1)] by blast
  then have "node_graph_ok s (d n) n N" using assms(2) by (simp add: graph_off_def)
  then show "node_graph_ok s' (d n) n N'"
    by (simp add: node_graph_ok_def node_coreD [OF N(2)] core_refs [OF assms(1)] core_dom(1) [OF assms(1)])
next
  fix r R assume "refs s' r = Some R"
  then have "ref_graph_ok s R" using assms by (simp add: graph_off_def core_fields(1) [OF assms(1)])
  then show "ref_graph_ok s' R"
    by (simp add: ref_graph_ok_def core_dom(1,2) [OF assms(1)])
qed

section \<open>Changes of the graph\<close>

lemma graph_offD:
  assumes "graph_off d s"
  shows "procs s p = Some P \<Longrightarrow> proc_graph_ok s p P"
    and "nodes s n = Some N \<Longrightarrow> node_graph_ok s (d n) n N"
    and "refs s r = Some R \<Longrightarrow> ref_graph_ok s R"
  using assms by (auto simp: graph_off_def)

lemma target_ofI: "refs s r = Some R \<Longrightarrow> target_of s r = r_node R"
  and holder_ofI: "refs s r = Some R \<Longrightarrow> holder_of s r = Some (r_proc R)"
  and owner_ofI: "nodes s n = Some N \<Longrightarrow> owner_of s n = n_proc N"
  by (simp_all add: target_of_def holder_of_def owner_of_def)

lemma ref_graph_ok_dom:
  assumes "ref_graph_ok s R" and "\<And>p. procs s' p = None \<Longrightarrow> procs s p = None"
    and "\<And>n. r_node R = Some n \<Longrightarrow> nodes s' n = None \<Longrightarrow> nodes s n = None"
  shows "ref_graph_ok s' R"
proof -
  obtain n where n: "r_node R = Some n" "nodes s n \<noteq> None" "procs s (r_proc R) \<noteq> None"
      "0 \<le> r_strong R" "0 \<le> r_weak R"
    using assms(1) by (auto simp: ref_graph_ok_def)
  have "nodes s' n \<noteq> None" using assms(3) [OF n(1)] n(2) by blast
  moreover have "procs s' (r_proc R) \<noteq> None" using assms(2) [of "r_proc R"] n(3) by blast
  ultimately show ?thesis using n(1,4,5) by (simp add: ref_graph_ok_def)
qed

text \<open>The counts of one node change.\<close>

lemma graph_off_count:
  assumes g: "graph_off d s" and N: "nodes s n = Some N"
    and s': "procs s' = procs s" "refs s' = refs s" "nodes s' = (nodes s)(n \<mapsto> N')"
    and N': "n_refs N' = n_refs N" "n_proc N' = n_proc N"
      "n_internal_strong_refs N' = n_internal_strong_refs N + k"
      "0 \<le> n_local_strong_refs N'" "0 \<le> n_local_weak_refs N'"
  shows "graph_off (d(n := d n + k)) s'"
proof -
  have own: "owner_of s' m = owner_of s m" for m
    using N N' s' by (simp add: owner_of_def)
  have eq: "holder_of s' = holder_of s" "target_of s' = target_of s" "holds_strong s' = holds_strong s"
    using s' by (auto simp: holder_of_def target_of_def holds_strong_def fun_eq_iff)
  show ?thesis
    unfolding graph_off_def
  proof (intro conjI allI impI)
    fix p P assume "procs s' p = Some P"
    then have "proc_graph_ok s p P" using graph_offD(1) [OF g] s'(1) by simp
    then show "proc_graph_ok s' p P" by (simp add: proc_graph_ok_def own eq)
  next
    fix m M assume M: "nodes s' m = Some M"
    show "node_graph_ok s' ((d(n := d n + k)) m) m M"
    proof (cases "m = n")
      case True
      with M s'(3) graph_offD(2) [OF g N] N' show ?thesis by (simp add: node_graph_ok_def eq s'(1))
    next
      case False
      with M s'(3) have "node_graph_ok s (d m) m M" using graph_offD(2) [OF g] by simp
      with False show ?thesis by (simp add: node_graph_ok_def eq s'(1))
    qed
  next
    fix r R assume "refs s' r = Some R"
    then have "ref_graph_ok s R" using graph_offD(3) [OF g] s'(2) by simp
    then show "ref_graph_ok s' R"
      by (rule ref_graph_ok_dom) (use s' in \<open>auto split: if_splits\<close>)
  qed
qed

text \<open>A node without handles is unlinked from its owner and freed.\<close>

lemma graph_off_free_node:
  assumes g: "graph_off d s" and N: "nodes s n = Some N" and norefs: "n_refs N = []"
    and s': "refs s' = refs s" "nodes s' = (nodes s)(n := None)"
      "procs s' = (case n_proc N of None \<Rightarrow> procs s
         | Some p \<Rightarrow> (procs s)(p := map_option (p_nodes_update (remove1 n)) (procs s p)))"
  shows "graph_off d s'"
proof -
  have own: "owner_of s' m = (if m = n then None else owner_of s m)" for m
    using s' by (simp add: owner_of_def)
  have eq: "holder_of s' = holder_of s" "target_of s' = target_of s" "holds_strong s' = holds_strong s"
    using s' by (auto simp: holder_of_def target_of_def holds_strong_def fun_eq_iff)
  have dom: "procs s' p = None \<longleftrightarrow> procs s p = None" for p
    using s'(3) by (auto split: option.splits)
  have nt: "target_of s r \<noteq> Some n" for r
    using graph_offD(2) [OF g N] norefs by (auto simp: node_graph_ok_def)
  show ?thesis
    unfolding graph_off_def
  proof (intro conjI allI impI)
    fix p P assume P: "procs s' p = Some P"
    show "proc_graph_ok s' p P"
    proof (cases "n_proc N = Some p")
      case True
      then obtain P0 where P0: "procs s p = Some P0" "P = P0\<lparr>p_nodes := remove1 n (p_nodes P0)\<rparr>"
        using P s'(3) by auto
      have "proc_graph_ok s p P0" using graph_offD(1) [OF g P0(1)] .
      then show ?thesis by (auto simp: proc_graph_ok_def P0(2) own eq)
    next
      case False
      then have "procs s p = Some P" using P s'(3) by (auto split: option.splits if_splits)
      then have "proc_graph_ok s p P" using graph_offD(1) [OF g] by blast
      moreover have "owner_of s n \<noteq> Some p" using False N by (simp add: owner_of_def)
      ultimately show ?thesis by (auto simp: proc_graph_ok_def own eq)
    qed
  next
    fix m M assume "nodes s' m = Some M"
    then have "m \<noteq> n" "nodes s m = Some M" using s'(2) by (auto split: if_splits)
    then show "node_graph_ok s' (d m) m M"
      using graph_offD(2) [OF g, of m M] by (auto simp: node_graph_ok_def eq dom)
  next
    fix r R assume "refs s' r = Some R"
    then have R: "refs s r = Some R" using s'(1) by simp
    then have "r_node R \<noteq> Some n" using nt [of r] by (simp add: target_of_def)
    then show "ref_graph_ok s' R"
      by (intro ref_graph_ok_dom [OF graph_offD(3) [OF g R]])
        (use s'(2) dom in \<open>auto split: if_splits\<close>)
  qed
qed

section \<open>The rest of the invariant\<close>

text \<open>The asynchronous transactions queued behind a node have no sender and no
  receiving thread, and their buffers exist.\<close>

definition async_item_ok :: "binder_state \<Rightarrow> work_ptr \<Rightarrow> bool" where
  "async_item_ok s w \<longleftrightarrow> (\<exists>x X. w = TxnWork x \<and> txns s x = Some X \<and>
     w_type (x_work X) = BINDER_WORK_TRANSACTION \<and> x_from X = None \<and> x_to_thread X = None \<and>
     (\<forall>p b. x_buffer X = Some (p, b) \<longrightarrow> get_buffer p b s \<noteq> None))"

definition async_ok :: "binder_state \<Rightarrow> bool" where
  "async_ok s \<longleftrightarrow> (\<forall>n ws w. items s (AsyncTodo n) = Some ws \<longrightarrow> w \<in> set ws \<longrightarrow> async_item_ok s w)"

text \<open>The death notification of a handle exists and belongs to that handle alone.\<close>

definition deaths_ok :: "binder_state \<Rightarrow> bool" where
  "deaths_ok s \<longleftrightarrow> (\<forall>r R d. refs s r = Some R \<longrightarrow> r_death R = Some d \<longrightarrow>
     deaths s d \<noteq> None \<and> (\<forall>r' R'. refs s r' = Some R' \<longrightarrow> r_death R' = Some d \<longrightarrow> r' = r))"

definition refs_inv :: "(addr \<Rightarrow> int) \<Rightarrow> binder_state \<Rightarrow> bool" where
  "refs_inv d s \<longleftrightarrow> graph_off d s \<and> queues_ok s \<and> async_ok s \<and> deaths_ok s"

lemma deaths_ok_core:
  assumes "core s' = core s" and "deaths_ok s"
  shows "deaths_ok s'"
  using assms(2)
  unfolding deaths_ok_def core_fields(1) [OF assms(1)] core_dom(4) [OF assms(1)] .

text \<open>Freeing an object whose work item waits nowhere, and whose queue is empty, leaves
  the queues in order.\<close>

lemma queues_ok_same_held:
  assumes "queues_ok s" and "\<And>w q. place s' w = Some (Some q) \<longleftrightarrow> place s w = Some (Some q)"
    and "\<And>q. held (items s') q = held (items s) q"
    and "\<And>q ws. items s' q = Some ws \<Longrightarrow> ws = [] \<or> items s q = Some ws"
  shows "queues_ok s'"
  unfolding queues_ok_def queues_ok_on_def
proof (intro conjI allI impI)
  fix q ws assume "items s' q = Some ws"
  then show "distinct ws" using assms(4) queues_okD(3) [OF assms(1)] by fastforce
next
  fix w q
  show "place s' w = Some (Some q) \<longleftrightarrow> w \<in> held (items s') q"
    using assms(1) by (simp add: assms(2,3) queues_ok_def queues_ok_on_def)
qed

section \<open>Freeing what is queued behind a node\<close>

lemma dequeue_txns:
  assumes "binder_dequeue_work w s = Some s'"
  shows "txns s' y = (if w = TxnWork y
    then map_option (x_work_update (w_queue_update (\<lambda>_. None))) (txns s y) else txns s y)"
proof -
  obtain W where W: "get_work w s = Some W"
    using assms unfolding binder_dequeue_work_def by (rule bind_SomeE)
  show ?thesis
  proof (cases "w_queue W")
    case None
    have "x_work_update (w_queue_update (\<lambda>_. None)) X = X" if "w_queue (x_work X) = None" for X
      using that by simp
    with None W assms show ?thesis
      by (auto simp: binder_dequeue_work_def get_work_def)
  next
    case (Some q)
    then obtain s1 where s1: "upd_queue q (remove1 w) s = Some s1"
        "upd_work w (w_queue_update (\<lambda>_. None)) s1 = Some s'"
      using W assms by (auto simp: binder_dequeue_work_def bind_eq_Some_conv split: if_splits)
    have "txns s1 = txns s"
      using s1(1) by (cases q) (auto simp: upd_queue_def upd_defs bind_eq_Some_conv)
    then show ?thesis
      using s1(2) by (cases w) (auto simp: upd_work_def upd_defs bind_eq_Some_conv)
  qed
qed

lemma get_buffer_None:
  "get_buffer p b s = None \<longleftrightarrow> (\<forall>P. procs s p = Some P \<longrightarrow> b \<notin> b_id ` set (p_buffers P))"
  by (cases "procs s p") (auto simp: get_buffer_def find_None_iff)

lemma get_buffer_core:
  assumes "core s' = core s"
  shows "get_buffer p b s' = None \<longleftrightarrow> get_buffer p b s = None"
proof (cases "procs s' p")
  case None
  then show ?thesis using core_dom(1) [OF assms, of p] by (simp add: get_buffer_None)
next
  case (Some P')
  then obtain P where P: "procs s p = Some P" "proc_core P' = proc_core P"
    using core_procD [OF assms] by blast
  have "map b_id (p_buffers (proc_core P')) = map b_id (p_buffers (proc_core P))"
    using P(2) by simp
  then have "map b_id (p_buffers P') = map b_id (p_buffers P)"
    by (simp add: proc_core_def comp_def)
  then have "b_id ` set (p_buffers P') = b_id ` set (p_buffers P)"
    by (metis list.set_map)
  with Some P(1) show ?thesis by (simp add: get_buffer_None)
qed

lemma upd_buffer_defined: "(\<exists>s'. upd_buffer p b f s = Some s') \<longleftrightarrow> get_buffer p b s \<noteq> None"
  by (cases "procs s p"; cases "get_buffer p b s")
    (auto simp: upd_buffer_def upd_proc_def get_buffer_def)

lemma upd_buffer_frame:
  assumes "upd_buffer p b f s = Some s'"
  shows "items s' = items s" "place s' = place s" "txns s' = txns s"
proof -
  obtain P where P: "procs s p = Some P"
      "s' = s\<lparr>procs := (procs s)(p \<mapsto>
         p_buffers_update (map (\<lambda>B. if b_id B = b then f B else B)) P)\<rparr>"
    using assms by (auto simp: upd_buffer_def upd_proc_def bind_eq_Some_conv)
  show "items s' = items s"
    using P by (auto simp: items_def get_queue_def fun_eq_iff split: work_head.splits)
  show "place s' = place s"
    using P by (auto simp: place_def get_work_def fun_eq_iff split: work_ptr.splits)
  show "txns s' = txns s" using P by simp
qed

lemma place_free_txn: "t = (txns s)(x := None) \<Longrightarrow>
    place (s\<lparr>txns := t, stat_transactions := i\<rparr>) = (place s)(TxnWork x := None)"
  by (auto simp: place_def get_work_def fun_eq_iff split: work_ptr.splits)

lemma items_free_txn: "items (s\<lparr>txns := t, stat_transactions := i\<rparr>) = items s"
  by (auto simp: items_def get_queue_def fun_eq_iff split: work_head.splits)

text \<open>A transaction that waits nowhere and is on no stack is simply freed.\<close>

lemma free_quiet_txn:
  assumes pl: "place s (TxnWork x) = Some None" and X: "txns s x = Some X"
    and quiet: "x_from X = None" "x_to_thread X = None"
    and buf: "\<And>p b. x_buffer X = Some (p, b) \<Longrightarrow> get_buffer p b s \<noteq> None"
  shows "\<exists>s'. binder_free_transaction (Some x) s = Some s' \<and> txns s' = (txns s)(x := None) \<and>
    items s' = items s \<and> place s' = (place s)(TxnWork x := None)"
proof -
  have deq: "binder_dequeue_work (TxnWork x) s = Some s" by (rule binder_dequeue_unqueued [OF pl])
  show ?thesis
  proof (cases "x_buffer X")
    case None
    then show ?thesis
      by (simp add: binder_free_transaction_def deq X quiet pop_stack_def place_free_txn items_free_txn)
  next
    case (Some pb)
    obtain p b where pb: "pb = (p, b)" by (cases pb)
    then obtain s1 where s1: "upd_buffer p b (b_transaction_update (\<lambda>_. None)) s = Some s1"
      using buf [of p b] Some upd_buffer_defined [of p b "b_transaction_update (\<lambda>_. None)" s] by auto
    show ?thesis
      by (simp add: binder_free_transaction_def deq X quiet pop_stack_def Some pb s1
          place_free_txn [of _ s1 x] items_free_txn upd_buffer_frame [OF s1])
  qed
qed

lemma async_item_ok_frame:
  assumes "async_item_ok s (TxnWork y)" and "core s' = core s" and "txns s' y = txns s y"
  shows "async_item_ok s' (TxnWork y)"
  using assms(1,3) get_buffer_core [OF assms(2)] by (simp add: async_item_ok_def)

lemma async_drain_ok:
  assumes "queues_ok s" and "async_ok s" and "items s (AsyncTodo n) = Some ws"
  shows "\<exists>s'. async_drain ws s = Some s' \<and> queues_ok s' \<and> async_ok s' \<and>
    items s' = (items s)(AsyncTodo n := Some []) \<and>
    (\<forall>w. (\<forall>x. w \<noteq> TxnWork x) \<longrightarrow> place s' w = place s w)"
  using assms
proof (induction ws arbitrary: s)
  case Nil
  then show ?case by (auto simp: fun_upd_idem)
next
  case (Cons w ws)
  let ?q = "AsyncTodo n"
  have "async_item_ok s w" using Cons.prems(2,3) by (auto simp: async_ok_def)
  then obtain x X where w: "w = TxnWork x" and X: "txns s x = Some X"
      "w_type (x_work X) = BINDER_WORK_TRANSACTION" "x_from X = None" "x_to_thread X = None"
      "\<And>p b. x_buffer X = Some (p, b) \<Longrightarrow> get_buffer p b s \<noteq> None"
    unfolding async_item_ok_def by blast
  have pl: "place s w = Some (Some ?q)" using queues_okD(2) [OF Cons.prems(1,3)] by simp
  have "distinct (w # ws)" using queues_okD(3) [OF Cons.prems(1,3)] .
  obtain s1 where s1: "binder_dequeue_work w s = Some s1" "items s1 = (items s)(?q := Some ws)"
      "place s1 = (place s)(w := Some None)" "queues_ok s1"
    using todo.deq_queued [OF Cons.prems(1) pl] Cons.prems(3) by auto
  note core1 = core_dequeue [OF s1(1)]
  obtain X1 where X1: "txns s1 x = Some X1" "X1 = X\<lparr>x_work := (x_work X)\<lparr>w_queue := None\<rparr>\<rparr>"
    using dequeue_txns [OF s1(1), of x] X(1) w by simp
  have W: "\<exists>W. get_work w s1 = Some W \<and> w_type W = BINDER_WORK_TRANSACTION"
    using X1 X(2) by (simp add: get_work_def w)
  obtain s2 where s2: "binder_free_transaction (Some x) s1 = Some s2"
      "txns s2 = (txns s1)(x := None)" "items s2 = items s1" "place s2 = (place s1)(TxnWork x := None)"
    using free_quiet_txn [of s1 x X1] s1(3) w X1 X(3-5) get_buffer_core [OF core1] by auto
  have core2: "core s2 = core s" using core_free_transaction [OF s2(1)] core1 by simp
  have q2: "queues_ok s2"
    by (rule queues_ok_same_held [OF s1(4)]) (simp_all add: s2(3,4) s1(3) w)
  have a2: "async_ok s2"
    unfolding async_ok_def
  proof (intro allI impI)
    fix m vs v assume vs: "items s2 (AsyncTodo m) = Some vs" "v \<in> set vs"
    have v: "async_item_ok s v" "v \<noteq> w"
    proof -
      show "v \<noteq> w" using queues_okD(2) [OF q2 vs] s2(4) w by auto
      show "async_item_ok s v"
        using vs Cons.prems(2,3) by (auto simp: s2(3) s1(2) async_ok_def split: if_splits)
    qed
    then obtain y where y: "v = TxnWork y" by (auto simp: async_item_ok_def)
    have "txns s2 y = txns s y" using v(2) y w dequeue_txns [OF s1(1), of y] s2(2) by auto
    then show "async_item_ok s2 v" using async_item_ok_frame [OF _ core2] v(1) y by simp
  qed
  have "items s2 ?q = Some ws" by (simp add: s2(3) s1(2))
  from Cons.IH [OF q2 a2 this] obtain s' where s': "async_drain ws s2 = Some s'" "queues_ok s'"
      "async_ok s'" "items s' = (items s2)(?q := Some [])"
      "\<forall>w. (\<forall>x. w \<noteq> TxnWork x) \<longrightarrow> place s' w = place s2 w"
    by blast
  have "async_drain (w # ws) s = Some s'"
    using s1(1) W s2(1) s'(1) by (auto simp: w)
  moreover have "items s' = (items s)(?q := Some [])" by (simp add: s'(4) s2(3) s1(2))
  moreover have "\<forall>v. (\<forall>x. v \<noteq> TxnWork x) \<longrightarrow> place s' v = place s v"
    using s'(5) by (simp add: s2(4) s1(3) w)
  ultimately show ?case using s'(2,3) by blast
qed

section \<open>Freeing a node\<close>

definition reclaimable :: "binder_node \<Rightarrow> bool" where
  "reclaimable N \<longleftrightarrow> n_tmp_refs N = 0 \<and> \<not> binder_node_has_weak N \<and> \<not> n_has_strong_ref N \<and>
     \<not> n_has_weak_ref N \<and> \<not> BINDER_WORK_QUEUED (n_work N)"

text \<open>What is left when a node is gone: its owner's list and the manager role do not
  name it any more.\<close>

definition drop_mgr :: "addr \<Rightarrow> binder_node \<Rightarrow> binder_state \<Rightarrow> binder_state" where
  "drop_mgr n N s = (case Option.bind (Option.bind (n_proc N) (procs s)) p_context of
       None \<Rightarrow> s
     | Some c \<Rightarrow> if c_mgr_node (contexts s c) = Some n
         then upd_context c (c_mgr_node_update (\<lambda>_. None)) s else s)"

definition unlink_node :: "addr \<Rightarrow> binder_node \<Rightarrow> binder_state \<Rightarrow> binder_state" where
  "unlink_node n N s = (let s = (case n_proc N of
         None \<Rightarrow> s
       | Some p \<Rightarrow> s\<lparr>procs := (procs s)(p := map_option (p_nodes_update (remove1 n)) (procs s p))\<rparr>);
       s = drop_mgr n N s
     in s\<lparr>nodes := (nodes s)(n := None), stat_nodes := stat_nodes s - 1\<rparr>)"

lemma drop_mgr_frame [simp]:
  "procs (drop_mgr n N s) = procs s" "nodes (drop_mgr n N s) = nodes s"
  "refs (drop_mgr n N s) = refs s" "deaths (drop_mgr n N s) = deaths s"
  "threads (drop_mgr n N s) = threads s" "txns (drop_mgr n N s) = txns s"
  "completes (drop_mgr n N s) = completes s" "clock (drop_mgr n N s) = clock s"
  "stat_nodes (drop_mgr n N s) = stat_nodes s"
  by (auto simp: drop_mgr_def upd_context_def split: option.splits)

lemma unlink_node_frame:
  "refs (unlink_node n N s) = refs s" "deaths (unlink_node n N s) = deaths s"
  "threads (unlink_node n N s) = threads s" "txns (unlink_node n N s) = txns s"
  "completes (unlink_node n N s) = completes s" "clock (unlink_node n N s) = clock s"
  "nodes (unlink_node n N s) = (nodes s)(n := None)"
  "procs (unlink_node n N s) = (case n_proc N of None \<Rightarrow> procs s
     | Some p \<Rightarrow> (procs s)(p := map_option (p_nodes_update (remove1 n)) (procs s p)))"
  by (auto simp: unlink_node_def Let_def split: option.splits)

lemma drop_mgr_core: "core (drop_mgr n N s) = drop_mgr n N (core s)"
proof -
  have "Option.bind (Option.bind (n_proc N) (procs (core s))) p_context =
      Option.bind (Option.bind (n_proc N) (procs s)) p_context"
    by (cases "n_proc N"; cases "procs s (the (n_proc N))") (auto simp: core_def proc_core_def)
  then show ?thesis
    by (auto simp: drop_mgr_def upd_context_def core_def split: option.splits)
qed

lemma unlink_node_core: "core (unlink_node n N s) = unlink_node n N (core s)"
proof -
  have 1: "core (s\<lparr>nodes := m, stat_nodes := i\<rparr>) =
      (core s)\<lparr>nodes := (\<lambda>x. map_option node_core (m x)), stat_nodes := i\<rparr>" for s m i
    by (simp add: core_def)
  have 4: "(\<lambda>x. map_option node_core (if x = n then None else nodes s x)) = (nodes (core s))(n := None)"
    for s
    by (auto simp: core_def)
  have pc: "proc_core (p_nodes_update f P) = p_nodes_update f (proc_core P)" for f P
    by (cases P) (simp add: proc_core_def)
  have 2: "core (s\<lparr>procs := (procs s)(p := map_option (p_nodes_update f) (procs s p))\<rparr>) =
      (core s)\<lparr>procs := (procs (core s))(p := map_option (p_nodes_update f) (procs (core s) p))\<rparr>"
    for s p f
    by (rule binder_state.equality) (auto simp: core_def fun_eq_iff option.map_comp comp_def pc)
  have 3: "stat_nodes (core s) = stat_nodes s" for s by (simp add: core_def)
  show ?thesis
    by (cases "n_proc N") (simp_all add: unlink_node_def Let_def 1 2 3 4 drop_mgr_core)
qed

lemma items_unlink_node:
  "items (unlink_node n N s) = (items s)(AsyncTodo n := None)"
  by (auto simp: items_def get_queue_def fun_eq_iff unlink_node_frame option.map_comp comp_def
      split: work_head.splits option.splits)

lemma place_unlink_node: "place (unlink_node n N s) = (place s)(NodeWork n := None)"
  by (auto simp: place_def get_work_def fun_eq_iff unlink_node_frame split: work_ptr.splits)

lemma get_buffer_unlink_node: "get_buffer p b (unlink_node n N s) = get_buffer p b s"
  by (auto simp: get_buffer_def unlink_node_frame split: option.splits Option.bind_splits)

lemma maybe_free_eq:
  assumes "nodes s n = Some N" and "\<And>p. n_proc N = Some p \<Longrightarrow> procs s p \<noteq> None"
  shows "binder_node_maybe_free n s =
    (if reclaimable N then map_option (unlink_node n N) (async_drain (n_async_todo N) s) else Some s)"
proof (cases "reclaimable N")
  case True
  show ?thesis
  proof (cases "async_drain (n_async_todo N) s")
    case None
    with True assms(1) show ?thesis
      by (auto simp: binder_node_maybe_free_def reclaimable_def)
  next
    case (Some s1)
    have "procs s1 p \<noteq> None" if "n_proc N = Some p" for p
      using core_dom(1) [OF core_async_drain [OF Some]] assms(2) that by blast
    with True assms(1) Some show ?thesis
      by (cases "n_proc N")
        (auto simp: binder_node_maybe_free_def reclaimable_def unlink_node_def upd_proc_def
          drop_mgr_def Let_def split: option.splits)
  qed
next
  case False
  with assms(1) show ?thesis by (auto simp: binder_node_maybe_free_def reclaimable_def)
qed

lemma maybe_free_ok:
  assumes inv: "refs_inv d s" and N: "nodes s n = Some N"
  shows "\<exists>s'. binder_node_maybe_free n s = Some s' \<and> refs_inv d s' \<and>
    (if reclaimable N then core s' = core (unlink_node n N s) else s' = s)"
proof (cases "reclaimable N")
  case False
  with inv N show ?thesis
    by (auto simp: maybe_free_eq [OF N] refs_inv_def graph_off_def node_graph_ok_def
        binder_node_maybe_free_def reclaimable_def)
next
  case True
  have g: "graph_off d s" "queues_ok s" "async_ok s" "deaths_ok s" using inv by (auto simp: refs_inv_def)
  have "\<And>p. n_proc N = Some p \<Longrightarrow> procs s p \<noteq> None"
    using graph_offD(2) [OF g(1) N] by (auto simp: node_graph_ok_def)
  note eq = maybe_free_eq [OF N this]
  have "items s (AsyncTodo n) = Some (n_async_todo N)" by (simp add: items_def get_queue_def N)
  from async_drain_ok [OF g(2,3) this] obtain s1 where s1: "async_drain (n_async_todo N) s = Some s1"
      "queues_ok s1" "async_ok s1" "items s1 = (items s)(AsyncTodo n := Some [])"
      "\<forall>w. (\<forall>x. w \<noteq> TxnWork x) \<longrightarrow> place s1 w = place s w"
    by blast
  have c1: "core s1 = core s" by (rule core_async_drain [OF s1(1)])
  let ?s = "unlink_node n N s1"
  have c: "core ?s = core (unlink_node n N s)" by (simp add: unlink_node_core c1)
  have pl: "place s1 (NodeWork n) = Some None"
    using s1(5) [rule_format, of "NodeWork n"] True N by (simp add: place_def get_work_def reclaimable_def BINDER_WORK_QUEUED_def)
  have "n_refs N = []" using True by (auto simp: reclaimable_def binder_node_has_weak_def)
  then have "graph_off d (unlink_node n N s)"
    by (rule graph_off_free_node [OF g(1) N]) (rule unlink_node_frame)+
  then have "graph_off d ?s" by (rule graph_off_core [OF c])
  moreover have "queues_ok ?s"
    by (rule queues_ok_same_held [OF s1(2)])
      (auto simp: place_unlink_node items_unlink_node pl s1(4) held_def split: if_splits)
  moreover have "async_ok ?s"
    using s1(3) by (auto simp: async_ok_def items_unlink_node async_item_ok_def unlink_node_frame
        get_buffer_unlink_node)
  moreover have "deaths_ok ?s"
    using deaths_ok_core [OF c1 g(4)] unfolding deaths_ok_def unlink_node_frame .
  ultimately show ?thesis using True s1(1) c by (simp add: eq refs_inv_def)
qed

section \<open>Counting\<close>

lemma async_ok_frame:
  assumes "async_ok s" and "core s' = core s" and "txns s' = txns s"
    and "\<And>n. items s' (AsyncTodo n) = items s (AsyncTodo n)"
  shows "async_ok s'"
  using assms(1,4) get_buffer_core [OF assms(2)]
  unfolding async_ok_def async_item_ok_def assms(3) by metis

lemma deaths_ok_frame:
  assumes "deaths_ok s" and "refs s' = refs s" and "deaths s' = deaths s"
  shows "deaths_ok s'"
  using assms(1) unfolding deaths_ok_def assms(2,3) .

lemma insert_ok:
  assumes q: "queues_ok s" and w: "place s w \<noteq> None" and it: "items s q \<noteq> None"
  shows "\<exists>s'. binder_queue_insert q w h s = Some s' \<and> queues_ok s' \<and>
    (\<forall>r. r \<noteq> q \<longrightarrow> items s' r = items s r) \<and> (\<exists>r. place s' w = Some (Some r))"
proof (cases "place s w = Some None")
  case True
  obtain ws where ws: "items s q = Some ws" using it by blast
  from binder_queue_insert_effect [OF True ws, of h] obtain s' where
    s': "binder_queue_insert q w h s = Some s'"
      "items s' = (items s)(q := Some (if h then w # ws else ws @ [w]))"
      "place s' = (place s)(w := Some (Some q))" by blast
  then show ?thesis using queues_ok_insert [OF q s'(1)] by auto
next
  case False
  then obtain r where "place s w = Some (Some r)" using w by auto
  then show ?thesis using binder_queue_insert_queued q by auto
qed

lemma insert_txns:
  assumes "binder_queue_insert q w h s = Some s'" and "\<And>x. w \<noteq> TxnWork x"
  shows "txns s' = txns s"
  using assms by (cases q; cases w)
    (auto simp: binder_queue_insert_def upd_queue_def upd_work_def upd_defs bind_eq_Some_conv
      split: if_splits)

lemma node_insert_inv:
  assumes inv: "refs_inv d s" and N: "nodes s n = Some N" and it: "items s q \<noteq> None"
    and q: "\<And>m. q \<noteq> AsyncTodo m"
  shows "\<exists>s'. binder_queue_insert q (NodeWork n) h s = Some s' \<and> refs_inv d s' \<and> core s' = core s \<and>
    (\<exists>N'. nodes s' n = Some N' \<and> BINDER_WORK_QUEUED (n_work N'))"
proof -
  have i: "graph_off d s" "queues_ok s" "async_ok s" "deaths_ok s" using inv by (auto simp: refs_inv_def)
  have "place s (NodeWork n) \<noteq> None" using N by (simp add: place_def get_work_def)
  from insert_ok [OF i(2) this it, of h] obtain s' where s': "binder_queue_insert q (NodeWork n) h s = Some s'"
      "queues_ok s'" "\<forall>r. r \<noteq> q \<longrightarrow> items s' r = items s r" "\<exists>r. place s' (NodeWork n) = Some (Some r)"
    by blast
  note c = core_insert [OF s'(1)]
  have "items s' (AsyncTodo m) = items s (AsyncTodo m)" for m using s'(3) q [of m] by metis
  then have "async_ok s'" using async_ok_frame [OF i(3) c insert_txns [OF s'(1)]] by blast
  moreover have "\<exists>N'. nodes s' n = Some N' \<and> BINDER_WORK_QUEUED (n_work N')"
    using s'(4) by (auto simp: place_def get_work_def BINDER_WORK_QUEUED_def)
  ultimately show ?thesis
    using s'(1,2) c graph_off_core [OF c i(1)] deaths_ok_core [OF c i(4)] by (auto simp: refs_inv_def)
qed

text \<open>A change of the counts is announced to an owner that lives.\<close>

definition owner_alive :: "binder_state \<Rightarrow> binder_node \<Rightarrow> bool" where
  "owner_alive s N \<longleftrightarrow> (case Option.bind (n_proc N) (procs s) of None \<Rightarrow> False | Some P \<Rightarrow> \<not> p_is_dead P)"

lemma notify_owner_inv:
  assumes inv: "refs_inv d s" and N: "nodes s n = Some N"
    and th: "\<And>t. th = Some t \<Longrightarrow> threads s t \<noteq> None"
  shows "\<exists>s'. binder_node_notify_owner n th s = Some s' \<and> refs_inv d s' \<and> core s' = core s \<and>
    (owner_alive s N \<longrightarrow> (\<exists>N'. nodes s' n = Some N' \<and> BINDER_WORK_QUEUED (n_work N')))"
proof (cases "owner_alive s N \<and> \<not> BINDER_WORK_QUEUED (n_work N)")
  case False
  have "procs s p \<noteq> None" if "n_proc N = Some p" for p
    using inv N that graph_offD(2) [of d s n N] by (auto simp: refs_inv_def node_graph_ok_def)
  with False N inv show ?thesis
    by (cases "n_proc N") (auto simp: binder_node_notify_owner_def owner_alive_def split: option.splits)
next
  case True
  then obtain p P where p: "n_proc N = Some p" "procs s p = Some P" "\<not> p_is_dead P"
    by (auto simp: owner_alive_def split: option.splits Option.bind_splits)
  obtain q where q: "binder_node_notify_owner n th s = binder_queue_insert q (NodeWork n) False s"
      "items s q \<noteq> None" "\<And>m. q \<noteq> AsyncTodo m"
  proof (cases "\<exists>t T. th = Some t \<and> threads s t = Some T \<and> t_proc T = Some p")
    case True
    then obtain t T where "th = Some t" "threads s t = Some T" "t_proc T = Some p" by blast
    then show ?thesis
      using that [of "ThreadTodo t"] N p \<open>owner_alive s N \<and> \<not> BINDER_WORK_QUEUED (n_work N)\<close>
      by (auto simp: binder_node_notify_owner_def binder_enqueue_thread_work_def items_def get_queue_def)
  next
    case False
    then show ?thesis
      using that [of "ProcTodo p"] N p th \<open>owner_alive s N \<and> \<not> BINDER_WORK_QUEUED (n_work N)\<close>
      by (cases th) (auto simp: binder_node_notify_owner_def binder_enqueue_work_def items_def
          get_queue_def)
  qed
  then show ?thesis using node_insert_inv [OF inv N q(2,3), of False] by auto
qed

text \<open>The effect of \<open>count_refs\<close>.\<close>

definition strong_delta :: "bool \<Rightarrow> bool \<Rightarrow> bool \<Rightarrow> int" where
  "strong_delta strong increment internal =
     (if strong \<and> internal then if increment then 1 else - 1 else 0)"

lemma count_refs_effect:
  assumes "count_refs st inc itn N = Some (OK, N')"
    and "0 \<le> n_local_strong_refs N" and "0 \<le> n_local_weak_refs N"
  shows "N' = N\<lparr>n_internal_strong_refs := n_internal_strong_refs N',
      n_local_strong_refs := n_local_strong_refs N', n_local_weak_refs := n_local_weak_refs N'\<rparr>"
    "n_internal_strong_refs N' = n_internal_strong_refs N + strong_delta st inc itn"
    "0 \<le> n_local_strong_refs N'" "0 \<le> n_local_weak_refs N'"
  using assms by (auto simp: count_refs_def strong_delta_def bind_eq_Some_conv split: if_splits)

lemma count_refs_total:
  assumes "inc \<Longrightarrow> n_internal_strong_refs N < int_max \<and> n_local_strong_refs N < int_max \<and>
      n_local_weak_refs N < int_max"
    and "0 \<le> n_internal_strong_refs N" "0 \<le> n_local_strong_refs N" "0 \<le> n_local_weak_refs N"
  shows "\<exists>e N'. count_refs st inc itn N = Some (e, N')"
  using assms by (auto simp: count_refs_def int_inc_eq int_dec_eq)

lemma refs_inv_count:
  assumes inv: "refs_inv d s" and N: "nodes s n = Some N"
    and c: "count_refs st inc itn N = Some (OK, N')"
  shows "refs_inv (d(n := d n + strong_delta st inc itn)) (s\<lparr>nodes := (nodes s)(n \<mapsto> N')\<rparr>)"
proof -
  have i: "graph_off d s" "queues_ok s" "async_ok s" "deaths_ok s" using inv by (auto simp: refs_inv_def)
  let ?s = "s\<lparr>nodes := (nodes s)(n \<mapsto> N')\<rparr>"
  have "0 \<le> n_local_strong_refs N" "0 \<le> n_local_weak_refs N"
    using graph_offD(2) [OF i(1) N] by (auto simp: node_graph_ok_def)
  note e = count_refs_effect [OF c this]
  have w: "n_work N' = n_work N" "n_async_todo N' = n_async_todo N" "n_refs N' = n_refs N"
      "n_proc N' = n_proc N"
    by (subst e(1), simp)+
  have it: "items ?s = items s"
    using N w by (auto simp: items_def get_queue_def fun_eq_iff split: work_head.splits)
  have pl: "place ?s = place s"
    using N w by (auto simp: place_def get_work_def fun_eq_iff split: work_ptr.splits)
  have "graph_off (d(n := d n + strong_delta st inc itn)) ?s"
    by (rule graph_off_count [OF i(1) N, where N' = N']) (simp_all add: w e(2-4))
  moreover have "queues_ok ?s" using i(2) by (simp add: queues_ok_def it pl)
  moreover have "async_ok ?s"
    using i(3) by (simp add: async_ok_def it async_item_ok_def get_buffer_def)
  moreover have "deaths_ok ?s" by (rule deaths_ok_frame [OF i(4)]) simp_all
  ultimately show ?thesis by (simp add: refs_inv_def)
qed

lemma unlink_node_cong: "n_proc N' = n_proc N \<Longrightarrow> unlink_node n N' = unlink_node n N"
  by (simp add: unlink_node_def drop_mgr_def fun_eq_iff)

text \<open>A change of the counts of a node: it is refused, or the owner is told of a
  crossing and the node goes when nothing holds it any more.\<close>

lemma update_refs_ok:
  assumes inv: "refs_inv d s" and N: "nodes s n = Some N"
    and th: "\<And>t. th = Some t \<Longrightarrow> threads s t \<noteq> None"
    and c: "count_refs st inc itn N = Some (e, N')"
  shows "\<exists>s'. binder_node_update_refs n st inc itn th s = Some (e, s') \<and> refs s' = refs s \<and>
    (if e = OK then refs_inv (d(n := d n + strong_delta st inc itn)) s' \<and>
       (core s' = core (s\<lparr>nodes := (nodes s)(n \<mapsto> N')\<rparr>) \<or>
        \<not> binder_node_has_weak N' \<and>
          core s' = core (unlink_node n N' (s\<lparr>nodes := (nodes s)(n \<mapsto> N')\<rparr>)))
     else s' = s)"
proof (cases "e = OK")
  case False
  then show ?thesis using N c by (simp add: binder_node_update_refs_def)
next
  case True
  let ?s1 = "s\<lparr>nodes := (nodes s)(n \<mapsto> N')\<rparr>"
  let ?d = "d(n := d n + strong_delta st inc itn)"
  have inv1: "refs_inv ?d ?s1" using refs_inv_count [OF inv N] c True by simp
  have N1: "nodes ?s1 n = Some N'" by simp
  obtain s2 where s2: "(if binder_node_has_strong N' \<noteq> binder_node_has_strong N \<or>
              binder_node_has_weak N' \<noteq> binder_node_has_weak N
            then binder_node_notify_owner n th ?s1 else Some ?s1) = Some s2"
      "refs_inv ?d s2" "core s2 = core ?s1"
    using notify_owner_inv [OF inv1 N1, of th] th inv1 by (cases "binder_node_has_strong N' \<noteq>
      binder_node_has_strong N \<or> binder_node_has_weak N' \<noteq> binder_node_has_weak N") auto
  obtain N2 where N2: "nodes s2 n = Some N2" "node_core N2 = node_core N'"
    using core_dom(2) [OF s2(3), of n] core_nodeD [OF s2(3), of n] by fastforce
  have w: "binder_node_has_weak N2 = binder_node_has_weak N'"
    using node_coreD [OF N2(2)] by (simp add: binder_node_has_weak_def binder_node_has_strong_def)
  have u: "core (unlink_node n N2 s2) = core (unlink_node n N' ?s1)"
    by (simp add: unlink_node_core s2(3) unlink_node_cong [OF node_coreD(2) [OF N2(2)]])
  obtain s3 where s3: "binder_node_maybe_free n s2 = Some s3" "refs_inv ?d s3"
      "if reclaimable N2 then core s3 = core (unlink_node n N2 s2) else s3 = s2"
    using maybe_free_ok [OF s2(2) N2(1)] by blast
  have fate: "core s3 = core ?s1 \<or> \<not> binder_node_has_weak N' \<and> core s3 = core (unlink_node n N' ?s1)"
    using s3(3) s2(3) u w by (auto simp: reclaimable_def split: if_splits)
  then have "refs s3 = refs s"
    using core_fields(1) [of s3 ?s1] core_fields(1) [of s3 "unlink_node n N' ?s1"]
    by (auto simp: unlink_node_frame)
  then show ?thesis
    using True N c s2(1) s3(1,2) fate
    by (simp add: binder_node_update_refs_def upd_node_def)
qed

section \<open>Changes of a handle\<close>

lemma work_frame:
  assumes "items s' = items s" and "place s' = place s" and "txns s' = txns s"
    and "\<And>p b. get_buffer p b s' = None \<longleftrightarrow> get_buffer p b s = None"
    and "queues_ok s" and "async_ok s"
  shows "queues_ok s'" "async_ok s'"
  using assms by (simp_all add: queues_ok_def async_ok_def async_item_ok_def)

lemma work_frame_proc:
  assumes "procs s p = Some P" and "p_todo P' = p_todo P" and "p_buffers P' = p_buffers P"
  shows "items (s\<lparr>procs := (procs s)(p \<mapsto> P')\<rparr>) = items s"
    "place (s\<lparr>procs := (procs s)(p \<mapsto> P')\<rparr>) = place s"
    "get_buffer p' b (s\<lparr>procs := (procs s)(p \<mapsto> P')\<rparr>) = get_buffer p' b s"
  using assms
  by (auto simp: items_def place_def get_queue_def get_work_def get_buffer_def fun_eq_iff
      split: work_head.splits work_ptr.splits)

lemma work_frame_node:
  assumes "nodes s n = Some N" and "n_work N' = n_work N" and "n_async_todo N' = n_async_todo N"
  shows "items (s\<lparr>nodes := (nodes s)(n \<mapsto> N')\<rparr>) = items s"
    "place (s\<lparr>nodes := (nodes s)(n \<mapsto> N')\<rparr>) = place s"
    "get_buffer p' b (s\<lparr>nodes := (nodes s)(n \<mapsto> N')\<rparr>) = get_buffer p' b s"
  using assms
  by (auto simp: items_def place_def get_queue_def get_work_def get_buffer_def fun_eq_iff
      split: work_head.splits work_ptr.splits)

lemma work_frame_refs [simp]:
  "items (s\<lparr>refs := m\<rparr>) = items s" "place (s\<lparr>refs := m\<rparr>) = place s"
  "get_buffer p b (s\<lparr>refs := m\<rparr>) = get_buffer p b s"
  "items (s\<lparr>stat_refs := i\<rparr>) = items s" "place (s\<lparr>stat_refs := i\<rparr>) = place s"
  "get_buffer p b (s\<lparr>stat_refs := i\<rparr>) = get_buffer p b s"
  by (auto simp: items_def place_def get_queue_def get_work_def get_buffer_def fun_eq_iff
      split: work_head.splits work_ptr.splits)

text \<open>The counts of a handle change. What the node counts lags by the crossing.\<close>

lemma graph_off_ref:
  assumes g: "graph_off d s" and R: "refs s r = Some R" "r_node R = Some n"
    and s': "procs s' = procs s" "nodes s' = nodes s" "refs s' = (refs s)(r \<mapsto> R')"
    and R': "r_proc R' = r_proc R" "r_node R' = r_node R" "0 \<le> r_strong R'" "0 \<le> r_weak R'"
  shows "graph_off (d(n := d n + of_bool (0 < r_strong R) - of_bool (0 < r_strong R'))) s'"
proof -
  have own: "owner_of s' = owner_of s" by (simp add: owner_of_def fun_eq_iff s')
  have hold: "holder_of s' = holder_of s" "target_of s' = target_of s"
    using R R' by (auto simp: holder_of_def target_of_def fun_eq_iff s')
  have hs: "holds_strong s' x = (if x = r then 0 < r_strong R' else holds_strong s x)" for x
    by (simp add: holds_strong_def s')
  show ?thesis
    unfolding graph_off_def
  proof (intro conjI allI impI)
    fix p P assume "procs s' p = Some P"
    then show "proc_graph_ok s' p P"
      using graph_offD(1) [OF g, of p P] by (simp add: proc_graph_ok_def own hold s')
  next
    fix m M assume "nodes s' m = Some M"
    then have M: "nodes s m = Some M" by (simp add: s')
    note ok = graph_offD(2) [OF g M]
    have len: "int (length (filter (holds_strong s') (n_refs M))) =
        int (length (filter (holds_strong s) (n_refs M))) +
        (if m = n then of_bool (0 < r_strong R') - of_bool (0 < r_strong R) else 0)"
    proof (cases "m = n")
      case False
      then have "r \<notin> set (n_refs M)" using ok R by (auto simp: node_graph_ok_def target_of_def)
      then have "filter (holds_strong s') (n_refs M) = filter (holds_strong s) (n_refs M)"
        by (intro filter_cong) (auto simp: hs)
      then show ?thesis using False by simp
    next
      case True
      then have r: "r \<in> set (n_refs M)" "distinct (n_refs M)"
        using ok R by (auto simp: node_graph_ok_def target_of_def)
      have "filter (holds_strong s') (remove1 r (n_refs M)) = filter (holds_strong s) (remove1 r (n_refs M))"
        using r(2) by (intro filter_cong) (auto simp: hs)
      moreover have "holds_strong s' r = (0 < r_strong R')" "holds_strong s r = (0 < r_strong R)"
        using R by (simp add: hs, simp add: holds_strong_def)
      ultimately show ?thesis
        using True filter_remove1_length [OF r(1), of "holds_strong s'"]
          filter_remove1_length [OF r(1), of "holds_strong s"] by (simp add: of_bool_def)
    qed
    then show "node_graph_ok s' ((d(n := d n + of_bool (0 < r_strong R) - of_bool (0 < r_strong R'))) m) m M"
      using ok by (auto simp: node_graph_ok_def hold s')
  next
    fix x X assume X: "refs s' x = Some X"
    have "ref_graph_ok s X"
    proof (cases "x = r")
      case True
      then show ?thesis using X graph_offD(3) [OF g R(1)] R' by (simp add: ref_graph_ok_def s')
    next
      case False
      then show ?thesis using X graph_offD(3) [OF g] by (simp add: s')
    qed
    then show "ref_graph_ok s' X" by (simp add: ref_graph_ok_def s')
  qed
qed

lemma graph_off_remove_ref:
  assumes g: "graph_off d s" and R: "refs s r = Some R" "r_node R = Some n"
    and P: "procs s (r_proc R) = Some P" and N: "nodes s n = Some N"
    and s': "procs s' = (procs s)(r_proc R \<mapsto> p_refs_update (remove1 r) P)"
      "nodes s' = (nodes s)(n \<mapsto> n_refs_update (remove1 r) N)" "refs s' = (refs s)(r := None)"
  shows "graph_off (d(n := d n + of_bool (0 < r_strong R))) s'"
proof -
  have own: "owner_of s' = owner_of s" using N by (auto simp: owner_of_def fun_eq_iff s')
  have hold: "holder_of s' x = (if x = r then None else holder_of s x)"
      "target_of s' x = (if x = r then None else target_of s x)"
      "holds_strong s' x = (x \<noteq> r \<and> holds_strong s x)" for x
    by (auto simp: holder_of_def target_of_def holds_strong_def s')
  have at: "holder_of s r = Some (r_proc R)" "target_of s r = Some n" "holds_strong s r = (0 < r_strong R)"
    using R by (simp_all add: holder_of_def target_of_def holds_strong_def)
  have dom: "procs s' p = None \<longleftrightarrow> procs s p = None" "nodes s' m = None \<longleftrightarrow> nodes s m = None" for p m
    using P N by (auto simp: s')
  show ?thesis
    unfolding graph_off_def
  proof (intro conjI allI impI)
    fix p Q assume Q: "procs s' p = Some Q"
    show "proc_graph_ok s' p Q"
    proof (cases "p = r_proc R")
      case True
      then show ?thesis
        using Q graph_offD(1) [OF g P] by (auto simp: proc_graph_ok_def own hold s')
    next
      case False
      then show ?thesis
        using Q graph_offD(1) [OF g, of p Q] at(1) by (auto simp: proc_graph_ok_def own hold s')
    qed
  next
    fix m M assume M: "nodes s' m = Some M"
    show "node_graph_ok s' ((d(n := d n + of_bool (0 < r_strong R))) m) m M"
    proof (cases "m = n")
      case True
      note ok = graph_offD(2) [OF g N]
      then have r: "r \<in> set (n_refs N)" "distinct (n_refs N)" using at by (auto simp: node_graph_ok_def)
      have "filter (holds_strong s') (remove1 r (n_refs N)) = filter (holds_strong s) (remove1 r (n_refs N))"
        using r(2) by (intro filter_cong) (auto simp: hold)
      then have "int (length (filter (holds_strong s) (n_refs N))) =
          int (length (filter (holds_strong s') (remove1 r (n_refs N)))) + of_bool (0 < r_strong R)"
        using filter_remove1_length [OF r(1), of "holds_strong s"] at(3) by simp
      then show ?thesis
        using True M ok dom by (auto simp: node_graph_ok_def hold s')
    next
      case False
      then have M': "nodes s m = Some M" using M by (simp add: s')
      note ok = graph_offD(2) [OF g M']
      have "r \<notin> set (n_refs M)" using ok at False by (auto simp: node_graph_ok_def)
      then have "filter (holds_strong s') (n_refs M) = filter (holds_strong s) (n_refs M)"
        by (intro filter_cong) (auto simp: hold)
      then show ?thesis using False ok at dom by (auto simp: node_graph_ok_def hold)
    qed
  next
    fix x X assume "refs s' x = Some X"
    then have "refs s x = Some X" by (simp add: s' split: if_splits)
    then show "ref_graph_ok s' X"
      by (intro ref_graph_ok_dom [OF graph_offD(3) [OF g]]) (simp_all add: dom)
  qed
qed

lemma graph_off_add_ref:
  assumes g: "graph_off d s" and r: "refs s r = None" and R: "r_node R = Some n" "r_strong R = 0" "r_weak R = 0"
    and P: "procs s (r_proc R) = Some P" and N: "nodes s n = Some N"
    and s': "procs s' = (procs s)(r_proc R \<mapsto> p_refs_update (\<lambda>rs. r # rs) P)"
      "nodes s' = (nodes s)(n \<mapsto> n_refs_update (\<lambda>rs. r # rs) N)" "refs s' = (refs s)(r \<mapsto> R)"
  shows "graph_off d s'"
proof -
  have own: "owner_of s' = owner_of s" using N by (auto simp: owner_of_def fun_eq_iff s')
  have hold: "holder_of s' x = (if x = r then Some (r_proc R) else holder_of s x)"
      "target_of s' x = (if x = r then Some n else target_of s x)"
      "holds_strong s' x = (x \<noteq> r \<and> holds_strong s x)" for x
    using R by (auto simp: holder_of_def target_of_def holds_strong_def s')
  have at: "holder_of s r = None" "target_of s r = None"
    using r by (simp_all add: holder_of_def target_of_def)
  have dom: "procs s' p = None \<longleftrightarrow> procs s p = None" "nodes s' m = None \<longleftrightarrow> nodes s m = None" for p m
    using P N by (auto simp: s')
  show ?thesis
    unfolding graph_off_def
  proof (intro conjI allI impI)
    fix p Q assume Q: "procs s' p = Some Q"
    show "proc_graph_ok s' p Q"
    proof (cases "p = r_proc R")
      case True
      then show ?thesis
        using Q graph_offD(1) [OF g P] at by (auto simp: proc_graph_ok_def own hold s')
    next
      case False
      then show ?thesis
        using Q graph_offD(1) [OF g, of p Q] at(1) by (auto simp: proc_graph_ok_def own hold s')
    qed
  next
    fix m M assume M: "nodes s' m = Some M"
    obtain M' where M': "nodes s m = Some M'" using M N by (auto simp: s' split: if_splits)
    note ok = graph_offD(2) [OF g M']
    have "r \<notin> set (n_refs M')" using ok at by (auto simp: node_graph_ok_def)
    then have "filter (holds_strong s') (n_refs M') = filter (holds_strong s) (n_refs M')"
      by (intro filter_cong) (auto simp: hold)
    then show "node_graph_ok s' (d m) m M"
      using M M' ok N at dom by (auto simp: node_graph_ok_def hold s' split: if_splits)
  next
    fix x X assume X: "refs s' x = Some X"
    show "ref_graph_ok s' X"
    proof (cases "x = r")
      case True
      then show ?thesis using X R P N by (auto simp: ref_graph_ok_def s')
    next
      case False
      then have "refs s x = Some X" using X by (simp add: s')
      then show ?thesis by (intro ref_graph_ok_dom [OF graph_offD(3) [OF g]]) (simp_all add: dom)
    qed
  qed
qed

end
