(* ===== verification/Binder_Handles.thy ===== *)
theory Binder_Handles
  imports Binder_Graph
begin

text \<open>
  Handles (\<^verbatim>\<open>kext/binder_node.c\<close>, "References"): every operation on a handle runs, keeps
  the invariant of \<open>Binder_Graph\<close> and changes exactly the handle it names; and how the number 0 comes to name two.
\<close>

section \<open>What stays\<close>

text \<open>Who there is: threads and processes, as far as the operations on nodes and
  handles leave them alone.\<close>

definition actors :: "binder_state \<Rightarrow> (addr \<Rightarrow> binder_thread option) \<times> (addr \<Rightarrow> (bool \<times> nat option) option)" where
  "actors s = (\<lambda>t. map_option thread_core (threads s t),
     \<lambda>p. map_option (\<lambda>P. (p_is_dead P, p_context P)) (procs s p))"

lemma actors_core: "actors (core s) = actors s"
proof -
  have "thread_core (thread_core T) = thread_core T" for T by (simp add: core_defs)
  moreover have "p_is_dead (proc_core P) = p_is_dead P" "p_context (proc_core P) = p_context P" for P
    by (simp_all add: proc_core_def)
  ultimately show ?thesis by (simp add: actors_def core_def option.map_comp comp_def)
qed

lemma core_actors: "core s' = core s \<Longrightarrow> actors s' = actors s"
  by (metis actors_core)

lemma actors_thread:
  assumes "actors s' = actors s" and "threads s t \<noteq> None"
  shows "threads s' t \<noteq> None"
proof -
  have "fst (actors s') t = fst (actors s) t" by (simp add: assms(1))
  then show ?thesis using assms(2) by (auto simp: actors_def)
qed

lemma actors_frame [simp]:
  "actors (s\<lparr>nodes := m\<rparr>) = actors s" "actors (s\<lparr>refs := l\<rparr>) = actors s"
  "actors (s\<lparr>deaths := k\<rparr>) = actors s" "actors (s\<lparr>stat_refs := i\<rparr>) = actors s"
  "actors (unlink_node n N s) = actors s"
  by (auto simp: actors_def unlink_node_frame fun_eq_iff option.map_comp comp_def
      split: option.splits)

lemma actors_proc [simp]:
  "procs s p = Some P \<Longrightarrow> p_is_dead P' = p_is_dead P \<Longrightarrow> p_context P' = p_context P \<Longrightarrow>
    actors (s\<lparr>procs := (procs s)(p \<mapsto> P')\<rparr>) = actors s"
  by (auto simp: actors_def fun_eq_iff)

text \<open>What an operation on nodes and handles may do to the rest: threads and processes
  stay, nothing is allocated, the nodes that remain are the nodes they were, and a
  context whose manager goes has none.\<close>

definition node_id :: "binder_node \<Rightarrow> addr option \<times> u64 \<times> u64 \<times> u32 \<times> bool \<times> bool" where
  "node_id N = (n_proc N, n_ptr N, n_cookie N, n_flags N, n_accept_fds N, n_is_dead N)"

definition ref_id :: "binder_ref \<Rightarrow> addr \<times> addr option \<times> u32" where
  "ref_id R = (r_proc R, r_node R, r_desc R)"

definition context_of :: "binder_state \<Rightarrow> addr \<Rightarrow> nat option" where
  "context_of s p = Option.bind (procs s p) p_context"

definition mgr_ok :: "binder_state \<Rightarrow> bool" where
  "mgr_ok s \<longleftrightarrow> (\<forall>c m. c_mgr_node (contexts s c) = Some m \<longrightarrow>
     (\<exists>p. owner_of s m = Some p \<and> context_of s p = Some c))"

definition shrinks :: "binder_state \<Rightarrow> binder_state \<Rightarrow> bool" where
  "shrinks s s' \<longleftrightarrow> actors s' = actors s \<and> clock s' = clock s \<and>
     dom (deaths s') \<subseteq> dom (deaths s) \<and>
     (\<forall>r R'. refs s' r = Some R' \<longrightarrow> (\<exists>R. refs s r = Some R \<and> ref_id R' = ref_id R)) \<and>
     (\<forall>n N'. nodes s' n = Some N' \<longrightarrow> (\<exists>N. nodes s n = Some N \<and> node_id N' = node_id N)) \<and>
     (mgr_ok s \<longrightarrow> mgr_ok s')"

lemma shrinks_refl [simp]: "shrinks s s"
  by (simp add: shrinks_def)

lemma shrinksD:
  assumes "shrinks s s'"
  shows "actors s' = actors s" "clock s' = clock s" "dom (deaths s') \<subseteq> dom (deaths s)"
    "refs s' r = Some R' \<Longrightarrow> \<exists>R. refs s r = Some R \<and> ref_id R' = ref_id R"
    "nodes s' n = Some N' \<Longrightarrow> \<exists>N. nodes s n = Some N \<and> node_id N' = node_id N"
    "mgr_ok s \<Longrightarrow> mgr_ok s'"
  using assms unfolding shrinks_def by blast+

lemma shrinks_trans [trans]:
  assumes a: "shrinks s s'" and b: "shrinks s' s''"
  shows "shrinks s s''"
proof -
  have "\<exists>R. refs s r = Some R \<and> ref_id R'' = ref_id R" if R'': "refs s'' r = Some R''" for r R''
  proof -
    obtain R' where R': "refs s' r = Some R'" "ref_id R'' = ref_id R'" using shrinksD(4) [OF b R''] by blast
    show ?thesis using shrinksD(4) [OF a R'(1)] R'(2) by simp
  qed
  moreover have "\<exists>N. nodes s n = Some N \<and> node_id N'' = node_id N" if N'': "nodes s'' n = Some N''" for n N''
  proof -
    obtain N' where N': "nodes s' n = Some N'" "node_id N'' = node_id N'" using shrinksD(5) [OF b N''] by blast
    show ?thesis using shrinksD(5) [OF a N'(1)] N'(2) by simp
  qed
  moreover have "dom (deaths s'') \<subseteq> dom (deaths s)" using shrinksD(3) [OF a] shrinksD(3) [OF b] by blast
  ultimately show ?thesis
    using shrinksD(6) [OF a] shrinksD(6) [OF b]
    by (simp add: shrinks_def shrinksD(1,2) [OF a] shrinksD(1,2) [OF b])
qed

lemma context_of_actors:
  assumes "actors s' = actors s"
  shows "context_of s' p = context_of s p"
proof -
  have "snd (actors s') p = snd (actors s) p" by (simp add: assms)
  then show ?thesis by (cases "procs s p"; cases "procs s' p") (auto simp: actors_def context_of_def)
qed

lemma mgr_ok_frame:
  assumes "mgr_ok s" and "contexts s' = contexts s" and "actors s' = actors s"
    and "\<And>m. owner_of s' m = owner_of s m"
  shows "mgr_ok s'"
  using assms(1) unfolding mgr_ok_def assms(2,4) context_of_actors [OF assms(3)] .

lemma core_shrinks:
  assumes c: "core s' = core s"
  shows "shrinks s s'"
proof -
  have "\<exists>N. nodes s n = Some N \<and> node_id N' = node_id N" if N': "nodes s' n = Some N'" for n N'
  proof -
    obtain N where N: "nodes s n = Some N" "node_core N' = node_core N"
      using core_nodeD [OF c N'] by blast
    then show ?thesis using node_coreD [OF N(2)] by (simp add: node_id_def)
  qed
  moreover have "dom (deaths s') \<subseteq> dom (deaths s)" by (simp add: dom_def core_dom(4) [OF c])
  ultimately show ?thesis
    using mgr_ok_frame [OF _ core_fields(2) [OF c] core_actors [OF c] core_owner_of [OF c]]
    by (simp add: shrinks_def core_actors [OF c] core_fields(1,3) [OF c])
qed

lemma contexts_unlink_node:
  "contexts (unlink_node n N s) =
     (case Option.bind (n_proc N) (context_of s) of
        None \<Rightarrow> contexts s
      | Some c \<Rightarrow> if c_mgr_node (contexts s c) = Some n
          then (contexts s)(c := c_mgr_node_update (\<lambda>_. None) (contexts s c)) else contexts s)"
  by (cases "n_proc N"; cases "procs s (the (n_proc N))")
    (auto simp: unlink_node_def drop_mgr_def context_of_def upd_context_def Let_def split: option.splits)

lemma unlink_shrinks:
  assumes N: "nodes s n = Some N"
  shows "shrinks s (unlink_node n N s)" (is "shrinks s ?s")
proof -
  have "mgr_ok ?s" if ok: "mgr_ok s"
    unfolding mgr_ok_def
  proof (intro allI impI)
    fix c m assume m: "c_mgr_node (contexts ?s c) = Some m"
    then have "c_mgr_node (contexts s c) = Some m"
      by (auto simp: contexts_unlink_node split: option.splits if_splits)
    then obtain p where p: "owner_of s m = Some p" "context_of s p = Some c"
      using ok by (auto simp: mgr_ok_def)
    have "m \<noteq> n"
    proof
      assume "m = n"
      then have "n_proc N = Some p" using p(1) N by (simp add: owner_of_def)
      then show False using m p(2) \<open>m = n\<close> by (auto simp: contexts_unlink_node split: if_splits)
    qed
    then have "owner_of ?s m = Some p" using p(1) by (simp add: owner_of_def unlink_node_frame)
    then show "\<exists>p. owner_of ?s m = Some p \<and> context_of ?s p = Some c"
      using p(2) context_of_actors [of ?s s p] by simp
  qed
  then show ?thesis by (auto simp: shrinks_def unlink_node_frame split: if_splits)
qed

lemma node_shrinks:
  assumes "nodes s n = Some N" and "node_id N' = node_id N"
  shows "shrinks s (s\<lparr>nodes := (nodes s)(n \<mapsto> N')\<rparr>)"
proof -
  have "owner_of (s\<lparr>nodes := (nodes s)(n \<mapsto> N')\<rparr>) m = owner_of s m" for m
    using assms by (auto simp: owner_of_def node_id_def)
  then show ?thesis
    using assms mgr_ok_frame [of s "s\<lparr>nodes := (nodes s)(n \<mapsto> N')\<rparr>"]
    by (auto simp: shrinks_def)
qed

lemma other_shrinks:
  assumes "nodes s' = nodes s" "contexts s' = contexts s" "clock s' = clock s" "actors s' = actors s"
    "dom (deaths s') \<subseteq> dom (deaths s)"
    "\<And>r R'. refs s' r = Some R' \<Longrightarrow> \<exists>R. refs s r = Some R \<and> ref_id R' = ref_id R"
  shows "shrinks s s'"
proof -
  have "owner_of s' m = owner_of s m" for m by (simp add: owner_of_def assms(1))
  then show ?thesis
    using assms mgr_ok_frame [of s s'] by (auto simp: shrinks_def)
qed

lemma ref_shrinks:
  "refs s r = Some R \<Longrightarrow> ref_id R' = ref_id R \<Longrightarrow> shrinks s (s\<lparr>refs := (refs s)(r \<mapsto> R')\<rparr>)"
  by (rule other_shrinks) (auto split: if_splits)

lemma update_refs_shrinks:
  assumes N: "nodes s n = Some N" and id: "node_id N' = node_id N"
    and fate: "core s' = core (s\<lparr>nodes := (nodes s)(n \<mapsto> N')\<rparr>) \<or>
      A \<and> core s' = core (unlink_node n N' (s\<lparr>nodes := (nodes s)(n \<mapsto> N')\<rparr>))"
  shows "shrinks s s'"
proof -
  let ?s1 = "s\<lparr>nodes := (nodes s)(n \<mapsto> N')\<rparr>"
  have 1: "shrinks s ?s1" by (rule node_shrinks [OF N id])
  have 2: "shrinks ?s1 (unlink_node n N' ?s1)" by (rule unlink_shrinks) simp
  from fate show ?thesis
  proof
    assume "core s' = core ?s1"
    from shrinks_trans [OF 1 core_shrinks [OF this]] show ?thesis .
  next
    assume "A \<and> core s' = core (unlink_node n N' ?s1)"
    then have "core s' = core (unlink_node n N' ?s1)" ..
    from shrinks_trans [OF shrinks_trans [OF 1 2] core_shrinks [OF this]] show ?thesis .
  qed
qed

lemma count_refs_id:
  assumes "count_refs st inc itn N = Some (e, N')"
  shows "node_id N' = node_id N"
  using assms by (auto simp: count_refs_def node_id_def bind_eq_Some_conv split: if_splits)

lemma dequeue_ok:
  assumes q: "queues_ok s" and w: "place s w \<noteq> None"
  shows "\<exists>s'. binder_dequeue_work w s = Some s' \<and> queues_ok s' \<and>
    place s' = (place s)(w := Some None) \<and> (\<forall>r. items s' r = map_option (remove1 w) (items s r))"
proof (cases "place s w = Some None")
  case True
  have "w \<notin> set ws" if "items s r = Some ws" for r ws
    using queues_okD(2) [OF q that, of w] True by auto
  then have "items s r = map_option (remove1 w) (items s r)" for r
    by (cases "items s r") (auto simp: remove1_idem)
  then show ?thesis using True q binder_dequeue_unqueued [OF True] by (auto simp: fun_upd_idem)
next
  case False
  then obtain r where r: "place s w = Some (Some r)" using w by auto
  then obtain ws where ws: "items s r = Some ws" "w \<in> set ws" using queues_okD(1) [OF q] by blast
  from binder_dequeue_effect [OF r ws] obtain s' where s': "binder_dequeue_work w s = Some s'"
      "items s' = (items s)(r := Some (remove1 w ws))" "place s' = (place s)(w := Some None)" by blast
  have "w \<notin> set vs" if "items s r' = Some vs" "r' \<noteq> r" for r' vs
    using queues_okD(2) [OF q that(1), of w] r that(2) by auto
  then have "items s' r' = map_option (remove1 w) (items s r')" for r'
    using ws by (cases "items s r'") (auto simp: s'(2) remove1_idem)
  then show ?thesis
    using s' queues_ok_on_deq [of "place s" "items s" w r ws] q r ws by (auto simp: queues_ok_def)
qed

lemma refs_inv_dequeue:
  assumes inv: "refs_inv d s" and w: "place s w \<noteq> None" "\<And>x. w \<noteq> TxnWork x"
    and s': "binder_dequeue_work w s = Some s'"
  shows "refs_inv d s'" "place s' w = Some None"
proof -
  have i: "graph_off d s" "queues_ok s" "async_ok s" "deaths_ok s" using inv by (auto simp: refs_inv_def)
  note c = core_dequeue [OF s']
  from dequeue_ok [OF i(2) w(1)] s' have q: "queues_ok s'" "place s' = (place s)(w := Some None)"
      "\<And>r. items s' r = map_option (remove1 w) (items s r)" by auto
  have t: "txns s' = txns s" using dequeue_txns [OF s'] w(2) by auto
  have "async_ok s'"
    unfolding async_ok_def
  proof (intro allI impI)
    fix n ws v assume "items s' (AsyncTodo n) = Some ws" "v \<in> set ws"
    then obtain vs where "items s (AsyncTodo n) = Some vs" "v \<in> set vs"
      using q(3) [of "AsyncTodo n"] by (auto dest: notin_set_remove1)
    then have "async_item_ok s v" using i(3) by (auto simp: async_ok_def)
    then show "async_item_ok s' v"
      by (simp add: async_item_ok_def t get_buffer_core [OF c])
  qed
  then show "refs_inv d s'"
    using q(1) graph_off_core [OF c i(1)] deaths_ok_core [OF c i(4)] by (simp add: refs_inv_def)
  show "place s' w = Some None" by (simp add: q(2))
qed

lemma refs_inv_ref:
  assumes inv: "refs_inv d s" and R: "refs s r = Some R" "r_node R = Some n"
    and R': "r_proc R' = r_proc R" "r_node R' = r_node R" "r_death R' = r_death R"
      "0 \<le> r_strong R'" "0 \<le> r_weak R'"
  shows "refs_inv (d(n := d n + of_bool (0 < r_strong R) - of_bool (0 < r_strong R')))
    (s\<lparr>refs := (refs s)(r \<mapsto> R')\<rparr>)"
proof -
  let ?s = "s\<lparr>refs := (refs s)(r \<mapsto> R')\<rparr>"
  have i: "graph_off d s" "queues_ok s" "async_ok s" "deaths_ok s" using inv by (auto simp: refs_inv_def)
  have "deaths_ok ?s"
    unfolding deaths_ok_def
  proof (intro allI impI)
    fix x X dd assume X: "refs ?s x = Some X" "r_death X = Some dd"
    have *: "\<exists>Y. refs s y = Some Y \<and> r_death Y = r_death Z" if "refs ?s y = Some Z" for y Z
      using that R R' by (auto split: if_splits)
    from * [OF X(1)] obtain Y where Y: "refs s x = Some Y" "r_death Y = Some dd" using X(2) by auto
    with i(4) have d: "deaths s dd \<noteq> None" "\<And>y Z. refs s y = Some Z \<Longrightarrow> r_death Z = Some dd \<Longrightarrow> y = x"
      unfolding deaths_ok_def by blast+
    show "deaths ?s dd \<noteq> None \<and>
        (\<forall>r' R''. refs ?s r' = Some R'' \<longrightarrow> r_death R'' = Some dd \<longrightarrow> r' = x)"
    proof (intro conjI allI impI)
      show "deaths ?s dd \<noteq> None" using d(1) by simp
    next
      fix y Z assume Z: "refs ?s y = Some Z" "r_death Z = Some dd"
      from * [OF Z(1)] obtain Y' where "refs s y = Some Y'" "r_death Y' = Some dd" using Z(2) by auto
      then show "y = x" by (rule d(2))
    qed
  qed
  then show ?thesis
    using graph_off_ref [OF i(1) R, of ?s R'] R' work_frame [of ?s s] i
    by (simp add: refs_inv_def)
qed

section \<open>Dropping a handle\<close>

lemma refs_invD:
  assumes "refs_inv d s"
  shows "graph_off d s" "queues_ok s" "async_ok s" "deaths_ok s"
  using assms by (auto simp: refs_inv_def)

lemma work_frame_deaths [simp]:
  "items (s\<lparr>deaths := m\<rparr>) = items s"
  "get_buffer p b (s\<lparr>deaths := m\<rparr>) = get_buffer p b s"
  "place (s\<lparr>deaths := (deaths s)(e := None)\<rparr>) = (place s)(DeathWork e := None)"
  by (auto simp: items_def place_def get_queue_def get_work_def get_buffer_def fun_eq_iff
      split: work_head.splits work_ptr.splits)

text \<open>The death notification goes first.\<close>

lemma drop_death_ok:
  assumes inv: "refs_inv d s" and R: "refs s r = Some R"
  shows "\<exists>s1. (case r_death R of
             None \<Rightarrow> Some s
           | Some d \<Rightarrow> do {
               s \<leftarrow> binder_dequeue_work (DeathWork d) s;
               upd_ref r (r_death_update (\<lambda>_. None)) (s\<lparr>deaths := (deaths s)(d := None)\<rparr>) }) = Some s1 \<and>
    refs_inv d s1 \<and> refs s1 = (refs s)(r \<mapsto> R\<lparr>r_death := None\<rparr>) \<and> shrinks s s1"
proof (cases "r_death R")
  case None
  then have "(refs s)(r \<mapsto> R\<lparr>r_death := None\<rparr>) = refs s" using R by (cases R) (auto simp: fun_upd_idem)
  then show ?thesis using None inv by simp
next
  case (Some dd)
  have i: "graph_off d s" "queues_ok s" "async_ok s" "deaths_ok s" using inv by (auto simp: refs_inv_def)
  have dd: "deaths s dd \<noteq> None" "\<And>y Y. refs s y = Some Y \<Longrightarrow> r_death Y = Some dd \<Longrightarrow> y = r"
    using i(4) R Some unfolding deaths_ok_def by blast+
  have pl: "place s (DeathWork dd) \<noteq> None" using dd(1) by (simp add: place_def get_work_def)
  from dequeue_ok [OF i(2) pl] obtain s0 where s0: "binder_dequeue_work (DeathWork dd) s = Some s0" by blast
  note inv0 = refs_inv_dequeue [OF inv pl _ s0, simplified]
  note c = core_dequeue [OF s0]
  have R0: "refs s0 r = Some R" using R by (simp add: core_fields(1) [OF c])
  let ?s1 = "s0\<lparr>deaths := (deaths s0)(dd := None), refs := (refs s)(r \<mapsto> R\<lparr>r_death := None\<rparr>)\<rparr>"
  have j: "graph_off d s0" "queues_ok s0" "async_ok s0" "deaths_ok s0" using inv0(1) by (auto simp: refs_inv_def)
  obtain n where n: "r_node R = Some n" "0 \<le> r_strong R" "0 \<le> r_weak R"
    using graph_offD(3) [OF i(1) R] by (auto simp: ref_graph_ok_def)
  have "graph_off d ?s1"
    using graph_off_ref [OF j(1) R0 n(1), of ?s1 "R\<lparr>r_death := None\<rparr>"] n
    by (simp add: core_fields(1) [OF c])
  moreover have "queues_ok ?s1"
    by (rule queues_ok_same_held [OF j(2)]) (auto simp: inv0(2))
  moreover have "async_ok ?s1" using j(3) by (simp add: async_ok_def async_item_ok_def)
  moreover have "deaths_ok ?s1"
    unfolding deaths_ok_def
  proof (intro allI impI)
    fix x X e assume X: "refs ?s1 x = Some X" "r_death X = Some e"
    have *: "refs s y = Some Z \<and> y \<noteq> r" if "refs ?s1 y = Some Z" "r_death Z = Some e" for y Z
      using that by (auto split: if_splits)
    from * [OF X] have x: "refs s x = Some X" "x \<noteq> r" by auto
    have e: "e \<noteq> dd" using dd(2) x X(2) by blast
    have u: "deaths s e \<noteq> None" "\<And>y Z. refs s y = Some Z \<Longrightarrow> r_death Z = Some e \<Longrightarrow> y = x"
      using i(4) x(1) X(2) unfolding deaths_ok_def by blast+
    show "deaths ?s1 e \<noteq> None \<and> (\<forall>y Z. refs ?s1 y = Some Z \<longrightarrow> r_death Z = Some e \<longrightarrow> y = x)"
    proof (intro conjI allI impI)
      show "deaths ?s1 e \<noteq> None" using e u(1) core_dom(4) [OF c, of e] by simp
    next
      fix y Z assume Z: "refs ?s1 y = Some Z" "r_death Z = Some e"
      then show "y = x" using * [OF Z] u(2) by blast
    qed
  qed
  ultimately have "refs_inv d ?s1" by (simp add: refs_inv_def)
  moreover have "shrinks s ?s1"
    by (rule shrinks_trans [OF core_shrinks [OF c] other_shrinks])
      (use R in \<open>auto simp: core_fields(1) [OF c] ref_id_def split: if_splits\<close>)
  moreover have "upd_ref r (r_death_update (\<lambda>_. None)) (s0\<lparr>deaths := (deaths s0)(dd := None)\<rparr>) = Some ?s1"
    using R by (simp add: upd_ref_def core_fields(1) [OF c])
  ultimately show ?thesis using Some s0 by simp
qed

lemma remove_ref_inv:
  assumes inv: "refs_inv d s" and R: "refs s r = Some R" "r_node R = Some n" "r_death R = None"
    and P: "procs s (r_proc R) = Some P" and N: "nodes s n = Some N"
  shows "refs_inv (d(n := d n + of_bool (0 < r_strong R)))
    (s\<lparr>procs := (procs s)(r_proc R \<mapsto> p_refs_update (remove1 r) P),
       nodes := (nodes s)(n \<mapsto> n_refs_update (remove1 r) N),
       refs := (refs s)(r := None), stat_refs := stat_refs s - 1\<rparr>)" (is "refs_inv ?d ?s")
proof -
  have i: "graph_off d s" "queues_ok s" "async_ok s" "deaths_ok s" using inv by (auto simp: refs_inv_def)
  let ?p = "s\<lparr>procs := (procs s)(r_proc R \<mapsto> p_refs_update (remove1 r) P)\<rparr>"
  let ?n = "?p\<lparr>nodes := (nodes ?p)(n \<mapsto> n_refs_update (remove1 r) N)\<rparr>"
  have eq: "?s = ?n\<lparr>refs := (refs s)(r := None), stat_refs := stat_refs s - 1\<rparr>" by simp
  note fp = work_frame_proc [of s "r_proc R" P "p_refs_update (remove1 r) P", OF P, simplified]
  note fn = work_frame_node [of ?p n N "n_refs_update (remove1 r) N", simplified, OF N, simplified]
  have w: "items ?s = items s" "place ?s = place s" "\<And>p b. get_buffer p b ?s = get_buffer p b s"
    unfolding eq by (simp_all add: fp fn)
  have "deaths_ok ?s"
    unfolding deaths_ok_def
  proof (intro allI impI)
    fix x X e assume X: "refs ?s x = Some X" "r_death X = Some e"
    have *: "refs s y = Some Z" if "refs ?s y = Some Z" for y Z
      using that by (auto split: if_splits)
    have u: "deaths s e \<noteq> None" "\<And>y Z. refs s y = Some Z \<Longrightarrow> r_death Z = Some e \<Longrightarrow> y = x"
      using i(4) * [OF X(1)] X(2) unfolding deaths_ok_def by blast+
    show "deaths ?s e \<noteq> None \<and> (\<forall>y Z. refs ?s y = Some Z \<longrightarrow> r_death Z = Some e \<longrightarrow> y = x)"
    proof (intro conjI allI impI)
      show "deaths ?s e \<noteq> None" using u(1) by simp
    next
      fix y Z assume Z: "refs ?s y = Some Z" "r_death Z = Some e"
      then show "y = x" using * [OF Z(1)] u(2) by blast
    qed
  qed
  moreover have "graph_off ?d ?s" by (rule graph_off_remove_ref [OF i(1) R(1,2) P N]) simp_all
  moreover have "queues_ok ?s" "async_ok ?s"
    using work_frame [OF w(1,2) _ _ i(2,3)] w(3) by simp_all
  ultimately show ?thesis by (simp add: refs_inv_def)
qed

text \<open>Deleting a handle gives back exactly what it held.\<close>

lemma ref_delete_ok:
  assumes inv: "refs_inv d s" and R: "refs s r = Some R"
    and d: "\<And>n. r_node R = Some n \<Longrightarrow> 0 \<le> d n"
  shows "\<exists>s'. binder_ref_delete r s = Some s' \<and> refs_inv d s' \<and> refs s' = (refs s)(r := None) \<and>
    shrinks s s'"
proof -
  obtain n where n: "r_node R = Some n" using inv R graph_offD(3) [of d s r R]
    by (auto simp: refs_inv_def ref_graph_ok_def)
  from drop_death_ok [OF inv R] obtain s1 where s1: "(case r_death R of
             None \<Rightarrow> Some s
           | Some d \<Rightarrow> do {
               s \<leftarrow> binder_dequeue_work (DeathWork d) s;
               upd_ref r (r_death_update (\<lambda>_. None)) (s\<lparr>deaths := (deaths s)(d := None)\<rparr>) }) = Some s1"
      "refs_inv d s1" "refs s1 = (refs s)(r \<mapsto> R\<lparr>r_death := None\<rparr>)" "shrinks s s1" by blast
  let ?R = "R\<lparr>r_death := None\<rparr>"
  have R1: "refs s1 r = Some ?R" "r_node ?R = Some n" "r_death ?R = None" using n by (simp_all add: s1(3))
  have "ref_graph_ok s1 ?R" by (rule graph_offD(3) [OF refs_invD(1) [OF s1(2)] R1(1)])
  then obtain P N where P: "procs s1 (r_proc ?R) = Some P" and N: "nodes s1 n = Some N"
    using n by (auto simp: ref_graph_ok_def)
  let ?s2 = "s1\<lparr>procs := (procs s1)(r_proc ?R \<mapsto> p_refs_update (remove1 r) P),
       nodes := (nodes s1)(n \<mapsto> n_refs_update (remove1 r) N),
       refs := (refs s1)(r := None), stat_refs := stat_refs s1 - 1\<rparr>"
  let ?d = "d(n := d n + of_bool (0 < r_strong R))"
  have inv2: "refs_inv ?d ?s2" using remove_ref_inv [OF s1(2) R1 P N] by simp
  let ?N = "n_refs_update (remove1 r) N"
  have N2: "nodes ?s2 n = Some ?N" by simp
  have ok: "node_graph_ok ?s2 (?d n) n ?N" by (rule graph_offD(2) [OF refs_invD(1) [OF inv2] N2])
  have "\<exists>N'. count_refs (0 < r_strong R) False True ?N = Some (OK, N')"
  proof (cases "0 < r_strong R")
    case True
    then have "0 < n_internal_strong_refs ?N" using ok d [OF n] by (simp add: node_graph_ok_def)
    then show ?thesis using True by (simp add: count_refs_def int_dec_eq)
  qed (simp add: count_refs_def)
  then obtain N' where c: "count_refs (0 < r_strong R) False True ?N = Some (OK, N')" by blast
  from update_refs_ok [OF inv2 N2 _ c, of None] obtain s3 where s3:
      "binder_node_update_refs n (0 < r_strong R) False True None ?s2 = Some (OK, s3)"
      "refs s3 = refs ?s2" "refs_inv (?d(n := ?d n + strong_delta (0 < r_strong R) False True)) s3"
      "core s3 = core (?s2\<lparr>nodes := (nodes ?s2)(n \<mapsto> N')\<rparr>) \<or>
       \<not> binder_node_has_weak N' \<and>
       core s3 = core (unlink_node n N' (?s2\<lparr>nodes := (nodes ?s2)(n \<mapsto> N')\<rparr>))" by auto
  have "?d(n := ?d n + strong_delta (0 < r_strong R) False True) = d"
    by (simp add: strong_delta_def)
  then have "refs_inv d s3" using s3(3) by simp
  moreover have "shrinks s s3"
  proof -
    let ?p = "s1\<lparr>procs := (procs s1)(r_proc ?R \<mapsto> p_refs_update (remove1 r) P)\<rparr>"
    let ?n = "?p\<lparr>nodes := (nodes ?p)(n \<mapsto> n_refs_update (remove1 r) N)\<rparr>"
    have "actors ?p = actors s1"
      using actors_proc [OF P, of "p_refs_update (remove1 r) P"] by simp
    then have "shrinks s1 ?p" by (intro other_shrinks) auto
    moreover have "shrinks ?p ?n" by (rule node_shrinks) (simp_all add: N node_id_def)
    moreover have "shrinks ?n ?s2" by (rule other_shrinks) (auto split: if_splits)
    ultimately have "shrinks s ?s2" using s1(4) by (blast intro: shrinks_trans)
    then show ?thesis
      by (rule shrinks_trans [OF _ update_refs_shrinks [OF N2 count_refs_id [OF c] s3(4)]])
  qed
  moreover have "refs s3 = (refs s)(r := None)" using s3(2) by (simp add: s1(3))
  moreover have "binder_ref_delete r s = Some s3"
    using R n s1(1) P N s3(1) by (simp add: binder_ref_delete_def upd_proc_def upd_node_def)
  ultimately show ?thesis by blast
qed

section \<open>Counting a handle\<close>

text \<open>The strong count of a handle crosses 0, and its node hears of it.\<close>

lemma node_acquire:
  assumes inv: "refs_inv d s" and R: "refs s r = Some R" "r_node R = Some n" and d: "0 \<le> d n"
    and th: "\<And>t. th = Some t \<Longrightarrow> threads s t \<noteq> None"
    and ub: "\<And>N. nodes s n = Some N \<Longrightarrow> n_internal_strong_refs N < int_max"
  shows "\<exists>s'. binder_node_update_refs n True True True th s = Some (OK, s') \<and>
    refs_inv (d(n := d n + 1)) s' \<and> refs s' = refs s \<and> shrinks s s'"
proof -
  obtain N where N: "nodes s n = Some N"
    using graph_offD(3) [OF refs_invD(1) [OF inv] R(1)] R(2) by (auto simp: ref_graph_ok_def)
  have c: "count_refs True True True N =
      Some (OK, N\<lparr>n_internal_strong_refs := n_internal_strong_refs N + 1\<rparr>)"
    using ub [OF N] by (simp add: count_refs_def int_inc_eq)
  from update_refs_ok [OF inv N th c] obtain s' where s':
      "binder_node_update_refs n True True True th s = Some (OK, s')" "refs s' = refs s"
      "refs_inv (d(n := d n + strong_delta True True True)) s'"
      "core s' = core (s\<lparr>nodes := (nodes s)(n \<mapsto> N\<lparr>n_internal_strong_refs := n_internal_strong_refs N + 1\<rparr>)\<rparr>) \<or>
       \<not> binder_node_has_weak (N\<lparr>n_internal_strong_refs := n_internal_strong_refs N + 1\<rparr>) \<and>
       core s' = core (unlink_node n (N\<lparr>n_internal_strong_refs := n_internal_strong_refs N + 1\<rparr>)
         (s\<lparr>nodes := (nodes s)(n \<mapsto> N\<lparr>n_internal_strong_refs := n_internal_strong_refs N + 1\<rparr>)\<rparr>))"
    by auto
  then show ?thesis
    using update_refs_shrinks [OF N count_refs_id [OF c] s'(4)] by (simp add: strong_delta_def)
qed

lemma node_let_go:
  assumes inv: "refs_inv d s" and R: "refs s r = Some R" "r_node R = Some n" and d: "0 < d n"
    and th: "\<And>t. th = Some t \<Longrightarrow> threads s t \<noteq> None"
  shows "\<exists>s'. binder_node_update_refs n True False True th s = Some (OK, s') \<and>
    refs_inv (d(n := d n - 1)) s' \<and> refs s' = refs s \<and> shrinks s s'"
proof -
  obtain N where N: "nodes s n = Some N"
    using graph_offD(3) [OF refs_invD(1) [OF inv] R(1)] R(2) by (auto simp: ref_graph_ok_def)
  have "0 < n_internal_strong_refs N"
    using graph_offD(2) [OF refs_invD(1) [OF inv] N] d by (simp add: node_graph_ok_def)
  then have c: "count_refs True False True N =
      Some (OK, N\<lparr>n_internal_strong_refs := n_internal_strong_refs N - 1\<rparr>)"
    by (simp add: count_refs_def int_dec_eq)
  from update_refs_ok [OF inv N th c] obtain s' where s':
      "binder_node_update_refs n True False True th s = Some (OK, s')" "refs s' = refs s"
      "refs_inv (d(n := d n + strong_delta True False True)) s'"
      "core s' = core (s\<lparr>nodes := (nodes s)(n \<mapsto> N\<lparr>n_internal_strong_refs := n_internal_strong_refs N - 1\<rparr>)\<rparr>) \<or>
       \<not> binder_node_has_weak (N\<lparr>n_internal_strong_refs := n_internal_strong_refs N - 1\<rparr>) \<and>
       core s' = core (unlink_node n (N\<lparr>n_internal_strong_refs := n_internal_strong_refs N - 1\<rparr>)
         (s\<lparr>nodes := (nodes s)(n \<mapsto> N\<lparr>n_internal_strong_refs := n_internal_strong_refs N - 1\<rparr>)\<rparr>))"
    by auto
  then show ?thesis
    using update_refs_shrinks [OF N count_refs_id [OF c] s'(4)] by (simp add: strong_delta_def)
qed

text \<open>The handle after its count was raised or lowered; it goes with its last count.\<close>

definition ref_after :: "bool \<Rightarrow> bool \<Rightarrow> binder_ref \<Rightarrow> binder_ref option" where
  "ref_after strong increment R =
     (let i = (if increment then 1 else - 1);
          R' = (if strong then R\<lparr>r_strong := r_strong R + i\<rparr> else R\<lparr>r_weak := r_weak R + i\<rparr>) in
      if r_strong R' = 0 \<and> r_weak R' = 0 then None else Some R')"

text \<open>The last step of \<open>binder_ref_update\<close>.\<close>

lemma drop_if_unused:
  assumes inv: "refs_inv d s" and R: "refs s r = Some R"
    and d: "\<And>n. r_node R = Some n \<Longrightarrow> 0 \<le> d n"
  shows "\<exists>s'. (if r_strong R = 0 \<and> r_weak R = 0 then binder_ref_delete r s else Some s) = Some s' \<and>
    refs_inv d s' \<and> shrinks s s' \<and>
    refs s' = (refs s)(r := if r_strong R = 0 \<and> r_weak R = 0 then None else Some R)"
  using ref_delete_ok [OF inv R d] inv R by (auto simp: fun_upd_idem)

text \<open>The step before it: the counts are those of \<open>R'\<close> and the graph is in order.\<close>

definition counts_to ::
    "(addr \<Rightarrow> int) \<Rightarrow> addr \<Rightarrow> bool \<Rightarrow> bool \<Rightarrow> addr option \<Rightarrow> binder_state \<Rightarrow> binder_ref \<Rightarrow> bool" where
  "counts_to d r strong increment th s R' \<longleftrightarrow>
     (\<exists>s1. refs_inv d s1 \<and> refs s1 = (refs s)(r \<mapsto> R') \<and> shrinks s s1 \<and>
       (\<forall>s'. (if r_strong R' = 0 \<and> r_weak R' = 0 then binder_ref_delete r s1 else Some s1) = Some s' \<longrightarrow>
         binder_ref_update r strong increment th s = Some (OK, s')))"

lemma counts_weak:
  assumes inv: "refs_inv d s" and R: "refs s r = Some R" "r_node R = Some n"
    and pos: "0 \<le> r_strong R" "0 \<le> r_weak R"
    and ub: "if increment then r_weak R < int_max else r_weak R \<noteq> 0"
  shows "counts_to d r False increment th s
    (R\<lparr>r_weak := r_weak R + (if increment then 1 else - 1)\<rparr>)" (is "counts_to _ _ _ _ _ _ ?R")
proof -
  let ?s1 = "s\<lparr>refs := (refs s)(r \<mapsto> ?R)\<rparr>"
  have "refs_inv d ?s1" using refs_inv_ref [OF inv R, of ?R] pos ub by (auto split: if_splits)
  moreover have "shrinks s ?s1" by (rule ref_shrinks [OF R(1)]) (simp add: ref_id_def)
  ultimately show ?thesis
    unfolding counts_to_def using R ub pos
    by (intro exI [of _ ?s1])
      (auto simp: binder_ref_update_def upd_ref_def int_inc_eq int_dec_eq split: if_splits)
qed

lemma counts_acquire:
  assumes inv: "refs_inv d s" and R: "refs s r = Some R" "r_node R = Some n" and d: "0 \<le> d n"
    and pos: "0 \<le> r_strong R" "0 \<le> r_weak R"
    and th: "\<And>t. th = Some t \<Longrightarrow> threads s t \<noteq> None"
    and ub: "r_strong R < int_max"
      "\<And>N. nodes s n = Some N \<Longrightarrow> n_internal_strong_refs N < int_max"
  shows "counts_to d r True True th s (R\<lparr>r_strong := r_strong R + 1\<rparr>)" (is "counts_to _ _ _ _ _ _ ?R")
proof (cases "r_strong R = 0")
  case True
  obtain s0 where s0: "binder_node_update_refs n True True True th s = Some (OK, s0)"
      "refs_inv (d(n := d n + 1)) s0" "refs s0 = refs s" "shrinks s s0"
    using node_acquire [OF inv R d th ub(2)] by blast
  let ?s1 = "s0\<lparr>refs := (refs s)(r \<mapsto> ?R)\<rparr>"
  have "refs_inv d ?s1" using refs_inv_ref [OF s0(2), of r R n ?R] R pos True by (simp add: s0(3))
  moreover have "shrinks s ?s1"
    using shrinks_trans [OF s0(4) ref_shrinks [of s0 r R ?R]] R(1) by (simp add: s0(3) ref_id_def)
  ultimately show ?thesis
    unfolding counts_to_def using R s0 True
    by (intro exI [of _ ?s1]) (simp add: binder_ref_update_def upd_ref_def int_inc_eq int_max_def)
next
  case False
  let ?s1 = "s\<lparr>refs := (refs s)(r \<mapsto> ?R)\<rparr>"
  have "refs_inv d ?s1" using refs_inv_ref [OF inv R, of ?R] pos False by simp
  moreover have "shrinks s ?s1" by (rule ref_shrinks [OF R(1)]) (simp add: ref_id_def)
  ultimately show ?thesis
    unfolding counts_to_def using R ub(1) False pos
    by (intro exI [of _ ?s1]) (auto simp: binder_ref_update_def upd_ref_def int_inc_eq)
qed

lemma counts_release:
  assumes inv: "refs_inv d s" and R: "refs s r = Some R" "r_node R = Some n" and d: "0 \<le> d n"
    and pos: "0 < r_strong R" "0 \<le> r_weak R"
    and th: "\<And>t. th = Some t \<Longrightarrow> threads s t \<noteq> None"
  shows "counts_to d r True False th s (R\<lparr>r_strong := r_strong R - 1\<rparr>)" (is "counts_to _ _ _ _ _ _ ?R")
proof -
  let ?s0 = "s\<lparr>refs := (refs s)(r \<mapsto> ?R)\<rparr>"
  show ?thesis
  proof (cases "r_strong R = 1")
    case True
    have "refs_inv (d(n := d n + 1)) ?s0" using refs_inv_ref [OF inv R, of ?R] pos True by simp
    from node_let_go [OF this, of r ?R n th] obtain s1 where
        s1: "binder_node_update_refs n True False True th ?s0 = Some (OK, s1)"
          "refs_inv d s1" "refs s1 = refs ?s0" "shrinks ?s0 s1"
      using R d th by auto
    moreover have "shrinks s s1" by (rule shrinks_trans [OF ref_shrinks [OF R(1)] s1(4)]) (simp add: ref_id_def)
    ultimately show ?thesis
      unfolding counts_to_def using R True
      by (intro exI [of _ s1]) (simp add: binder_ref_update_def upd_ref_def int_dec_eq)
  next
    case False
    have "refs_inv d ?s0" using refs_inv_ref [OF inv R, of ?R] pos False by simp
    moreover have "shrinks s ?s0" by (rule ref_shrinks [OF R(1)]) (simp add: ref_id_def)
    ultimately show ?thesis
      unfolding counts_to_def using R False pos
      by (intro exI [of _ ?s0]) (auto simp: binder_ref_update_def upd_ref_def int_dec_eq)
  qed
qed

lemma ref_update_ok:
  assumes inv: "refs_inv d s" and R: "refs s r = Some R"
    and d: "\<And>n. r_node R = Some n \<Longrightarrow> 0 \<le> d n"
    and th: "\<And>t. th = Some t \<Longrightarrow> threads s t \<noteq> None"
    and ub: "increment \<Longrightarrow> (if strong then r_strong R else r_weak R) < int_max"
      "\<And>n N. increment \<Longrightarrow> strong \<Longrightarrow> r_node R = Some n \<Longrightarrow> nodes s n = Some N \<Longrightarrow>
        n_internal_strong_refs N < int_max"
  shows "\<exists>e s'. binder_ref_update r strong increment th s = Some (e, s') \<and> refs_inv d s' \<and>
    shrinks s s' \<and>
    (if \<not> increment \<and> (if strong then r_strong R else r_weak R) = 0 then e = EINVAL \<and> s' = s
     else e = OK \<and> refs s' = (refs s)(r := ref_after strong increment R))"
proof (cases "\<not> increment \<and> (if strong then r_strong R else r_weak R) = 0")
  case True
  then show ?thesis using R inv by (auto simp: binder_ref_update_def split: if_splits)
next
  case False
  obtain n where n: "r_node R = Some n" and pos: "0 \<le> r_strong R" "0 \<le> r_weak R"
    using graph_offD(3) [OF refs_invD(1) [OF inv] R] by (auto simp: ref_graph_ok_def)
  let ?i = "if increment then 1 else - 1 :: int"
  let ?R = "if strong then R\<lparr>r_strong := r_strong R + ?i\<rparr> else R\<lparr>r_weak := r_weak R + ?i\<rparr>"
  have "counts_to d r strong increment th s ?R"
  proof (cases strong)
    case True
    then show ?thesis
      using counts_acquire [OF inv R n d [OF n] pos th _ ub(2) [OF _ _ n]] ub(1) False
        counts_release [OF inv R n d [OF n] _ pos(2) th] pos by (cases increment) auto
  next
    case strong: False
    then show ?thesis using counts_weak [OF inv R n pos, of increment th] ub(1) False by auto
  qed
  then obtain s1 where s1: "refs_inv d s1" "refs s1 = (refs s)(r \<mapsto> ?R)" "shrinks s s1"
    and run: "\<And>s'. (if r_strong ?R = 0 \<and> r_weak ?R = 0 then binder_ref_delete r s1 else Some s1) = Some s' \<Longrightarrow>
      binder_ref_update r strong increment th s = Some (OK, s')" unfolding counts_to_def by blast
  have "refs s1 r = Some ?R" by (simp add: s1(2))
  moreover have "0 \<le> d m" if "r_node ?R = Some m" for m using that d by (auto split: if_splits)
  ultimately obtain s' where s': "(if r_strong ?R = 0 \<and> r_weak ?R = 0 then binder_ref_delete r s1 else Some s1) = Some s'"
      "refs_inv d s'" "shrinks s1 s'"
      "refs s' = (refs s1)(r := if r_strong ?R = 0 \<and> r_weak ?R = 0 then None else Some ?R)"
    using drop_if_unused [OF s1(1), of r ?R] by blast
  have "refs s' = (refs s)(r := ref_after strong increment R)"
    unfolding s'(4) s1(2) fun_upd_upd by (simp add: ref_after_def Let_def)
  then show ?thesis using run [OF s'(1)] s'(2) shrinks_trans [OF s1(3) s'(3)] False by auto
qed

section \<open>Looking a handle up\<close>

definition desc_used :: "binder_state \<Rightarrow> addr \<Rightarrow> u32 \<Rightarrow> bool" where
  "desc_used s p desc \<longleftrightarrow> (\<exists>r R. refs s r = Some R \<and> r_proc R = p \<and> r_desc R = desc)"

lemma desc_find_loop_spec:
  assumes "\<And>r. r \<in> set rs \<Longrightarrow> refs s r \<noteq> None"
  shows "\<exists>found. desc_find_loop desc rs s = Some found \<and>
    (case found of
       None \<Rightarrow> \<forall>r R. r \<in> set rs \<longrightarrow> refs s r = Some R \<longrightarrow> r_desc R \<noteq> desc
     | Some r \<Rightarrow> r \<in> set rs \<and> (\<exists>R. refs s r = Some R \<and> r_desc R = desc))"
  using assms
proof (induction rs)
  case (Cons r rs)
  then obtain R where R: "refs s r = Some R" by (metis list.set_intros(1) not_None_eq)
  show ?case
  proof (cases "r_desc R = desc")
    case False
    with Cons R show ?thesis by (fastforce split: option.splits)
  qed (use R in auto)
qed simp

lemma ref_find_loop_spec:
  assumes "\<And>r. r \<in> set rs \<Longrightarrow> refs s r \<noteq> None"
  shows "\<exists>found. ref_find_loop n rs s = Some found \<and>
    (case found of
       None \<Rightarrow> \<forall>r R. r \<in> set rs \<longrightarrow> refs s r = Some R \<longrightarrow> r_node R \<noteq> Some n
     | Some r \<Rightarrow> r \<in> set rs \<and> (\<exists>R. refs s r = Some R \<and> r_node R = Some n))"
  using assms
proof (induction rs)
  case (Cons r rs)
  then obtain R where R: "refs s r = Some R" by (metis list.set_intros(1) not_None_eq)
  show ?case
  proof (cases "r_node R = Some n")
    case False
    with Cons R show ?thesis by (fastforce split: option.splits)
  qed (use R in auto)
qed simp

lemma proc_refs_exist:
  assumes "graph_off d s" and "procs s p = Some P"
  shows "r \<in> set (p_refs P) \<longleftrightarrow> (\<exists>R. refs s r = Some R \<and> r_proc R = p)"
  using graph_offD(1) [OF assms] by (auto simp: proc_graph_ok_def holder_of_def)

lemma find_by_desc_spec:
  assumes g: "graph_off d s" and P: "procs s p = Some P"
  shows "\<exists>found. binder_ref_find_by_desc p desc s = Some found \<and>
    (case found of None \<Rightarrow> \<not> desc_used s p desc
     | Some r \<Rightarrow> \<exists>R. refs s r = Some R \<and> r_proc R = p \<and> r_desc R = desc)"
proof -
  note mem = proc_refs_exist [OF g P]
  obtain found where f: "desc_find_loop desc (p_refs P) s = Some found"
    "case found of
       None \<Rightarrow> \<forall>r R. r \<in> set (p_refs P) \<longrightarrow> refs s r = Some R \<longrightarrow> r_desc R \<noteq> desc
     | Some r \<Rightarrow> r \<in> set (p_refs P) \<and> (\<exists>R. refs s r = Some R \<and> r_desc R = desc)"
    using desc_find_loop_spec [of "p_refs P" s desc] mem by blast
  then have "case found of None \<Rightarrow> \<not> desc_used s p desc
     | Some r \<Rightarrow> \<exists>R. refs s r = Some R \<and> r_proc R = p \<and> r_desc R = desc"
    using mem by (cases found) (auto simp: desc_used_def)
  then show ?thesis using f(1) P by (simp add: binder_ref_find_by_desc_def)
qed

lemma find_for_node_spec:
  assumes g: "graph_off d s" and P: "procs s p = Some P"
  shows "\<exists>found. binder_ref_find_for_node p n s = Some found \<and>
    (case found of None \<Rightarrow> \<forall>r R. refs s r = Some R \<longrightarrow> r_proc R = p \<longrightarrow> r_node R \<noteq> Some n
     | Some r \<Rightarrow> \<exists>R. refs s r = Some R \<and> r_proc R = p \<and> r_node R = Some n)"
proof -
  note mem = proc_refs_exist [OF g P]
  obtain found where f: "ref_find_loop n (p_refs P) s = Some found"
    "case found of
       None \<Rightarrow> \<forall>r R. r \<in> set (p_refs P) \<longrightarrow> refs s r = Some R \<longrightarrow> r_node R \<noteq> Some n
     | Some r \<Rightarrow> r \<in> set (p_refs P) \<and> (\<exists>R. refs s r = Some R \<and> r_node R = Some n)"
    using ref_find_loop_spec [of "p_refs P" s n] mem by blast
  then have "case found of None \<Rightarrow> \<forall>r R. refs s r = Some R \<longrightarrow> r_proc R = p \<longrightarrow> r_node R \<noteq> Some n
     | Some r \<Rightarrow> \<exists>R. refs s r = Some R \<and> r_proc R = p \<and> r_node R = Some n"
    using mem by (cases found) auto
  then show ?thesis using f(1) P by (simp add: binder_ref_find_for_node_def)
qed

section \<open>The lowest free descriptor\<close>

definition lowest_free :: "binder_state \<Rightarrow> addr \<Rightarrow> u32 \<Rightarrow> bool" where
  "lowest_free s p desc \<longleftrightarrow>
     0 < desc \<and> \<not> desc_used s p desc \<and> (\<forall>x. 0 < x \<longrightarrow> x < desc \<longrightarrow> desc_used s p x)"

lemma word_succ_bounds:
  fixes x y z :: "'a::len word"
  assumes "x < y"
  shows "x + 1 \<le> y" "0 < x + 1" "z < x + 1 \<Longrightarrow> z \<noteq> x \<Longrightarrow> z < x"
proof -
  have "unat x < unat y" using assms by (simp add: word_less_nat_alt)
  moreover have "unat y < 2 ^ LENGTH('a)" by (rule unsigned_less)
  ultimately have "Suc (unat x) < 2 ^ LENGTH('a)" by linarith
  then have u: "unat (x + 1) = Suc (unat x)" by (simp add: unat_word_ariths)
  show "x + 1 \<le> y" using assms u by (simp add: word_le_nat_alt word_less_nat_alt)
  show "0 < x + 1" using u by (simp add: word_less_nat_alt)
  show "z < x + 1 \<Longrightarrow> z \<noteq> x \<Longrightarrow> z < x"
    using u by (auto simp: word_less_nat_alt less_Suc_eq word_unat_eq_iff)
qed

lemma word_ge_1_iff: "1 \<le> x \<longleftrightarrow> x \<noteq> 0" for x :: u32
  by (auto simp: word_le_nat_alt Suc_le_eq unat_gt_0)

lemma next_desc_loop_spec:
  assumes g: "graph_off d s" and P: "procs s p = Some P"
  shows "(\<exists>x \<ge> desc. \<not> desc_used s p x) \<Longrightarrow> 0 < desc \<Longrightarrow>
    (\<And>x. 0 < x \<Longrightarrow> x < desc \<Longrightarrow> desc_used s p x) \<Longrightarrow>
    \<exists>desc'. next_desc_loop p desc s = Some desc' \<and> lowest_free s p desc'"
proof (induction "unat (- desc)" arbitrary: desc rule: less_induct)
  case less
  obtain found where f: "binder_ref_find_by_desc p desc s = Some found"
      "case found of None \<Rightarrow> \<not> desc_used s p desc
       | Some r \<Rightarrow> \<exists>R. refs s r = Some R \<and> r_proc R = p \<and> r_desc R = desc"
    using find_by_desc_spec [OF g P] by blast
  have nz: "desc \<noteq> 0" using less.prems(2) by auto
  show ?case
  proof (cases found)
    case None
    then have "lowest_free s p desc"
      using f(2) less.prems(2,3) by (simp add: lowest_free_def)
    then show ?thesis using f(1) None nz by (simp add: next_desc_loop.simps)
  next
    case (Some r)
    then have used: "desc_used s p desc" using f(2) by (auto simp: desc_used_def)
    then obtain x where x: "desc < x" "\<not> desc_used s p x"
      using less.prems(1) by (metis order_le_less)
    have "- desc \<noteq> 0" using nz by simp
    then have "unat (- desc - 1) < unat (- desc)" by (metis measure_unat)
    then have m: "unat (- (desc + 1)) < unat (- desc)" by simp
    have "\<exists>desc'. next_desc_loop p (desc + 1) s = Some desc' \<and> lowest_free s p desc'"
    proof (rule less.hyps [OF m])
      show "\<exists>y \<ge> desc + 1. \<not> desc_used s p y" using x word_succ_bounds(1) [OF x(1)] by blast
      show "0 < desc + 1" by (rule word_succ_bounds(2) [OF x(1)])
      fix y assume "0 < y" "y < desc + 1"
      then show "desc_used s p y"
        using used less.prems(3) word_succ_bounds(3) [OF x(1), of y] by blast
    qed
    then show ?thesis using f(1) Some nz by (subst next_desc_loop.simps) simp
  qed
qed

text \<open>There is a free descriptor as long as the process does not hold all of them.\<close>

lemma free_desc_exists:
  assumes g: "graph_off d s" and P: "procs s p = Some P" and len: "length (p_refs P) < 2 ^ 32 - 1"
  shows "\<exists>x \<ge> 1. \<not> desc_used s p (x :: u32)"
proof (rule ccontr)
  assume "\<not> ?thesis"
  then have all: "desc_used s p x" if "1 \<le> x" for x :: u32 using that by blast
  let ?f = "\<lambda>r. r_desc (the (refs s r))"
  have "{1 :: u32 ..} \<subseteq> ?f ` set (p_refs P)"
  proof
    fix x :: u32 assume "x \<in> {1 ..}"
    then obtain r R where "refs s r = Some R" "r_proc R = p" "r_desc R = x"
      using all [of x] by (auto simp: desc_used_def)
    then show "x \<in> ?f ` set (p_refs P)"
      using proc_refs_exist [OF g P, of r] by (auto intro!: image_eqI [of _ _ r])
  qed
  moreover have "{1 :: u32 ..} = UNIV - {0}"
    by (auto simp: word_ge_1_iff)
  then have "card {1 :: u32 ..} = 2 ^ 32 - 1" by (simp add: card_Diff_singleton card_word)
  ultimately have "2 ^ 32 - 1 \<le> card (?f ` set (p_refs P))" by (metis card_mono finite_imageI finite_set)
  also have "\<dots> \<le> length (p_refs P)" by (meson card_image_le card_length finite_set le_trans)
  finally show False using len by simp
qed

lemma next_desc_ok:
  assumes g: "graph_off d s" and P: "procs s p = Some P" and len: "length (p_refs P) < 2 ^ 32 - 1"
  shows "\<exists>desc. binder_ref_next_desc p n s = Some desc \<and>
    (if Option.bind (context_of s p) (\<lambda>c. c_mgr_node (contexts s c)) = Some n then desc = 0
     else lowest_free s p desc)"
proof -
  have "\<exists>desc. next_desc_loop p 1 s = Some desc \<and> lowest_free s p desc"
    using next_desc_loop_spec [OF g P free_desc_exists [OF g P len]]
    by (metis linorder_not_le word_ge_1_iff word_gt_0 zero_neq_one)
  then show ?thesis
    using P by (auto simp: binder_ref_next_desc_def context_of_def split: option.splits)
qed

section \<open>Taking a handle\<close>

text \<open>A process has one handle per node, and its handles other than 0 have different
  descriptors; no object exists yet at the addresses still to be handed out.\<close>

definition handles_ok :: "binder_state \<Rightarrow> bool" where
  "handles_ok s \<longleftrightarrow> (\<forall>r R r' R'. refs s r = Some R \<longrightarrow> refs s r' = Some R' \<longrightarrow>
     r_proc R = r_proc R' \<longrightarrow> r_node R = r_node R' \<or> r_desc R = r_desc R' \<and> r_desc R \<noteq> 0 \<longrightarrow> r = r')"

definition fresh :: "binder_state \<Rightarrow> bool" where
  "fresh s \<longleftrightarrow> (\<forall>a \<ge> clock s. refs s a = None \<and> nodes s a = None \<and> deaths s a = None)"

definition driver_inv :: "binder_state \<Rightarrow> bool" where
  "driver_inv s \<longleftrightarrow> refs_inv (\<lambda>_. 0) s \<and> mgr_ok s \<and> handles_ok s \<and> fresh s"

lemma driver_invD:
  assumes "driver_inv s"
  shows "refs_inv (\<lambda>_. 0) s" "mgr_ok s" "handles_ok s" "fresh s"
  using assms by (auto simp: driver_inv_def)

lemma handles_okD:
  assumes "handles_ok s" "refs s r = Some R" "refs s r' = Some R'" "r_proc R = r_proc R'"
    "r_node R = r_node R' \<or> r_desc R = r_desc R' \<and> r_desc R \<noteq> 0"
  shows "r = r'"
  using assms unfolding handles_ok_def by blast

lemma driver_inv_shrinks:
  assumes inv: "driver_inv s" and sh: "shrinks s s'" and new: "refs_inv (\<lambda>_. 0) s'"
  shows "driver_inv s'"
proof -
  have "handles_ok s'"
    unfolding handles_ok_def
  proof (intro allI impI)
    fix r R r' R'
    assume R: "refs s' r = Some R" "refs s' r' = Some R'" and eq: "r_proc R = r_proc R'"
      "r_node R = r_node R' \<or> r_desc R = r_desc R' \<and> r_desc R \<noteq> 0"
    obtain Q where Q: "refs s r = Some Q" "ref_id R = ref_id Q" using shrinksD(4) [OF sh R(1)] by blast
    obtain Q' where Q': "refs s r' = Some Q'" "ref_id R' = ref_id Q'" using shrinksD(4) [OF sh R(2)] by blast
    show "r = r'"
      using handles_okD [OF driver_invD(3) [OF inv] Q(1) Q'(1)] Q(2) Q'(2) eq by (auto simp: ref_id_def)
  qed
  moreover have "fresh s'"
    unfolding fresh_def
  proof (intro allI impI)
    fix a assume "clock s' \<le> a"
    then have a: "refs s a = None" "nodes s a = None" "deaths s a = None"
      using driver_invD(4) [OF inv] shrinksD(2) [OF sh] by (auto simp: fresh_def)
    have "refs s' a = None" using shrinksD(4) [OF sh, of a] a(1) by (cases "refs s' a") auto
    moreover have "nodes s' a = None" using shrinksD(5) [OF sh, of a] a(2) by (cases "nodes s' a") auto
    moreover have "deaths s' a = None" using shrinksD(3) [OF sh] a(3) by (auto simp: dom_def)
    ultimately show "refs s' a = None \<and> nodes s' a = None \<and> deaths s' a = None" by simp
  qed
  ultimately show ?thesis
    using new shrinksD(6) [OF sh] driver_invD(2) [OF inv] by (simp add: driver_inv_def)
qed

text \<open>The clock may advance.\<close>

lemma clock_frame [simp]:
  "items (s\<lparr>clock := k\<rparr>) = items s" "place (s\<lparr>clock := k\<rparr>) = place s"
  "get_buffer p b (s\<lparr>clock := k\<rparr>) = get_buffer p b s" "owner_of (s\<lparr>clock := k\<rparr>) = owner_of s"
  "context_of (s\<lparr>clock := k\<rparr>) = context_of s" "actors (s\<lparr>clock := k\<rparr>) = actors s"
  "desc_used (s\<lparr>clock := k\<rparr>) = desc_used s" "mgr_ok (s\<lparr>clock := k\<rparr>) = mgr_ok s"
  "handles_ok (s\<lparr>clock := k\<rparr>) = handles_ok s" "deaths_ok (s\<lparr>clock := k\<rparr>) = deaths_ok s"
  by (auto simp: items_def place_def get_queue_def get_work_def get_buffer_def owner_of_def
      context_of_def actors_def desc_used_def mgr_ok_def handles_ok_def deaths_ok_def fun_eq_iff
      split: work_head.splits work_ptr.splits)

lemma graph_clock [simp]: "graph_off d (s\<lparr>clock := k\<rparr>) = graph_off d s"
  by (simp add: graph_off_def proc_graph_ok_def node_graph_ok_def ref_graph_ok_def holder_of_def
      target_of_def holds_strong_def owner_of_def cong: filter_cong)

lemma refs_inv_clock [simp]: "refs_inv d (s\<lparr>clock := k\<rparr>) = refs_inv d s"
  by (simp add: refs_inv_def queues_ok_def async_ok_def async_item_ok_def)

lemma driver_inv_clock: "driver_inv s \<Longrightarrow> driver_inv (s\<lparr>clock := Suc (clock s)\<rparr>)"
  by (simp add: driver_inv_def fresh_def)

lemma work_frame_fields:
  assumes "threads s' = threads s" "deaths s' = deaths s" "txns s' = txns s" "completes s' = completes s"
    and "\<And>p. map_option (\<lambda>P. (p_todo P, p_buffers P)) (procs s' p) =
      map_option (\<lambda>P. (p_todo P, p_buffers P)) (procs s p)"
    and "\<And>n. map_option (\<lambda>N. (n_work N, n_async_todo N)) (nodes s' n) =
      map_option (\<lambda>N. (n_work N, n_async_todo N)) (nodes s n)"
  shows "items s' = items s" "place s' = place s" "get_buffer p b s' = get_buffer p b s"
proof -
  have P: "map_option p_todo (procs s' p) = map_option p_todo (procs s p)"
      "map_option p_buffers (procs s' p) = map_option p_buffers (procs s p)" for p
    using assms(5) [of p] by (cases "procs s p"; cases "procs s' p"; simp)+
  have N: "map_option n_work (nodes s' n) = map_option n_work (nodes s n)"
      "map_option n_async_todo (nodes s' n) = map_option n_async_todo (nodes s n)" for n
    using assms(6) [of n] by (cases "nodes s n"; cases "nodes s' n"; simp)+
  show "items s' = items s"
    by (rule ext) (simp add: items_def get_queue_def P N assms(1) split: work_head.splits)
  have "get_work w s' = get_work w s" for w
    by (simp add: get_work_def N assms(1-4) split: work_ptr.splits)
  then show "place s' = place s" by (simp add: place_def fun_eq_iff)
  show "get_buffer p b s' = get_buffer p b s"
    using P(2) [of p] by (cases "procs s p"; cases "procs s' p") (auto simp: get_buffer_def)
qed

lemma add_ref_inv:
  assumes inv: "refs_inv d s" and r: "refs s r = None"
    and R: "r_node R = Some n" "r_strong R = 0" "r_weak R = 0" "r_death R = None"
    and P: "procs s (r_proc R) = Some P" and N: "nodes s n = Some N"
    and s': "procs s' = (procs s)(r_proc R \<mapsto> p_refs_update (\<lambda>rs. r # rs) P)"
      "nodes s' = (nodes s)(n \<mapsto> n_refs_update (\<lambda>rs. r # rs) N)" "refs s' = (refs s)(r \<mapsto> R)"
      "threads s' = threads s" "deaths s' = deaths s" "txns s' = txns s" "completes s' = completes s"
  shows "refs_inv d s'"
proof -
  note i = refs_invD [OF inv]
  have w: "items s' = items s" "place s' = place s" "\<And>p b. get_buffer p b s' = get_buffer p b s"
    by (rule work_frame_fields; use P N in \<open>simp add: s'\<close>)+
  have "deaths_ok s'"
    unfolding deaths_ok_def
  proof (intro allI impI)
    fix x X e assume X: "refs s' x = Some X" "r_death X = Some e"
    have *: "refs s y = Some Z" if "refs s' y = Some Z" "r_death Z = Some e" for y Z
      using that R(4) by (auto simp: s' split: if_splits)
    have u: "deaths s e \<noteq> None" "\<And>y Z. refs s y = Some Z \<Longrightarrow> r_death Z = Some e \<Longrightarrow> y = x"
      using i(4) * [OF X] X(2) unfolding deaths_ok_def by blast+
    show "deaths s' e \<noteq> None \<and> (\<forall>y Z. refs s' y = Some Z \<longrightarrow> r_death Z = Some e \<longrightarrow> y = x)"
      using u * by (auto simp: s'(5))
  qed
  moreover have "graph_off d s'" by (rule graph_off_add_ref [OF i(1) r R(1-3) P N s'(1-3)])
  moreover have "queues_ok s'" "async_ok s'"
    using work_frame [OF w(1,2) s'(6) _ i(2,3)] w(3) by simp_all
  ultimately show ?thesis by (simp add: refs_inv_def)
qed

text \<open>The handle of a process for a node: the one it has, or a new one with the lowest
  free descriptor, 0 for the manager of its context.\<close>

definition handle_for ::
    "addr \<Rightarrow> addr \<Rightarrow> binder_state \<Rightarrow> addr \<Rightarrow> binder_ref \<Rightarrow> binder_state \<Rightarrow> bool" where
  "handle_for p n s r R s' \<longleftrightarrow>
     refs s' r = Some R \<and> r_proc R = p \<and> r_node R = Some n \<and>
     (s' = s \<or>
      refs s r = None \<and> refs s' = (refs s)(r \<mapsto> R) \<and> r_strong R = 0 \<and> r_weak R = 0 \<and>
      (\<forall>x X. refs s x = Some X \<longrightarrow> r_proc X = p \<longrightarrow> r_node X \<noteq> Some n) \<and>
      (if Option.bind (context_of s p) (\<lambda>c. c_mgr_node (contexts s c)) = Some n then r_desc R = 0
       else lowest_free s p (r_desc R)))"

lemma handles_ok_add:
  assumes ok: "handles_ok s" and s': "refs s' = (refs s)(r \<mapsto> R)"
    and new: "\<And>x X. refs s x = Some X \<Longrightarrow> r_proc X = r_proc R \<Longrightarrow>
      r_node X \<noteq> r_node R \<and> (r_desc R \<noteq> 0 \<longrightarrow> r_desc X \<noteq> r_desc R)"
  shows "handles_ok s'"
  unfolding handles_ok_def
proof (intro allI impI)
  fix x X y Y
  assume X: "refs s' x = Some X" and Y: "refs s' y = Some Y" and eq: "r_proc X = r_proc Y"
    "r_node X = r_node Y \<or> r_desc X = r_desc Y \<and> r_desc X \<noteq> 0"
  consider "x = r" "y = r" | "x = r" "y \<noteq> r" | "x \<noteq> r" "y = r" | "x \<noteq> r" "y \<noteq> r" by blast
  then show "x = y"
  proof cases
    case 2
    then have "X = R" "refs s y = Some Y" using X Y by (simp_all add: s')
    then show ?thesis using new [of y Y] eq by auto
  next
    case 3
    then have "Y = R" "refs s x = Some X" using X Y by (simp_all add: s')
    then show ?thesis using new [of x X] eq by auto
  next
    case 4
    then show ?thesis using X Y handles_okD [OF ok, of x X y Y] eq by (simp add: s')
  qed simp
qed

lemma new_handle_inv:
  assumes inv: "driver_inv s" and P: "procs s (r_proc R) = Some P" and N: "nodes s n = Some N"
    and R: "r_node R = Some n" "r_strong R = 0" "r_weak R = 0" "r_death R = None"
    and new: "\<And>x X. refs s x = Some X \<Longrightarrow> r_proc X = r_proc R \<Longrightarrow>
      r_node X \<noteq> r_node R \<and> (r_desc R \<noteq> 0 \<longrightarrow> r_desc X \<noteq> r_desc R)"
    and s': "procs s' = (procs s)(r_proc R \<mapsto> p_refs_update (\<lambda>rs. clock s # rs) P)"
      "nodes s' = (nodes s)(n \<mapsto> n_refs_update (\<lambda>rs. clock s # rs) N)"
      "refs s' = (refs s)(clock s \<mapsto> R)" "clock s' = Suc (clock s)" "contexts s' = contexts s"
      "threads s' = threads s" "deaths s' = deaths s" "txns s' = txns s" "completes s' = completes s"
  shows "driver_inv s'" "actors s' = actors s"
proof -
  note D = driver_invD [OF inv]
  have r: "refs s (clock s) = None" using D(4) by (simp add: fresh_def)
  show act: "actors s' = actors s" using P by (auto simp: actors_def fun_eq_iff s')
  have "owner_of s' m = owner_of s m" for m using N by (simp add: owner_of_def s')
  then have "mgr_ok s'" by (rule mgr_ok_frame [OF D(2) s'(5) act])
  moreover have "refs_inv (\<lambda>_. 0) s'" by (rule add_ref_inv [OF D(1) r R P N s'(1-3,6-9)])
  moreover have "handles_ok s'" by (rule handles_ok_add [OF D(3) s'(3) new])
  moreover have "n < clock s" using D(4) N by (auto simp: fresh_def linorder_not_le [symmetric])
  then have "fresh s'" using D(4) by (auto simp: fresh_def s')
  ultimately show "driver_inv s'" by (simp add: driver_inv_def)
qed

lemma get_for_node_inv:
  assumes inv: "driver_inv s" and P: "procs s p = Some P" and N: "nodes s n = Some N"
    and len: "length (p_refs P) < 2 ^ 32 - 1"
  shows "\<exists>found s'. binder_ref_get_for_node K p n s = Some (found, s') \<and> driver_inv s' \<and>
    actors s' = actors s \<and>
    (\<forall>m. map_option n_internal_strong_refs (nodes s' m) = map_option n_internal_strong_refs (nodes s m)) \<and>
    (case found of None \<Rightarrow> s' = s\<lparr>clock := Suc (clock s)\<rparr> | Some r \<Rightarrow> \<exists>R. handle_for p n s r R s')"
proof -
  note D = driver_invD [OF inv]
  note g = refs_invD(1) [OF D(1)]
  obtain found where f: "binder_ref_find_for_node p n s = Some found"
    "case found of None \<Rightarrow> \<forall>r R. refs s r = Some R \<longrightarrow> r_proc R = p \<longrightarrow> r_node R \<noteq> Some n
     | Some r \<Rightarrow> \<exists>R. refs s r = Some R \<and> r_proc R = p \<and> r_node R = Some n"
    using find_for_node_spec [OF g P] by blast
  let ?c = "s\<lparr>clock := Suc (clock s)\<rparr>"
  consider r where "found = Some r" | "found = None" "\<not> osmalloc K (clock s) (Sizeof ''binder_ref'')"
    | "found = None" "osmalloc K (clock s) (Sizeof ''binder_ref'')" by (cases found) auto
  then show ?thesis
  proof cases
    case (1 r)
    then show ?thesis using f inv by (auto simp: binder_ref_get_for_node_def handle_for_def)
  next
    case 2
    then show ?thesis
      using f(1) driver_inv_clock [OF inv] by (auto simp: binder_ref_get_for_node_def binder_alloc_mem_def)
  next
    case 3
    have nf: "\<forall>x X. refs s x = Some X \<longrightarrow> r_proc X = p \<longrightarrow> r_node X \<noteq> Some n" using f(2) 3(1) by simp
    have "graph_off (\<lambda>_. 0) ?c" "procs ?c p = Some P" using g P by simp_all
    from next_desc_ok [OF this len, of n] obtain desc where
        desc: "binder_ref_next_desc p n ?c = Some desc"
          "if Option.bind (context_of s p) (\<lambda>c. c_mgr_node (contexts s c)) = Some n then desc = 0
           else lowest_free s p desc"
      by (auto simp: lowest_free_def split: if_splits)
    let ?R = "\<lparr>r_proc = p, r_node = Some n, r_desc = desc, r_strong = 0, r_weak = 0,
                  r_death = None, r_debug_id = last_debug_id s + 1\<rparr>"
    let ?s = "s\<lparr>clock := Suc (clock s), last_debug_id := last_debug_id s + 1,
      refs := (refs s)(clock s \<mapsto> ?R), procs := (procs s)(p \<mapsto> p_refs_update (\<lambda>rs. clock s # rs) P),
      nodes := (nodes s)(n \<mapsto> n_refs_update (\<lambda>rs. clock s # rs) N), stat_refs := stat_refs s + 1\<rparr>"
    have run: "binder_ref_get_for_node K p n s = Some (Some (clock s), ?s)"
      using 3 f(1) desc(1) P N
      by (simp add: binder_ref_get_for_node_def binder_alloc_mem_def binder_next_debug_id_def
          upd_proc_def upd_node_def)
    have new: "r_node X \<noteq> r_node ?R \<and> (r_desc ?R \<noteq> 0 \<longrightarrow> r_desc X \<noteq> r_desc ?R)"
      if X: "refs s x = Some X" "r_proc X = r_proc ?R" for x X
    proof -
      have "r_node X \<noteq> Some n" using nf X by simp
      moreover have "desc_used s p (r_desc X)" using X by (auto simp: desc_used_def)
      ultimately show ?thesis using desc(2) by (auto simp: lowest_free_def split: if_splits)
    qed
    note h = new_handle_inv [OF inv, of ?R P n N ?s, OF _ N _ _ _ _ new]
    have "driver_inv ?s" "actors ?s = actors s" by (rule h; simp add: P)+
    moreover have "refs s (clock s) = None" using D(4) by (simp add: fresh_def)
    then have "handle_for p n s (clock s) ?R ?s"
      unfolding handle_for_def by (intro conjI disjI2 nf) (use desc(2) in simp_all)
    moreover have "map_option n_internal_strong_refs (nodes ?s m) =
        map_option n_internal_strong_refs (nodes s m)" for m using N by simp
    ultimately show ?thesis using run by auto
  qed
qed

section \<open>Handles are exact\<close>

lemma strong_count:
  assumes "refs_inv d s" and "nodes s n = Some N"
  shows "n_internal_strong_refs N =
    int (card {r. \<exists>R. refs s r = Some R \<and> r_node R = Some n \<and> 0 < r_strong R}) + d n"
proof -
  have ok: "node_graph_ok s (d n) n N" by (rule graph_offD(2) [OF refs_invD(1) [OF assms(1)] assms(2)])
  then have "{r. \<exists>R. refs s r = Some R \<and> r_node R = Some n \<and> 0 < r_strong R} =
      set (filter (holds_strong s) (n_refs N))"
    by (auto simp: node_graph_ok_def target_of_def holds_strong_def split: option.splits
        Option.bind_splits)
  moreover have "distinct (filter (holds_strong s) (n_refs N))" using ok by (simp add: node_graph_ok_def)
  ultimately have "card {r. \<exists>R. refs s r = Some R \<and> r_node R = Some n \<and> 0 < r_strong R} =
      length (filter (holds_strong s) (n_refs N))" by (metis distinct_card)
  then show ?thesis using ok by (simp only: node_graph_ok_def)
qed

text \<open>Two processes, an object of the first, and the second's handle for it.\<close>

definition handle_example :: binder_state where
  "handle_example = initial_state\<lparr>
     procs := Map.empty(1 \<mapsto> fresh_proc\<lparr>p_nodes := [3], p_threads := [5]\<rparr>, 2 \<mapsto> fresh_proc\<lparr>p_refs := [4]\<rparr>),
     threads := Map.empty(5 \<mapsto> new_thread\<lparr>t_proc := Some 1\<rparr>),
     nodes := Map.empty(3 \<mapsto> new_node\<lparr>n_proc := Some 1, n_ptr := 0x1000, n_refs := [4],
       n_internal_strong_refs := 1\<rparr>),
     refs := Map.empty(4 \<mapsto> \<lparr>r_proc = 2, r_node = Some 3, r_desc = 1, r_strong = 1, r_weak = 0,
       r_death = None, r_debug_id = 0\<rparr>),
     clock := 10\<rparr>"

lemmas handle_example_defs = handle_example_def initial_state_def fresh_proc_def new_node_def
  new_thread_def new_work_def new_error_def empty_context_def

lemma handle_example_inv: "driver_inv handle_example"
proof -
  have "graph_off (\<lambda>_. 0) handle_example"
    by (auto simp: graph_off_def proc_graph_ok_def node_graph_ok_def ref_graph_ok_def owner_of_def
        holder_of_def target_of_def holds_strong_def handle_example_defs split: if_splits)
  moreover have "queues_ok handle_example"
    by (auto simp: queues_ok_def queues_ok_on_def held_def place_def items_def get_work_def
        get_queue_def handle_example_defs split: work_ptr.splits work_head.splits if_splits)
  moreover have "async_ok handle_example"
    by (auto simp: async_ok_def items_def get_queue_def handle_example_defs split: if_splits)
  moreover have "deaths_ok handle_example"
    by (auto simp: deaths_ok_def handle_example_defs split: if_splits)
  moreover have "mgr_ok handle_example" by (simp add: mgr_ok_def handle_example_defs)
  moreover have "handles_ok handle_example" by (auto simp: handles_ok_def handle_example_defs split: if_splits)
  moreover have "fresh handle_example" by (auto simp: fresh_def handle_example_defs)
  ultimately show ?thesis by (simp add: driver_inv_def refs_inv_def)
qed

text \<open>C4: the counts of a handle. Raising or lowering a count of a handle runs and
  changes exactly that handle, which goes with its last count; lowering a count
  that is 0 is refused and changes nothing. In every case the internal strong
  count of each object is afterwards the number of handles that hold it
  strongly, so an object is held as long as, and no longer than, somebody has
  a strong handle for it.\<close>

theorem handle_counts_exact:
  assumes "driver_inv s" and "refs s r = Some R" and "\<forall>t. th = Some t \<longrightarrow> threads s t \<noteq> None"
    and "increment \<longrightarrow> (if strong then r_strong R else r_weak R) < int_max \<and>
      (\<forall>n N. r_node R = Some n \<longrightarrow> nodes s n = Some N \<longrightarrow> n_internal_strong_refs N < int_max)"
  shows "\<exists>e s'. binder_ref_update r strong increment th s = Some (e, s') \<and> driver_inv s' \<and>
    (if \<not> increment \<and> (if strong then r_strong R else r_weak R) = 0 then e = EINVAL \<and> s' = s
     else e = OK \<and> refs s' = (refs s)(r := ref_after strong increment R)) \<and>
    (\<forall>n N. nodes s' n = Some N \<longrightarrow> n_internal_strong_refs N =
      int (card {r. \<exists>R. refs s' r = Some R \<and> r_node R = Some n \<and> 0 < r_strong R}))"
proof -
  have "\<exists>e s'. binder_ref_update r strong increment th s = Some (e, s') \<and> refs_inv (\<lambda>_. 0) s' \<and>
    shrinks s s' \<and>
    (if \<not> increment \<and> (if strong then r_strong R else r_weak R) = 0 then e = EINVAL \<and> s' = s
     else e = OK \<and> refs s' = (refs s)(r := ref_after strong increment R))"
    by (rule ref_update_ok [OF driver_invD(1) [OF assms(1)] assms(2)]) (use assms(3,4) in auto)
  then obtain e s' where s': "binder_ref_update r strong increment th s = Some (e, s')"
      "refs_inv (\<lambda>_. 0) s'" "shrinks s s'"
      "if \<not> increment \<and> (if strong then r_strong R else r_weak R) = 0 then e = EINVAL \<and> s' = s
       else e = OK \<and> refs s' = (refs s)(r := ref_after strong increment R)" by blast
  then show ?thesis
    using driver_inv_shrinks [OF assms(1) s'(3,2)] strong_count [OF s'(2)] by auto
qed

theorem handle_counts_exact_witness:
  "\<exists>e s'. binder_ref_update 4 True True (Some 5) handle_example = Some (e, s') \<and> driver_inv s' \<and>
    e = OK \<and> map_option r_strong (refs s' 4) = Some 2"
proof -
  have R: "refs handle_example 4 = Some \<lparr>r_proc = 2, r_node = Some 3, r_desc = 1, r_strong = 1,
      r_weak = 0, r_death = None, r_debug_id = 0\<rparr>" by (simp add: handle_example_def)
  show ?thesis
    using handle_counts_exact [OF handle_example_inv R, of "Some 5" True True]
    by (auto simp: handle_example_defs ref_after_def int_max_def)
qed

text \<open>C26: taking a handle. A process that asks for a handle on an object gets the
  one it has, or a new one whose descriptor is the lowest that is free, 0 if
  and only if the object is the context manager; or memory is short and
  nothing changes. All invariants are kept: among them that a process has one
  handle per object and that no two of its handles share a descriptor other
  than 0.\<close>

theorem handle_lowest_free:
  assumes "driver_inv s" and "procs s p = Some P" and "nodes s n = Some N"
    and "length (p_refs P) < 2 ^ 32 - 1"
  shows "\<exists>found s'. binder_ref_get_for_node K p n s = Some (found, s') \<and> driver_inv s' \<and>
    (case found of None \<Rightarrow> s' = s\<lparr>clock := Suc (clock s)\<rparr> | Some r \<Rightarrow> \<exists>R. handle_for p n s r R s')"
  using get_for_node_inv [OF assms, of K] by auto

theorem handle_lowest_free_witness:
  "\<exists>found s'. binder_ref_get_for_node quiet_kpi 1 3 handle_example = Some (found, s') \<and> driver_inv s' \<and>
    (case found of None \<Rightarrow> s' = handle_example\<lparr>clock := Suc (clock handle_example)\<rparr>
     | Some r \<Rightarrow> \<exists>R. handle_for 1 3 handle_example r R s')"
  by (rule handle_lowest_free [OF handle_example_inv, of 1 "fresh_proc\<lparr>p_nodes := [3], p_threads := [5]\<rparr>" 3
        "new_node\<lparr>n_proc := Some 1, n_ptr := 0x1000, n_refs := [4], n_internal_strong_refs := 1\<rparr>"])
    (simp_all add: handle_example_def fresh_proc_def)

text \<open>C36: the number 0 is not the manager's alone. When a process still has a handle numbered 0, on whatever
  object, and asks for a handle on the manager of its context, on which it has none, then with memory available it is given a second handle
  numbered 0. Both exist afterwards, and the number 0 resolves to the new one, so the old handle cannot be named
  any more.\<close>

theorem second_handle_zero:
  assumes inv: "driver_inv s" and P: "procs s p = Some P" "p_context P = Some c" "c_mgr_node (contexts s c) = Some m"
    and R: "refs s r = Some R" "r_proc R = p" "r_desc R = 0"
    and none: "\<And>r R. refs s r = Some R \<Longrightarrow> r_proc R = p \<Longrightarrow> r_node R \<noteq> Some m"
    and mem: "osmalloc K (clock s) (Sizeof ''binder_ref'')"
  shows "\<exists>r' R' s'. binder_ref_get_for_node K p m s = Some (Some r', s') \<and> r' \<noteq> r \<and>
    refs s' r = Some R \<and> refs s' r' = Some R' \<and> r_proc R' = p \<and> r_desc R' = 0 \<and> r_node R' = Some m \<and>
    binder_ref_find_by_desc p 0 s' = Some (Some r')"
proof -
  note D = driver_invD [OF inv]
  obtain N where N: "nodes s m = Some N"
    using D(2) P(3) by (fastforce simp: mgr_ok_def owner_of_def bind_eq_Some_conv)
  obtain found where "binder_ref_find_for_node p m s = Some found"
      "case found of None \<Rightarrow> \<forall>r R. refs s r = Some R \<longrightarrow> r_proc R = p \<longrightarrow> r_node R \<noteq> Some m
       | Some r \<Rightarrow> \<exists>R. refs s r = Some R \<and> r_proc R = p \<and> r_node R = Some m"
    using find_for_node_spec [OF refs_invD(1) [OF D(1)] P(1)] by blast
  then have find: "binder_ref_find_for_node p m s = Some None" using none by (cases found) auto
  have "r \<noteq> clock s" using D(4) R(1) by (auto simp: fresh_def)
  then show ?thesis
    using find mem P N R
    by (simp add: binder_ref_get_for_node_def binder_alloc_mem_def binder_next_debug_id_def binder_ref_next_desc_def
        binder_ref_find_by_desc_def upd_proc_def upd_node_def)
qed

text \<open>A process that holds handle 0 on the object of a manager that is gone, after another one took its place.\<close>

definition stale_example :: binder_state where
  "stale_example = handle_example\<lparr>
     procs := Map.empty(1 \<mapsto> fresh_proc\<lparr>p_nodes := [7], p_context := Some 0\<rparr>, 2 \<mapsto> fresh_proc\<lparr>p_refs := [4], p_context := Some 0\<rparr>),
     threads := Map.empty,
     nodes := Map.empty(3 \<mapsto> new_node\<lparr>n_is_dead := True, n_refs := [4], n_internal_strong_refs := 1\<rparr>, 7 \<mapsto> new_node\<lparr>n_proc := Some 1\<rparr>),
     refs := Map.empty(4 \<mapsto> \<lparr>r_proc = 2, r_node = Some 3, r_desc = 0, r_strong = 1, r_weak = 0, r_death = None, r_debug_id = 0\<rparr>),
     contexts := (contexts initial_state)(0 := empty_context\<lparr>c_mgr_node := Some 7\<rparr>)\<rparr>"

lemma stale_example_inv: "driver_inv stale_example"
proof -
  have "graph_off (\<lambda>_. 0) stale_example"
    by (auto simp: stale_example_def graph_off_def proc_graph_ok_def node_graph_ok_def ref_graph_ok_def owner_of_def
        holder_of_def target_of_def holds_strong_def handle_example_defs split: if_splits)
  moreover have "queues_ok stale_example"
    by (auto simp: stale_example_def queues_ok_def queues_ok_on_def held_def place_def items_def get_work_def
        get_queue_def handle_example_defs split: work_ptr.splits work_head.splits if_splits)
  moreover have "async_ok stale_example"
    by (auto simp: stale_example_def async_ok_def items_def get_queue_def handle_example_defs split: if_splits)
  moreover have "deaths_ok stale_example"
    by (auto simp: stale_example_def deaths_ok_def handle_example_defs split: if_splits)
  moreover have "mgr_ok stale_example"
    by (simp add: stale_example_def mgr_ok_def owner_of_def context_of_def handle_example_defs)
  moreover have "handles_ok stale_example"
    by (auto simp: stale_example_def handles_ok_def handle_example_defs split: if_splits)
  moreover have "fresh stale_example" by (auto simp: stale_example_def fresh_def handle_example_defs)
  ultimately show ?thesis by (simp add: driver_inv_def refs_inv_def)
qed

theorem second_handle_zero_witness:
  "\<exists>r' R' s'. binder_ref_get_for_node quiet_kpi 2 7 stale_example = Some (Some r', s') \<and> r' \<noteq> 4 \<and>
    map_option r_desc (refs s' 4) = Some 0 \<and> refs s' r' = Some R' \<and> r_desc R' = 0 \<and>
    binder_ref_find_by_desc 2 0 s' = Some (Some r')"
proof -
  let ?P = "fresh_proc\<lparr>p_refs := [4], p_context := Some 0\<rparr>"
  let ?R = "\<lparr>r_proc = 2, r_node = Some 3, r_desc = 0, r_strong = 1, r_weak = 0, r_death = None, r_debug_id = 0\<rparr>"
  have "\<exists>r' R' s'. binder_ref_get_for_node quiet_kpi 2 7 stale_example = Some (Some r', s') \<and> r' \<noteq> 4 \<and>
    refs s' 4 = Some ?R \<and> refs s' r' = Some R' \<and> r_proc R' = 2 \<and> r_desc R' = 0 \<and> r_node R' = Some 7 \<and>
    binder_ref_find_by_desc 2 0 s' = Some (Some r')"
    by (rule second_handle_zero [OF stale_example_inv, where P = ?P and c = 0])
      (auto simp: stale_example_def quiet_kpi_def handle_example_defs split: if_splits)
  then show ?thesis by fastforce
qed

text \<open>Dropping a handle, as process teardown does. It runs, removes exactly that
  handle whatever its counts, takes its death notification off the queue it may
  be on, and gives back the strong reference the handle held: the invariants are
  kept, so no count is left behind on the object.\<close>

theorem handle_delete_exact:
  assumes "driver_inv s" and "refs s r = Some R"
  shows "\<exists>s'. binder_ref_delete r s = Some s' \<and> driver_inv s' \<and> refs s' = (refs s)(r := None) \<and>
    (\<forall>n N. nodes s' n = Some N \<longrightarrow> n_internal_strong_refs N =
      int (card {r. \<exists>R. refs s' r = Some R \<and> r_node R = Some n \<and> 0 < r_strong R}))"
proof -
  obtain s' where s': "binder_ref_delete r s = Some s'" "refs_inv (\<lambda>_. 0) s'"
      "refs s' = (refs s)(r := None)" "shrinks s s'"
    using ref_delete_ok [OF driver_invD(1) [OF assms(1)] assms(2)] by auto
  then show ?thesis
    using driver_inv_shrinks [OF assms(1) s'(4,2)] strong_count [OF s'(2)] by auto
qed

theorem handle_delete_exact_witness:
  "\<exists>s'. binder_ref_delete 4 handle_example = Some s' \<and> driver_inv s' \<and> refs s' 4 = None"
proof -
  have R: "refs handle_example 4 = Some \<lparr>r_proc = 2, r_node = Some 3, r_desc = 1, r_strong = 1,
      r_weak = 0, r_death = None, r_debug_id = 0\<rparr>" by (simp add: handle_example_def)
  show ?thesis using handle_delete_exact [OF handle_example_inv R] by auto
qed

end
