(* ===== verification/Binder_Commands.thy ===== *)
theory Binder_Commands
  imports Binder_RW Binder_Handles
begin

text \<open>
  The reference commands of the write loop (\<open>BC_INCREFS\<close>, \<open>BC_ACQUIRE\<close>, \<open>BC_RELEASE\<close>,
  \<open>BC_DECREFS\<close>) against an abstract table of handles: for each process and object the
  descriptor and the two counts.
\<close>

section \<open>The table of handles\<close>

type_synonym handle_table = "addr \<times> addr \<Rightarrow> (u32 \<times> int \<times> int) option"

definition entry :: "binder_ref \<Rightarrow> u32 \<times> int \<times> int" where
  "entry R = (r_desc R, r_strong R, r_weak R)"

definition handle_view :: "binder_state \<Rightarrow> handle_table" where
  "handle_view s = (\<lambda>(p, n). case binder_ref_find_for_node p n s of
       Some (Some r) \<Rightarrow> map_option entry (refs s r)
     | _ \<Rightarrow> None)"

text \<open>One count of an entry moves; the entry goes with its last count.\<close>

fun entry_count :: "bool \<Rightarrow> bool \<Rightarrow> u32 \<times> int \<times> int \<Rightarrow> (u32 \<times> int \<times> int) option" where
  "entry_count strong increment (desc, a, b) =
     (let i = (if increment then 1 else - 1);
          (a', b') = (if strong then (a + i, b) else (a, b + i)) in
      if a' = 0 \<and> b' = 0 then None else Some (desc, a', b'))"

text \<open>\<open>r\<close> is the handle of \<open>p\<close> for \<open>n\<close>.\<close>

definition is_handle :: "binder_state \<Rightarrow> addr \<Rightarrow> addr \<Rightarrow> addr \<Rightarrow> binder_ref \<Rightarrow> bool" where
  "is_handle s p n r R \<longleftrightarrow> refs s r = Some R \<and> r_proc R = p \<and> r_node R = Some n"

lemma ref_find_loop_clock [simp]: "ref_find_loop n rs (s\<lparr>clock := k\<rparr>) = ref_find_loop n rs s"
  by (induction rs) (simp_all split: Option.bind_splits)

lemma is_handle_unique:
  assumes "driver_inv s" and "is_handle s p n r R" and "is_handle s p n r' R'"
  shows "r' = r"
  using assms handles_okD [OF driver_invD(3) [OF assms(1)], of r' R' r R] by (simp add: is_handle_def)

lemma is_handle_proc: "driver_inv s \<Longrightarrow> is_handle s p n r R \<Longrightarrow> procs s p \<noteq> None"
  using graph_offD(3) [OF refs_invD(1) [OF driver_invD(1)]]
  by (auto simp: is_handle_def ref_graph_ok_def)

lemma find_for_node_handle:
  assumes "driver_inv s" and "procs s p = Some P"
  shows "\<exists>found. binder_ref_find_for_node p n s = Some found \<and>
    (case found of None \<Rightarrow> \<forall>r R. \<not> is_handle s p n r R | Some r \<Rightarrow> \<exists>R. is_handle s p n r R)"
  using find_for_node_spec [OF refs_invD(1) [OF driver_invD(1) [OF assms(1)]] assms(2), of n]
  by (force simp: is_handle_def split: option.splits)

lemma handle_view_Some:
  assumes inv: "driver_inv s" and r: "is_handle s p n r R"
  shows "handle_view s (p, n) = Some (entry R)"
proof -
  obtain P where P: "procs s p = Some P" using is_handle_proc [OF inv r] by blast
  obtain found where f: "binder_ref_find_for_node p n s = Some found"
      "case found of None \<Rightarrow> \<forall>r R. \<not> is_handle s p n r R | Some r \<Rightarrow> \<exists>R. is_handle s p n r R"
    using find_for_node_handle [OF inv P] by blast
  then obtain r' R' where r': "found = Some r'" "is_handle s p n r' R'" using r by (cases found) auto
  have "r' = r" by (rule is_handle_unique [OF inv r r'(2)])
  then show ?thesis using f(1) r' r by (simp add: handle_view_def is_handle_def)
qed

lemma handle_view_None:
  assumes inv: "driver_inv s" and none: "\<And>r R. \<not> is_handle s p n r R"
  shows "handle_view s (p, n) = None"
proof (cases "procs s p")
  case None
  then show ?thesis by (simp add: handle_view_def binder_ref_find_for_node_def)
next
  case (Some P)
  obtain found where f: "binder_ref_find_for_node p n s = Some found"
      "case found of None \<Rightarrow> \<forall>r R. \<not> is_handle s p n r R | Some r \<Rightarrow> \<exists>R. is_handle s p n r R"
    using find_for_node_handle [OF inv Some] by blast
  then have "found = None" using none by (cases found) auto
  then show ?thesis using f(1) by (simp add: handle_view_def)
qed

text \<open>A change of one handle is a change of one entry.\<close>

lemma handle_view_update:
  assumes inv: "driver_inv s" "driver_inv s'" and s': "refs s' = (refs s)(r := v)"
    and v: "\<And>R. v = Some R \<Longrightarrow> r_proc R = p \<and> r_node R = Some n"
    and r: "(\<exists>R. is_handle s p n r R) \<or> refs s r = None \<and> (\<forall>r R. \<not> is_handle s p n r R)"
  shows "handle_view s' = (handle_view s)((p, n) := map_option entry v)"
proof (rule ext)
  fix x :: "addr \<times> addr"
  obtain q m where x: "x = (q, m)" by (cases x)
  show "handle_view s' x = ((handle_view s)((p, n) := map_option entry v)) x"
  proof (cases "x = (p, n)")
    case True
    show ?thesis
    proof (cases v)
      case None
      have "\<not> is_handle s' p n y Y" for y Y
      proof
        assume "is_handle s' p n y Y"
        then have y: "is_handle s p n y Y" "y \<noteq> r" using None by (auto simp: is_handle_def s' split: if_splits)
        with r obtain R where "is_handle s p n r R" by blast
        from is_handle_unique [OF inv(1) this y(1)] y(2) show False by simp
      qed
      then show ?thesis using True None handle_view_None [OF inv(2)] by simp
    next
      case (Some R)
      then have "is_handle s' p n r R" using v by (simp add: is_handle_def s')
      then show ?thesis using True Some handle_view_Some [OF inv(2)] by simp
    qed
  next
    case False
    have same: "is_handle s' q m y Y \<longleftrightarrow> is_handle s q m y Y" for y Y
    proof (cases "y = r")
      case True
      have "\<not> is_handle s' q m r Y" using False x v by (auto simp: is_handle_def s')
      moreover have "\<not> is_handle s q m r Y" using False x r by (auto simp: is_handle_def)
      ultimately show ?thesis using True by simp
    qed (simp add: is_handle_def s')
    show ?thesis
    proof (cases "\<exists>y Y. is_handle s q m y Y")
      case True
      then obtain y Y where "is_handle s q m y Y" by blast
      then show ?thesis
        using False x same handle_view_Some [OF inv(1)] handle_view_Some [OF inv(2)] by auto
    next
      case none: False
      then show ?thesis
        using False x same handle_view_None [OF inv(1)] handle_view_None [OF inv(2)] by auto
    qed
  qed
qed

lemma entry_after: "map_option entry (ref_after strong increment R) = entry_count strong increment (entry R)"
  by (simp add: ref_after_def entry_def Let_def)

section \<open>Commands\<close>

definition manager_of :: "addr \<Rightarrow> binder_state \<Rightarrow> addr option" where
  "manager_of p s = Option.bind (context_of s p) (\<lambda>c. c_mgr_node (contexts s c))"

text \<open>What a reference command of process \<open>p\<close> may do to the table, \<open>mgr\<close> being the manager of
  its context: count the handle with that descriptor, or refuse to lower a count
  that is 0, or, for the descriptor 0 nobody has used yet, take a handle on the
  manager; anything else is an error that changes nothing.\<close>

inductive table_step ::
    "addr \<Rightarrow> addr option \<Rightarrow> bool \<Rightarrow> bool \<Rightarrow> u32 \<Rightarrow> handle_table \<Rightarrow> errno \<Rightarrow> handle_table \<Rightarrow> bool"
  for p mgr strong increment desc T where
  counted: "T (p, n) = Some (desc, a, b) \<Longrightarrow> increment \<or> (if strong then a else b) \<noteq> 0 \<Longrightarrow>
    table_step p mgr strong increment desc T OK (T((p, n) := entry_count strong increment (desc, a, b)))"
| refused: "T (p, n) = Some (desc, a, b) \<Longrightarrow> \<not> increment \<Longrightarrow> (if strong then a else b) = 0 \<Longrightarrow>
    table_step p mgr strong increment desc T EINVAL T"
| bootstrap: "\<forall>n a b. T (p, n) \<noteq> Some (desc, a, b) \<Longrightarrow> increment \<Longrightarrow> desc = 0 \<Longrightarrow> mgr = Some m \<Longrightarrow>
    x = (case T (p, m) of None \<Rightarrow> (0, 0, 0) | Some x \<Rightarrow> x) \<Longrightarrow>
    table_step p mgr strong increment desc T OK (T((p, m) := entry_count strong increment x))"
| no_memory: "\<forall>n a b. T (p, n) \<noteq> Some (desc, a, b) \<Longrightarrow> increment \<Longrightarrow> desc = 0 \<Longrightarrow> mgr \<noteq> None \<Longrightarrow>
    table_step p mgr strong increment desc T ENOMEM T"
| unknown: "\<forall>n a b. T (p, n) \<noteq> Some (desc, a, b) \<Longrightarrow> \<not> increment \<or> desc \<noteq> 0 \<or> mgr = None \<Longrightarrow>
    table_step p mgr strong increment desc T EINVAL T"

inductive_cases table_step_OK: "table_step p mgr strong increment desc T OK T'"

text \<open>No count of the state is at its limit.\<close>

definition counts_below :: "binder_state \<Rightarrow> bool" where
  "counts_below s \<longleftrightarrow> (\<forall>r R. refs s r = Some R \<longrightarrow> r_strong R < int_max \<and> r_weak R < int_max) \<and>
     (\<forall>n N. nodes s n = Some N \<longrightarrow> n_internal_strong_refs N < int_max)"

lemma ref_update_view:
  assumes inv: "driver_inv s" and r: "is_handle s p n r R" and t: "threads s t \<noteq> None"
    and ub: "r_strong R < int_max" "r_weak R < int_max"
      "\<And>N. nodes s n = Some N \<Longrightarrow> n_internal_strong_refs N < int_max"
  shows "\<exists>e s'. binder_ref_update r strong increment (Some t) s = Some (e, s') \<and> driver_inv s' \<and>
    (if \<not> increment \<and> (if strong then r_strong R else r_weak R) = 0 then e = EINVAL \<and> s' = s
     else e = OK \<and> handle_view s' = (handle_view s)((p, n) := entry_count strong increment (entry R)))"
proof -
  have R: "refs s r = Some R" "r_proc R = p" "r_node R = Some n" using r by (auto simp: is_handle_def)
  have "\<exists>e s'. binder_ref_update r strong increment (Some t) s = Some (e, s') \<and> refs_inv (\<lambda>_. 0) s' \<and>
    shrinks s s' \<and>
    (if \<not> increment \<and> (if strong then r_strong R else r_weak R) = 0 then e = EINVAL \<and> s' = s
     else e = OK \<and> refs s' = (refs s)(r := ref_after strong increment R))"
    by (rule ref_update_ok [OF driver_invD(1) [OF inv] R(1)]) (use R ub t in auto)
  then obtain e s' where s': "binder_ref_update r strong increment (Some t) s = Some (e, s')"
      "refs_inv (\<lambda>_. 0) s'" "shrinks s s'"
      "if \<not> increment \<and> (if strong then r_strong R else r_weak R) = 0 then e = EINVAL \<and> s' = s
       else e = OK \<and> refs s' = (refs s)(r := ref_after strong increment R)" by blast
  have inv': "driver_inv s'" by (rule driver_inv_shrinks [OF inv s'(3,2)])
  have "r_proc X = p \<and> r_node X = Some n" if "ref_after strong increment R = Some X" for X
    using that R by (auto simp: ref_after_def Let_def split: if_splits)
  then have "handle_view s' = (handle_view s)((p, n) := entry_count strong increment (entry R))"
    if "refs s' = (refs s)(r := ref_after strong increment R)"
    using handle_view_update [OF inv inv' that] r by (auto simp: entry_after)
  then show ?thesis using s'(1,4) inv' by (auto split: if_splits)
qed

lemma handle_by_desc:
  assumes inv: "driver_inv s" and P: "procs s p = Some P"
  shows "\<exists>found. binder_ref_find_by_desc p desc s = Some found \<and>
    (case found of None \<Rightarrow> \<forall>n a b. handle_view s (p, n) \<noteq> Some (desc, a, b)
     | Some r \<Rightarrow> \<exists>n R. is_handle s p n r R \<and> r_desc R = desc)"
proof -
  note g = refs_invD(1) [OF driver_invD(1) [OF inv]]
  obtain found where f: "binder_ref_find_by_desc p desc s = Some found"
      "case found of None \<Rightarrow> \<not> desc_used s p desc
       | Some r \<Rightarrow> \<exists>R. refs s r = Some R \<and> r_proc R = p \<and> r_desc R = desc"
    using find_by_desc_spec [OF g P] by blast
  show ?thesis
  proof (cases found)
    case None
    have "handle_view s (p, n) \<noteq> Some (desc, a, b)" for n a b
    proof
      assume v: "handle_view s (p, n) = Some (desc, a, b)"
      then obtain r R where "is_handle s p n r R" using handle_view_None [OF inv] by fastforce
      then show False
        using v handle_view_Some [OF inv] f(2) None by (auto simp: entry_def desc_used_def is_handle_def)
    qed
    then show ?thesis using f(1) None by auto
  next
    case (Some r)
    then obtain R where R: "refs s r = Some R" "r_proc R = p" "r_desc R = desc" using f(2) by auto
    then obtain n where "is_handle s p n r R"
      using graph_offD(3) [OF g R(1)] by (auto simp: is_handle_def ref_graph_ok_def)
    then show ?thesis using f(1) Some R(3) by auto
  qed
qed

text \<open>The first use of descriptor 0: a handle on the manager, then its first count.\<close>

lemma bootstrap_ok:
  assumes inv: "driver_inv s" and P: "procs s p = Some P" and len: "length (p_refs P) < 2 ^ 32 - 1"
    and t: "threads s t \<noteq> None" and ub: "counts_below s" and m: "manager_of p s = Some m"
    and T: "\<forall>n a b. handle_view s (p, n) \<noteq> Some (0, a, b)"
  shows "\<exists>e s'. do {
      (ref, s) \<leftarrow> binder_ref_get_for_node K p m s;
      (case ref of
         None \<Rightarrow> Some (ENOMEM, s)
       | Some r \<Rightarrow> binder_ref_update r strong True (Some t) s) } = Some (e, s') \<and> driver_inv s' \<and>
    table_step p (manager_of p s) strong True 0 (handle_view s) e (handle_view s')"
proof -
  obtain N where N: "nodes s m = Some N"
    using m driver_invD(2) [OF inv]
    by (auto simp: manager_of_def mgr_ok_def owner_of_def split: Option.bind_splits)
  obtain found s1 where s1: "binder_ref_get_for_node K p m s = Some (found, s1)" "driver_inv s1"
      "actors s1 = actors s"
      "\<forall>x. map_option n_internal_strong_refs (nodes s1 x) = map_option n_internal_strong_refs (nodes s x)"
      "case found of None \<Rightarrow> s1 = s\<lparr>clock := Suc (clock s)\<rparr> | Some r \<Rightarrow> \<exists>R. handle_for p m s r R s1"
    using get_for_node_inv [OF inv P N len, of K] by blast
  show ?thesis
  proof (cases found)
    case None
    then have "handle_view s1 = handle_view s"
      using s1(5) by (auto simp: handle_view_def binder_ref_find_for_node_def fun_eq_iff
          ref_find_loop_clock split: option.splits)
    then show ?thesis
      using s1(1,2) None m T by (auto intro!: table_step.no_memory)
  next
    case (Some r)
    then obtain R where R: "handle_for p m s r R s1" using s1(5) by auto
    then have r: "is_handle s1 p m r R" by (simp add: handle_for_def is_handle_def)
    have t1: "threads s1 t \<noteq> None" by (rule actors_thread [OF s1(3) t])
    have ub1: "r_strong R < int_max" "r_weak R < int_max"
      using R ub by (auto simp: handle_for_def counts_below_def int_max_def)
    have ubn: "n_internal_strong_refs N1 < int_max" if "nodes s1 m = Some N1" for N1
      using that s1(4) N ub by (metis (no_types, lifting) counts_below_def option.map(2) option.sel)
    obtain e s2 where s2: "binder_ref_update r strong True (Some t) s1 = Some (e, s2)" "driver_inv s2"
        "e = OK" "handle_view s2 = (handle_view s1)((p, m) := entry_count strong True (entry R))"
      using ref_update_view [OF s1(2) r t1 ub1 ubn, of strong True] by auto
    have "entry R = (case handle_view s (p, m) of None \<Rightarrow> (0, 0, 0) | Some x \<Rightarrow> x) \<and>
      (handle_view s1)((p, m) := y) = (handle_view s)((p, m) := y)" for y
    proof (cases "s1 = s")
      case True
      then show ?thesis using handle_view_Some [OF inv] r by simp
    next
      case False
      then have new: "refs s r = None" "refs s1 = (refs s)(r \<mapsto> R)" "entry R = (0, 0, 0)"
          "\<forall>x X. \<not> is_handle s p m x X"
        using R m by (auto simp: handle_for_def entry_def manager_of_def is_handle_def)
      have "handle_view s1 = (handle_view s)((p, m) := Some (entry R))"
        using handle_view_update [OF inv s1(2) new(2), of p m] r new by (simp add: is_handle_def)
      moreover have "handle_view s (p, m) = None" using handle_view_None [OF inv] new(4) by blast
      ultimately show ?thesis using new(3) by simp
    qed
    then have "handle_view s2 = (handle_view s)((p, m) := entry_count strong True
        (case handle_view s (p, m) of None \<Rightarrow> (0, 0, 0) | Some x \<Rightarrow> x))"
      using s2(4) by simp
    then have "table_step p (manager_of p s) strong True 0 (handle_view s) OK (handle_view s2)"
      using table_step.bootstrap [where T = "handle_view s", OF T _ _ m refl] by simp
    then show ?thesis using s1(1) Some s2 by auto
  qed
qed

text \<open>A command on a handle the process has counts it, or is refused when there is nothing to give back.\<close>

lemma known_handle_step:
  assumes inv: "driver_inv s" and t: "threads s t \<noteq> None" and below: "counts_below s"
    and R: "is_handle s p n r R" "r_desc R = desc"
  shows "\<exists>e s'. binder_ref_update r strong inc (Some t) s = Some (e, s') \<and> driver_inv s' \<and>
    table_step p m strong inc desc (handle_view s) e (handle_view s')"
proof -
  have ub: "r_strong R < int_max" "r_weak R < int_max"
      "\<And>N. nodes s n = Some N \<Longrightarrow> n_internal_strong_refs N < int_max"
    using below R(1) by (auto simp: counts_below_def is_handle_def)
  have v: "handle_view s (p, n) = Some (desc, r_strong R, r_weak R)"
    using handle_view_Some [OF inv R(1)] R(2) by (simp add: entry_def)
  obtain e s' where s': "binder_ref_update r strong inc (Some t) s = Some (e, s')" "driver_inv s'"
      "if \<not> inc \<and> (if strong then r_strong R else r_weak R) = 0 then e = EINVAL \<and> s' = s
       else e = OK \<and> handle_view s' = (handle_view s)((p, n) := entry_count strong inc (entry R))"
    using ref_update_view [OF inv R(1) t ub, of strong inc] by blast
  have "table_step p m strong inc desc (handle_view s) e (handle_view s')"
  proof (cases "\<not> inc \<and> (if strong then r_strong R else r_weak R) = 0")
    case True
    then show ?thesis using s'(3) table_step.refused [where T = "handle_view s", OF v] by auto
  next
    case False
    then show ?thesis
      using s'(3) table_step.counted [where T = "handle_view s", OF v] R(2) by (auto simp: entry_def)
  qed
  then show ?thesis using s'(1,2) by blast
qed

text \<open>C9: reference commands refine the table of handles. \<open>BC_INCREFS\<close>, \<open>BC_ACQUIRE\<close>,
  \<open>BC_RELEASE\<close> and \<open>BC_DECREFS\<close> run in every state that satisfies the invariants, keep them,
  and do to the handles of the system what the abstract step \<open>table_step\<close> allows with
  the error number they return.\<close>

theorem ref_cmd_refines:
  assumes "driver_inv s" and "procs s p = Some P" and "length (p_refs P) < 2 ^ 32 - 1"
    and "threads s t \<noteq> None" and "counts_below s"
  shows "\<exists>e s'. binder_write_ref_cmd K p t cmd desc s = Some (e, s') \<and> driver_inv s' \<and>
    table_step p (manager_of p s) (cmd = BC_ACQUIRE \<or> cmd = BC_RELEASE)
      (cmd = BC_INCREFS \<or> cmd = BC_ACQUIRE) desc (handle_view s) e (handle_view s')"
proof -
  let ?strong = "cmd = BC_ACQUIRE \<or> cmd = BC_RELEASE" and ?inc = "cmd = BC_INCREFS \<or> cmd = BC_ACQUIRE"
  have mgr: "manager_of p s = (case p_context P of None \<Rightarrow> None | Some c \<Rightarrow> c_mgr_node (contexts s c))"
    using assms(2) by (simp add: manager_of_def context_of_def split: option.splits)
  obtain found where f: "binder_ref_find_by_desc p desc s = Some found"
      "case found of None \<Rightarrow> \<forall>n a b. handle_view s (p, n) \<noteq> Some (desc, a, b)
       | Some r \<Rightarrow> \<exists>n R. is_handle s p n r R \<and> r_desc R = desc"
    using handle_by_desc [OF assms(1,2)] by blast
  show ?thesis
  proof (cases found)
    case (Some r)
    then obtain n R where R: "is_handle s p n r R" "r_desc R = desc" using f(2) by auto
    then show ?thesis
      using known_handle_step [OF assms(1,4,5) R, of ?strong ?inc "manager_of p s"] f(1) Some
      by (auto simp: binder_write_ref_cmd_def Let_def)
  next
    case None
    then have T: "\<forall>n a b. handle_view s (p, n) \<noteq> Some (desc, a, b)" using f(2) by simp
    show ?thesis
    proof (cases "?inc \<and> desc = 0 \<and> manager_of p s \<noteq> None")
      case True
      then obtain m where m: "manager_of p s = Some m" by blast
      then show ?thesis
        using bootstrap_ok [OF assms m, of K ?strong] T True f(1) None assms(2) mgr
        by (simp add: binder_write_ref_cmd_def Let_def)
    next
      case False
      then show ?thesis
        using table_step.unknown [where T = "handle_view s", OF T] f(1) None assms(1,2) mgr
        by (auto simp: binder_write_ref_cmd_def Let_def split: option.splits)
    qed
  qed
qed

theorem ref_cmd_refines_witness:
  "\<exists>e s'. binder_write_ref_cmd quiet_kpi 2 5 BC_ACQUIRE 1 handle_example = Some (e, s') \<and> driver_inv s' \<and>
    table_step 2 (manager_of 2 handle_example) (BC_ACQUIRE = BC_ACQUIRE \<or> BC_ACQUIRE = BC_RELEASE)
      (BC_ACQUIRE = BC_INCREFS \<or> BC_ACQUIRE = BC_ACQUIRE) 1 (handle_view handle_example) e (handle_view s')"
  by (rule ref_cmd_refines [OF handle_example_inv, of 2 "fresh_proc\<lparr>p_refs := [4]\<rparr>"])
    (simp_all add: handle_example_defs counts_below_def int_max_def)

end
