(* ===== verification/Binder_Owner.thy ===== *)
theory Binder_Owner
  imports Binder_Commands
begin

text \<open>
  What the owner of an object is told, and when the object goes: reclaiming of
  nodes, the news queued for the owner, and the commands the read loop makes of
  them.
\<close>

section \<open>Reclaiming\<close>

text \<open>A process with one object that nobody holds and one thread.\<close>

definition owned_example :: binder_state where
  "owned_example = handle_example\<lparr>nodes := Map.empty(3 \<mapsto> new_node\<lparr>n_proc := Some 1\<rparr>), refs := Map.empty,
     procs := Map.empty(1 \<mapsto> fresh_proc\<lparr>p_nodes := [3], p_threads := [5]\<rparr>)\<rparr>"

lemma owned_example_inv: "refs_inv (\<lambda>_. 0) owned_example"
proof -
  have "graph_off (\<lambda>_. 0) owned_example"
    by (auto simp: owned_example_def graph_off_def proc_graph_ok_def node_graph_ok_def ref_graph_ok_def owner_of_def
        holder_of_def target_of_def holds_strong_def handle_example_defs split: if_splits)
  moreover have "queues_ok owned_example"
    by (auto simp: owned_example_def queues_ok_def queues_ok_on_def held_def place_def items_def get_work_def
        get_queue_def handle_example_defs split: work_ptr.splits work_head.splits if_splits)
  moreover have "async_ok owned_example"
    by (auto simp: owned_example_def async_ok_def items_def get_queue_def handle_example_defs split: if_splits)
  moreover have "deaths_ok owned_example" by (simp add: owned_example_def deaths_ok_def)
  ultimately show ?thesis by (simp add: refs_inv_def)
qed

text \<open>C19: a node is freed exactly when there is no temporary hold, no count, no handle, neither of the flags
  \<open>has_strong_ref\<close> and \<open>has_weak_ref\<close> that record what its owner was told, and no news under way. Whether the
  owner still exists makes no difference, so a flag keeps the node even when the owner is gone.
  When the node is freed nothing but it goes from the nodes, its owner's list and the manager
  role stop naming it; in every other case nothing happens.\<close>

theorem node_reclaimed_exactly:
  assumes "refs_inv d s" and "nodes s n = Some N"
  shows "\<exists>s'. binder_node_maybe_free n s = Some s' \<and> refs_inv d s' \<and>
    (if n_tmp_refs N = 0 \<and> n_internal_strong_refs N = 0 \<and> n_local_strong_refs N = 0 \<and> n_local_weak_refs N = 0 \<and>
       n_refs N = [] \<and> \<not> n_has_strong_ref N \<and> \<not> n_has_weak_ref N \<and> w_queue (n_work N) = None
     then (\<forall>m. nodes s' m = None \<longleftrightarrow> m = n \<or> nodes s m = None) \<and> refs s' = refs s \<and>
       (\<forall>p P. procs s' p = Some P \<longrightarrow> n \<notin> set (p_nodes P)) \<and>
       (mgr_ok s \<longrightarrow> (\<forall>c. c_mgr_node (contexts s' c) \<noteq> Some n))
     else s' = s)"
proof -
  obtain s' where s': "binder_node_maybe_free n s = Some s'" "refs_inv d s'"
      "if reclaimable N then core s' = core (unlink_node n N s) else s' = s"
    using maybe_free_ok [OF assms] by blast
  have iff: "reclaimable N \<longleftrightarrow> n_tmp_refs N = 0 \<and> n_internal_strong_refs N = 0 \<and> n_local_strong_refs N = 0 \<and>
      n_local_weak_refs N = 0 \<and> n_refs N = [] \<and> \<not> n_has_strong_ref N \<and> \<not> n_has_weak_ref N \<and> w_queue (n_work N) = None"
    by (auto simp: reclaimable_def binder_node_has_weak_def binder_node_has_strong_def BINDER_WORK_QUEUED_def)
  show ?thesis
  proof (cases "reclaimable N")
    case True
    then have c: "core s' = core (unlink_node n N s)" using s'(3) by simp
    have gone: "nodes s' m = None \<longleftrightarrow> m = n \<or> nodes s m = None" for m
      using core_dom(2) [OF c, of m] by (simp add: unlink_node_frame)
    have "n \<notin> set (p_nodes P)" if "procs s' p = Some P" for p P
      using graph_offD(1) [OF refs_invD(1) [OF s'(2)] that] gone [of n]
      by (auto simp: proc_graph_ok_def owner_of_def)
    moreover have "c_mgr_node (contexts s' cc) \<noteq> Some n" if "mgr_ok s" for cc
    proof -
      have "mgr_ok s'"
        using shrinksD(6) [OF shrinks_trans [OF unlink_shrinks [OF assms(2)] core_shrinks [OF c]]] that .
      moreover have "owner_of s' n = None" using gone [of n] by (simp add: owner_of_def)
      ultimately show ?thesis by (force simp: mgr_ok_def)
    qed
    moreover have "refs s' = refs s" using core_fields(1) [OF c] by (simp add: unlink_node_frame)
    ultimately show ?thesis unfolding iff [symmetric] using True s'(1,2) gone by auto
  next
    case False
    then show ?thesis unfolding iff [symmetric] using s' by auto
  qed
qed

theorem node_reclaimed_exactly_witness:
  "(\<exists>s'. binder_node_maybe_free 3 owned_example = Some s' \<and> refs_inv (\<lambda>_. 0) s' \<and> nodes s' 3 = None \<and>
     (\<forall>p P. procs s' p = Some P \<longrightarrow> 3 \<notin> set (p_nodes P))) \<and>
   binder_node_maybe_free 3 handle_example = Some handle_example"
proof -
  have free: "nodes owned_example 3 = Some (new_node\<lparr>n_proc := Some 1\<rparr>)" by (simp add: owned_example_def)
  have kept: "nodes handle_example 3 = Some (new_node\<lparr>n_proc := Some 1, n_ptr := 0x1000, n_refs := [4],
      n_internal_strong_refs := 1\<rparr>)" by (simp add: handle_example_def)
  from node_reclaimed_exactly [OF owned_example_inv free] node_reclaimed_exactly [OF driver_invD(1) [OF handle_example_inv] kept]
  show ?thesis by (auto simp: new_node_def new_work_def)
qed

section \<open>News for the owner\<close>

text \<open>The queues a process reads from: its own, and those of its threads.\<close>

definition owner_queue :: "binder_state \<Rightarrow> addr \<Rightarrow> work_head \<Rightarrow> bool" where
  "owner_queue s p q \<longleftrightarrow> (case q of ProcTodo p' \<Rightarrow> p' = p
     | ThreadTodo t \<Rightarrow> Option.bind (threads s t) t_proc = Some p | AsyncTodo m \<Rightarrow> False)"

lemma notify_owner_queue:
  assumes "binder_node_notify_owner n th s = Some s'" and "nodes s n = Some N" and "n_proc N = Some p"
    and "\<And>q. w_queue (n_work N) = Some q \<Longrightarrow> owner_queue s p q"
    and "nodes s' n = Some M" and "w_queue (n_work M) = Some q"
  shows "owner_queue s' p q"
  using assms
  by (auto simp: op_defs owner_queue_def bind_eq_Some_conv split: option.splits if_splits work_head.splits)

text \<open>C27: no crossing is lost. When a change of the counts makes an object strongly
  or weakly held that was not, or the other way round, and its owner lives,
  the object is afterwards queued for its owner: it exists, with the new counts, is owned by the same process,
  and waits on a queue of that process or of one of its threads. This holds
  of an object that was not queued and of one whose earlier news still waits on such a queue.\<close>

theorem crossing_announced:
  assumes "refs_inv d s" and "nodes s n = Some N" and "owner_alive s N"
    and "\<forall>t. th = Some t \<longrightarrow> threads s t \<noteq> None"
    and "count_refs strong increment internal N = Some (OK, N')"
    and "binder_node_has_strong N' \<noteq> binder_node_has_strong N \<or>
      binder_node_has_weak N' \<noteq> binder_node_has_weak N"
    and "n_proc N = Some p" and "\<And>q. w_queue (n_work N) = Some q \<Longrightarrow> owner_queue s p q"
  shows "\<exists>s' M q ws. binder_node_update_refs n strong increment internal th s = Some (OK, s') \<and>
    nodes s' n = Some M \<and> binder_node_has_strong M = binder_node_has_strong N' \<and>
    binder_node_has_weak M = binder_node_has_weak N' \<and> n_proc M = Some p \<and>
    w_queue (n_work M) = Some q \<and> owner_queue s' p q \<and> get_queue q s' = Some ws \<and> NodeWork n \<in> set ws"
proof -
  let ?s1 = "s\<lparr>nodes := (nodes s)(n \<mapsto> N')\<rparr>"
  let ?d = "d(n := d n + strong_delta strong increment internal)"
  have inv1: "refs_inv ?d ?s1" by (rule refs_inv_count [OF assms(1,2,5)])
  have ow: "owner_alive ?s1 N'"
    using assms(3) count_refs_id [OF assms(5)] by (simp add: owner_alive_def node_id_def)
  have "\<exists>s2. binder_node_notify_owner n th ?s1 = Some s2 \<and> refs_inv ?d s2 \<and> core s2 = core ?s1 \<and>
      (owner_alive ?s1 N' \<longrightarrow> (\<exists>M. nodes s2 n = Some M \<and> BINDER_WORK_QUEUED (n_work M)))"
    by (rule notify_owner_inv [OF inv1]) (use assms(4) in simp_all)
  then obtain s2 M where s2: "binder_node_notify_owner n th ?s1 = Some s2" "refs_inv ?d s2"
      "core s2 = core ?s1" "nodes s2 n = Some M" "BINDER_WORK_QUEUED (n_work M)" using ow by blast
  obtain N2 where "nodes ?s1 n = Some N2" "node_core M = node_core N2"
    using core_nodeD [OF s2(3,4)] by blast
  then have M: "node_core M = node_core N'" by simp
  have "binder_node_has_strong M = binder_node_has_strong N'"
      "binder_node_has_weak M = binder_node_has_weak N'"
    using node_coreD [OF M] by (simp_all add: binder_node_has_weak_def binder_node_has_strong_def)
  moreover have "binder_node_maybe_free n s2 = Some s2"
    using s2(4,5) by (simp add: binder_node_maybe_free_def)
  moreover obtain q where q: "w_queue (n_work M) = Some q" using s2(5) by (auto simp: BINDER_WORK_QUEUED_def)
  then have "place s2 (NodeWork n) = Some (Some q)" using s2(4) by (simp add: place_def get_work_def)
  then obtain ws where "items s2 q = Some ws" "NodeWork n \<in> set ws"
    using queues_okD(1) [OF refs_invD(2) [OF s2(2)]] by blast
  moreover have N': "n_proc N' = Some p" "n_work N' = n_work N"
    using assms(5,7) by (auto simp: count_refs_def bind_eq_Some_conv split: if_splits)
  have "owner_queue s2 p q"
    by (rule notify_owner_queue [OF s2(1) _ N'(1) _ s2(4) q]) (use assms(8) N'(2) in \<open>auto simp: owner_queue_def split: work_head.splits\<close>)
  moreover have "n_proc M = Some p" using node_coreD [OF M] N'(1) by simp
  ultimately show ?thesis
    using assms(2,5,6) s2(1,4) q
    by (auto simp: binder_node_update_refs_def upd_node_def items_def)
qed

theorem crossing_announced_witness:
  "\<exists>s' M q ws. binder_node_update_refs 3 True True False None owned_example = Some (OK, s') \<and>
    nodes s' 3 = Some M \<and> w_queue (n_work M) = Some q \<and> owner_queue s' 1 q \<and> get_queue q s' = Some ws \<and> NodeWork 3 \<in> set ws"
proof -
  let ?N = "new_node\<lparr>n_proc := Some 1\<rparr>"
  have N: "nodes owned_example 3 = Some ?N" by (simp add: owned_example_def)
  have c: "count_refs True True False ?N = Some (OK, ?N\<lparr>n_local_strong_refs := 1\<rparr>)"
    by (simp add: count_refs_def int_inc_def int_max_def new_node_def)
  show ?thesis
    using crossing_announced [OF owned_example_inv N, of None True True False, OF _ _ c]
    by (auto simp: owned_example_def owner_alive_def fresh_proc_def binder_node_has_strong_def new_node_def new_work_def)
qed

section \<open>Reading the news\<close>

lemma trace_upd [simp]:
  "upd_proc p f1 s = Some s' \<Longrightarrow> trace s' = trace s" "upd_thread t f2 s = Some s' \<Longrightarrow> trace s' = trace s"
  "upd_node n f3 s = Some s' \<Longrightarrow> trace s' = trace s" "upd_txn x f4 s = Some s' \<Longrightarrow> trace s' = trace s"
  "upd_death e f5 s = Some s' \<Longrightarrow> trace s' = trace s" "upd_complete c f6 s = Some s' \<Longrightarrow> trace s' = trace s"
  "upd_buffer p b f7 s = Some s' \<Longrightarrow> trace s' = trace s"
  "trace (upd_context k f8 s) = trace s"
  by (auto simp: upd_defs upd_buffer_def bind_eq_Some_conv split: if_splits)

lemma trace_upd_work: "upd_work w f s = Some s' \<Longrightarrow> trace s' = trace s"
  by (cases w) (auto simp: upd_work_def)

lemma trace_upd_queue: "upd_queue q f s = Some s' \<Longrightarrow> trace s' = trace s"
  by (cases q) (auto simp: upd_queue_def)

lemma trace_dequeue: "binder_dequeue_work w s = Some s' \<Longrightarrow> trace s' = trace s"
  by (auto simp: binder_dequeue_work_def bind_eq_Some_conv split: option.splits if_splits
      dest!: trace_upd_work trace_upd_queue)

lemma trace_pop_stack: "pop_stack t x parent s = Some s' \<Longrightarrow> trace s' = trace s"
  by (auto simp: pop_stack_def bind_eq_Some_conv split: option.splits if_splits)

lemma trace_free_transaction: "binder_free_transaction t s = Some s' \<Longrightarrow> trace s' = trace s"
  by (auto simp: binder_free_transaction_def bind_eq_Some_conv split: option.splits if_splits
      dest!: trace_dequeue trace_pop_stack)

lemma trace_async_drain: "async_drain ws s = Some s' \<Longrightarrow> trace s' = trace s"
  by (induction ws arbitrary: s)
    (auto simp: bind_eq_Some_conv split: if_splits work_ptr.splits
      dest!: trace_dequeue trace_free_transaction)

lemma trace_unlink_node [simp]: "trace (unlink_node n N s) = trace s"
  by (auto simp: unlink_node_def drop_mgr_def Let_def split: option.splits)

lemma trace_maybe_free:
  assumes inv: "refs_inv d s" and N: "nodes s n = Some N" and s': "binder_node_maybe_free n s = Some s'"
  shows "trace s' = trace s"
proof -
  have "procs s p \<noteq> None" if "n_proc N = Some p" for p
    using graph_offD(2) [OF refs_invD(1) [OF inv] N] that by (auto simp: node_graph_ok_def)
  from maybe_free_eq [OF N this] show ?thesis
    using s' trace_async_drain
    by (cases "async_drain (n_async_todo N) s") (fastforce split: if_splits)+
qed

text \<open>What a list of commands leaves in the read buffer: each command word, followed by
  the object's two pointers.\<close>

primrec news_events :: "u64 \<Rightarrow> byte list \<Rightarrow> u64 \<Rightarrow> u32 list \<Rightarrow> kernel_event list" where
  "news_events buffer pc consumed [] = []"
| "news_events buffer pc consumed (cmd # cmds) =
     CopyOut (buffer + consumed) (word_le 4 cmd) # CopyOut (buffer + consumed + 4) pc #
     news_events buffer pc (consumed + 20) cmds"

lemma room_step:
  fixes x :: u64
  assumes "\<not> x < of_nat (20 * Suc k)" and "k \<le> 3"
  shows "\<not> x < 20" "\<not> x - 20 < of_nat (20 * k)"
proof -
  have k: "unat (of_nat (20 * Suc k) :: u64) = 20 * Suc k" "unat (of_nat (20 * k) :: u64) = 20 * k"
    by (simp_all only: unat_of_nat) (use assms(2) in simp_all)
  have x: "20 * Suc k \<le> unat x" using assms(1) unfolding word_less_nat_alt k(1) by simp
  then show "\<not> x < 20" by (simp add: word_less_nat_alt)
  then have "unat (x - 20) = unat x - 20" by (simp add: unat_sub linorder_not_less)
  then show "\<not> x - 20 < of_nat (20 * k)" using x unfolding word_less_nat_alt k(2) by simp
qed

lemma emit_news_append:
  "emit_news K n buffer sz pc (xs @ ys) consumed s = do {
     (e, consumed, s) \<leftarrow> emit_news K n buffer sz pc xs consumed s;
     if e \<noteq> OK then Some (e, consumed, s) else emit_news K n buffer sz pc ys consumed s }"
  by (induction xs arbitrary: consumed s) (auto split: prod.splits Option.bind_splits)

lemma emit_news_run:
  assumes ok: "\<And>c a b. copyout_ok K c a b" and pc: "length pc = 16"
  shows "nodes s n = Some N \<Longrightarrow> length cmds \<le> 4 \<Longrightarrow> \<not> sz - consumed < of_nat (20 * length cmds) \<Longrightarrow>
    BR_DECREFS \<notin> set cmds \<Longrightarrow>
    emit_news K n buffer sz pc cmds consumed s = Some (OK, consumed + of_nat (20 * length cmds),
      s\<lparr>nodes := (nodes s)(n \<mapsto> fold record_news cmds N), clock := clock s + 2 * length cmds,
        trace := trace s @ news_events buffer pc consumed cmds\<rparr>)"
proof (induction cmds arbitrary: consumed s N)
  case Nil
  then show ?case by (simp add: fun_upd_idem)
next
  case (Cons cmd cmds)
  have room: "\<not> sz - consumed < 20" "\<not> sz - consumed - 20 < of_nat (20 * length cmds)"
    using room_step [of "sz - consumed" "length cmds"] Cons.prems(2,3) by simp_all
  let ?s = "s\<lparr>nodes := (nodes s)(n \<mapsto> record_news cmd N), clock := Suc (Suc (clock s)),
    trace := trace s @ [CopyOut (buffer + consumed) (word_le 4 cmd), CopyOut (buffer + consumed + 4) pc]\<rparr>"
  have eq: "sz - (consumed + 20) = sz - consumed - 20" by simp
  have room2: "\<not> sz - (consumed + 20) < of_nat (20 * length cmds)" unfolding eq by (rule room(2))
  then have "emit_news K n buffer sz pc cmds (consumed + 20) ?s =
      Some (OK, consumed + 20 + of_nat (20 * length cmds),
      ?s\<lparr>nodes := (nodes ?s)(n \<mapsto> fold record_news cmds (record_news cmd N)),
        clock := clock ?s + 2 * length cmds,
        trace := trace ?s @ news_events buffer pc (consumed + 20) cmds\<rparr>)"
    using Cons.IH [of ?s "record_news cmd N" "consumed + 20"] Cons.prems by (simp del: fun_upd_apply add: fun_upd_same)
  then show ?case
    using Cons.prems room(1) ok pc
    by (auto simp del: fun_upd_apply simp: upd_node_def binder_put_cmd_data_def binder_copyout_def algebra_simps)
qed

definition news_told :: "binder_node \<Rightarrow> binder_node" where
  "news_told N = fold record_news (node_news N) N"

lemma news_told_flags:
  "n_has_strong_ref (news_told N) = binder_node_has_strong N"
  "n_has_weak_ref (news_told N) = binder_node_has_weak N"
  by (auto simp: news_told_def node_news_def record_news_def Let_def abi_defs)

lemma news_told_rest:
  "binder_node_has_strong (news_told N) = binder_node_has_strong N"
  "binder_node_has_weak (news_told N) = binder_node_has_weak N"
  "n_tmp_refs (news_told N) = n_tmp_refs N" "n_work (news_told N) = n_work N"
  "n_async_todo (news_told N) = n_async_todo N" "n_refs (news_told N) = n_refs N"
  "n_proc (news_told N) = n_proc N"
  "n_internal_strong_refs (news_told N) = n_internal_strong_refs N"
  "n_local_strong_refs (news_told N) = n_local_strong_refs N"
  "n_local_weak_refs (news_told N) = n_local_weak_refs N"
  by (auto simp: news_told_def node_news_def record_news_def binder_node_has_strong_def
      binder_node_has_weak_def Let_def)

lemma node_news_split:
  obtains cmds where "BR_DECREFS \<notin> set cmds" "length cmds \<le> 3"
    "node_news N = cmds @ (if \<not> binder_node_has_weak N \<and> n_has_weak_ref N then [BR_DECREFS] else [])"
  by (rule that [of "(if binder_node_has_weak N \<and> \<not> n_has_weak_ref N then [BR_INCREFS] else []) @
      (if binder_node_has_strong N \<and> \<not> n_has_strong_ref N then [BR_ACQUIRE] else []) @
      (if \<not> binder_node_has_strong N \<and> n_has_strong_ref N then [BR_RELEASE] else [])"])
    (auto simp: node_news_def Let_def abi_defs)

lemma refs_inv_told:
  assumes inv: "refs_inv d s" and N: "nodes s n = Some N"
  shows "refs_inv d (s\<lparr>nodes := (nodes s)(n \<mapsto> news_told N), clock := k, trace := tr\<rparr>)" (is "refs_inv d ?s")
proof -
  note i = refs_invD [OF inv]
  have w: "items ?s = items s" "place ?s = place s" "\<And>p b. get_buffer p b ?s = get_buffer p b s"
    by (rule work_frame_fields; use N in \<open>simp add: news_told_rest\<close>)+
  have "graph_off (d(n := d n + 0)) ?s"
    by (rule graph_off_count [OF i(1) N, where N' = "news_told N"])
      (use graph_offD(2) [OF i(1) N] in \<open>simp_all add: news_told_rest node_graph_ok_def\<close>)
  moreover have "queues_ok ?s" "async_ok ?s"
    using work_frame [OF w(1,2) _ _ i(2,3)] w(3) by simp_all
  moreover have "deaths_ok ?s" by (rule deaths_ok_frame [OF i(4)]) simp_all
  ultimately show ?thesis by (simp add: refs_inv_def)
qed

lemma news_events_append:
  "news_events buffer pc consumed (xs @ ys) = news_events buffer pc consumed xs @
     news_events buffer pc (consumed + of_nat (20 * length xs)) ys"
  by (induction xs arbitrary: consumed) (simp_all add: algebra_simps)

lemma room_last:
  fixes x :: u64
  assumes "\<not> x < of_nat (20 * Suc k)" and "k \<le> 3"
  shows "\<not> x < of_nat (20 * k)" "\<not> x - of_nat (20 * k) < 20"
proof -
  have k: "unat (of_nat (20 * Suc k) :: u64) = 20 * Suc k" "unat (of_nat (20 * k) :: u64) = 20 * k"
    by (simp_all only: unat_of_nat) (use assms(2) in simp_all)
  have x: "20 * Suc k \<le> unat x" using assms(1) unfolding word_less_nat_alt k(1) by simp
  then show 1: "\<not> x < of_nat (20 * k)" unfolding word_less_nat_alt k(2) by simp
  then have "unat (x - of_nat (20 * k)) = unat x - 20 * k"
    by (metis k(2) linorder_not_less unat_sub)
  then show "\<not> x - of_nat (20 * k) < 20" using x by (simp add: word_less_nat_alt)
qed

text \<open>The news end with \<open>BR_DECREFS\<close>: the object may go.\<close>

lemma last_news_run:
  assumes inv: "refs_inv d s" and N: "nodes s n = Some N" and ok: "\<And>c a b. copyout_ok K c a b"
    and pc: "length pc = 16" and news: "node_news N = cmds @ [BR_DECREFS]"
    and cmds: "BR_DECREFS \<notin> set cmds" "length cmds \<le> 3"
    and room: "\<not> sz - consumed < of_nat (20 * length (node_news N))"
  shows "\<exists>s'. emit_news K n buffer sz pc (node_news N) consumed s =
      Some (OK, consumed + of_nat (20 * length (node_news N)), s') \<and> refs_inv d s' \<and>
    trace s' = trace s @ news_events buffer pc consumed (node_news N) \<and>
    (nodes s' n = None \<and> reclaimable (news_told N) \<or> nodes s' n = Some (news_told N))"
proof -
  let ?c = "consumed + of_nat (20 * length cmds)"
  have r: "\<not> sz - consumed < of_nat (20 * length cmds)" "\<not> sz - ?c < 20"
    using room_last [of "sz - consumed" "length cmds"] room cmds(2) news by (simp_all add: diff_diff_eq)
  let ?s0 = "s\<lparr>nodes := (nodes s)(n \<mapsto> fold record_news cmds N), clock := clock s + 2 * length cmds,
        trace := trace s @ news_events buffer pc consumed cmds\<rparr>"
  have e1: "emit_news K n buffer sz pc cmds consumed s = Some (OK, ?c, ?s0)"
    by (rule emit_news_run [OF ok pc N _ r(1) cmds(1)]) (use cmds(2) in simp)
  let ?s1 = "s\<lparr>nodes := (nodes s)(n \<mapsto> news_told N), clock := clock s + 2 * length cmds + 2,
        trace := trace s @ news_events buffer pc consumed (node_news N)\<rparr>"
  have inv1: "refs_inv d ?s1" by (rule refs_inv_told [OF inv N])
  have N1: "nodes ?s1 n = Some (news_told N)" by simp
  obtain s' where s': "binder_node_maybe_free n ?s1 = Some s'" "refs_inv d s'"
      "if reclaimable (news_told N) then core s' = core (unlink_node n (news_told N) ?s1) else s' = ?s1"
    using maybe_free_ok [OF inv1 N1] by blast
  have "emit_news K n buffer sz pc [BR_DECREFS] ?c ?s0 = Some (OK, ?c + 20, s')"
    using s'(1) r(2) ok pc
    by (simp del: fun_upd_apply add: fun_upd_same upd_node_def binder_put_cmd_data_def binder_copyout_def
        binder_node_release_def news_told_def news news_events_append numeral_2_eq_2)
  then have "emit_news K n buffer sz pc (node_news N) consumed s = Some (OK, ?c + 20, s')"
    unfolding news emit_news_append e1 by simp
  moreover have "trace s' = trace s @ news_events buffer pc consumed (node_news N)"
    using trace_maybe_free [OF inv1 N1 s'(1)] by simp
  moreover have "nodes s' n = None \<and> reclaimable (news_told N) \<or> nodes s' n = Some (news_told N)"
  proof (cases "reclaimable (news_told N)")
    case True
    then have "core s' = core (unlink_node n (news_told N) ?s1)" using s'(3) by simp
    from core_dom(2) [OF this, of n] True show ?thesis by (simp add: unlink_node_frame)
  qed (use s'(3) in simp)
  ultimately show ?thesis using s'(2) news by (auto simp: algebra_simps)
qed

text \<open>C15: the news a read delivers. When there is room for them, reading the work item of
  an object writes exactly the commands the owner is owed, each followed by the
  object's pointers, and afterwards the owner has been told the truth: it is
  recorded as holding a strong (weak) reference exactly when somebody does, so
  a second read delivers nothing. If the last of them was \<open>BR_DECREFS\<close> and nothing else
  holds the object, it is gone.\<close>

theorem news_reconciled:
  assumes "refs_inv d s" and "nodes s n = Some N" and "\<forall>c a b. copyout_ok K c a b"
    and "\<not> sz - consumed < of_nat (20 * length (node_news N))"
  shows "\<exists>s'. binder_read_node_work K n buffer sz consumed s =
      Some (OK, consumed + of_nat (20 * length (node_news N)), s') \<and> refs_inv d s' \<and>
    trace s' = trace s @ news_events buffer (ptr_cookie_bytes (n_ptr N) (n_cookie N)) consumed (node_news N) \<and>
    (case nodes s' n of
       None \<Rightarrow> reclaimable (news_told N) \<and> last (node_news N) = BR_DECREFS
     | Some N' \<Rightarrow> n_has_strong_ref N' = binder_node_has_strong N' \<and>
         n_has_weak_ref N' = binder_node_has_weak N' \<and> node_news N' = [])"
proof (cases "node_news N = []")
  case True
  then have "N = news_told N" by (simp add: news_told_def)
  then have "n_has_strong_ref N = binder_node_has_strong N" "n_has_weak_ref N = binder_node_has_weak N"
    using news_told_flags [of N] by simp_all
  then show ?thesis using assms(1,2) True by (simp add: binder_read_node_work_def Let_def)
next
  case False
  let ?pc = "ptr_cookie_bytes (n_ptr N) (n_cookie N)"
  obtain cmds where cmds: "BR_DECREFS \<notin> set cmds" "length cmds \<le> 3"
    "node_news N = cmds @ (if \<not> binder_node_has_weak N \<and> n_has_weak_ref N then [BR_DECREFS] else [])"
    by (rule node_news_split)
  let ?fin = "\<lambda>k. s\<lparr>nodes := (nodes s)(n \<mapsto> news_told N), clock := k,
    trace := trace s @ news_events buffer ?pc consumed (node_news N)\<rparr>"
  have flags: "n_has_strong_ref N' = binder_node_has_strong N'" "n_has_weak_ref N' = binder_node_has_weak N'"
      "node_news N' = []" if "N' = news_told N" for N'
    using that by (simp_all add: news_told_flags news_told_rest node_news_def Let_def)
  have start: "binder_read_node_work K n buffer sz consumed s =
      emit_news K n buffer sz ?pc (node_news N) consumed s"
    using assms(2,4) False by (simp add: binder_read_node_work_def Let_def algebra_simps)
  show ?thesis
  proof (cases "\<not> binder_node_has_weak N \<and> n_has_weak_ref N")
    case no: False
    then have "emit_news K n buffer sz ?pc (node_news N) consumed s =
        Some (OK, consumed + of_nat (20 * length (node_news N)), ?fin (clock s + 2 * length (node_news N)))"
      using emit_news_run [of K ?pc s n N "node_news N" sz consumed buffer] assms(2-4) cmds
      by (simp add: news_told_def)
    then show ?thesis using start refs_inv_told [OF assms(1,2)] flags [OF refl] by simp
  next
    case yes: True
    then have news: "node_news N = cmds @ [BR_DECREFS]" using cmds(3) by simp
    obtain s' where s': "emit_news K n buffer sz ?pc (node_news N) consumed s =
        Some (OK, consumed + of_nat (20 * length (node_news N)), s')" "refs_inv d s'"
        "trace s' = trace s @ news_events buffer ?pc consumed (node_news N)"
        "nodes s' n = None \<and> reclaimable (news_told N) \<or> nodes s' n = Some (news_told N)"
      using last_news_run [OF assms(1,2) _ _ news cmds(1,2) assms(4), of K ?pc buffer] assms(3) by auto
    then show ?thesis using start flags [OF refl] news by auto
  qed
qed

theorem news_reconciled_witness:
  "\<exists>s'. binder_read_node_work quiet_kpi 3 0 100 0 handle_example = Some (OK, 40, s') \<and>
    refs_inv (\<lambda>_. 0) s' \<and>
    trace s' = [CopyOut 0 (word_le 4 BR_INCREFS), CopyOut 4 (ptr_cookie_bytes 0x1000 0),
      CopyOut 20 (word_le 4 BR_ACQUIRE), CopyOut 24 (ptr_cookie_bytes 0x1000 0)]"
proof -
  let ?N = "new_node\<lparr>n_proc := Some 1, n_ptr := 0x1000, n_refs := [4], n_internal_strong_refs := 1\<rparr>"
  have N: "nodes handle_example 3 = Some ?N" by (simp add: handle_example_def)
  have news: "node_news ?N = [BR_INCREFS, BR_ACQUIRE]"
    by (simp add: node_news_def binder_node_has_strong_def binder_node_has_weak_def new_node_def)
  show ?thesis
    using news_reconciled [OF driver_invD(1) [OF handle_example_inv] N, of quiet_kpi 100 0 0]
    unfolding news by (auto simp: quiet_kpi_def new_node_def handle_example_def initial_state_def)
qed

section \<open>Death of an owner\<close>

lemma refs_inv_frame:
  assumes inv: "refs_inv d s" and c: "core s' = core s" and w: "items s' = items s" "place s' = place s"
    "txns s' = txns s"
  shows "refs_inv d s'"
  using work_frame [OF w _ refs_invD(2,3) [OF inv]] get_buffer_core [OF c]
    graph_off_core [OF c refs_invD(1) [OF inv]] deaths_ok_core [OF c refs_invD(4) [OF inv]]
  by (simp add: refs_inv_def)

lemma insert_inv:
  assumes inv: "refs_inv d s" and w: "place s w \<noteq> None" "\<And>x. w \<noteq> TxnWork x"
    and q: "items s q \<noteq> None" "\<And>m. q \<noteq> AsyncTodo m"
  shows "\<exists>s'. binder_queue_insert q w h s = Some s' \<and> refs_inv d s' \<and> core s' = core s \<and>
    txns s' = txns s \<and> trace s' = trace s \<and>
    (place s w = Some None \<longrightarrow> place s' = (place s)(w := Some (Some q)))"
proof -
  note i = refs_invD [OF inv]
  from insert_ok [OF i(2) w(1) q(1), of h] obtain s' where s': "binder_queue_insert q w h s = Some s'"
      "queues_ok s'" "\<forall>r. r \<noteq> q \<longrightarrow> items s' r = items s r" by blast
  note c = core_insert [OF s'(1)] and t = insert_txns [OF s'(1) w(2)]
  have "items s' (AsyncTodo m) = items s (AsyncTodo m)" for m using s'(3) q(2) [of m] by metis
  then have "async_ok s'" using async_ok_frame [OF i(3) c t] by blast
  then have "refs_inv d s'"
    using s'(2) graph_off_core [OF c i(1)] deaths_ok_core [OF c i(4)] by (simp add: refs_inv_def)
  moreover have "place s' = (place s)(w := Some (Some q))" if "place s w = Some None"
  proof -
    obtain ws where "items s q = Some ws" using q(1) by blast
    from binder_queue_insert_effect [OF that this, of h] s'(1) show ?thesis by auto
  qed
  moreover have "trace s' = trace s"
    using s'(1) by (auto simp: binder_queue_insert_def bind_eq_Some_conv split: if_splits
        dest!: trace_upd_work trace_upd_queue)
  ultimately show ?thesis using s'(1) c t by blast
qed

lemma wakeup_proc_inv:
  assumes inv: "refs_inv d s" and p: "procs s p \<noteq> None"
  shows "\<exists>s' ev. binder_wakeup_proc p s = Some s' \<and> refs_inv d s' \<and> core s' = core s \<and>
    items s' = items s \<and> place s' = place s \<and> deaths s' = deaths s \<and> txns s' = txns s \<and>
    trace s' = trace s @ Wakeup (ChanProc p) # ev"
proof -
  obtain P where P: "procs s p = Some P" using p by blast
  let ?t = "s\<lparr>trace := trace s @ [Wakeup (ChanProc p)]\<rparr>"
  let ?u = "s\<lparr>trace := trace s @ [Wakeup (ChanProc p), SelWakeup p],
    procs := (procs s)(p \<mapsto> P\<lparr>p_sel_recorded := False\<rparr>)\<rparr>"
  have run: "binder_wakeup_proc p s = Some (if p_sel_recorded P then ?u else ?t)"
    using P by (simp add: binder_wakeup_proc_def binder_sel_wakeup_def binder_wake_def emit_def upd_proc_def)
  have "items ?u = items s" "place ?u = place s" by (rule work_frame_fields; use P in simp)+
  moreover have "items ?t = items s" "place ?t = place s" by (rule work_frame_fields; simp)+
  ultimately have w: "items s' = items s" "place s' = place s"
    if "s' = (if p_sel_recorded P then ?u else ?t)" for s' using that by auto
  note c = core_wakeup_proc [OF run]
  have "txns (if p_sel_recorded P then ?u else ?t) = txns s" by simp
  from refs_inv_frame [OF inv c w [OF refl] this] show ?thesis
    using run c w [OF refl] by auto
qed

lemma deaths_ok_dom:
  assumes "deaths_ok s" and "refs s' = refs s" and "\<And>e. deaths s' e = None \<longleftrightarrow> deaths s e = None"
  shows "deaths_ok s'"
  using assms(1) unfolding deaths_ok_def assms(2,3) .

lemma refs_inv_death:
  assumes inv: "refs_inv d s" and D: "deaths s e = Some D" and D': "w_queue (d_work D') = w_queue (d_work D)"
  shows "refs_inv d (s\<lparr>deaths := (deaths s)(e \<mapsto> D')\<rparr>)" (is "refs_inv d ?s")
    and "place (s\<lparr>deaths := (deaths s)(e \<mapsto> D')\<rparr>) = place s"
proof -
  note i = refs_invD [OF inv]
  show pl: "place ?s = place s"
    using D D' by (auto simp: place_def get_work_def fun_eq_iff split: work_ptr.splits)
  have "graph_off d ?s"
    using i(1) by (simp add: graph_off_def proc_graph_ok_def node_graph_ok_def ref_graph_ok_def
        holder_of_def target_of_def holds_strong_def owner_of_def cong: filter_cong)
  moreover have "queues_ok ?s" "async_ok ?s" using work_frame [OF _ pl _ _ i(2,3)] by simp_all
  moreover have "deaths_ok ?s" by (rule deaths_ok_dom [OF i(4)]) (use D in auto)
  ultimately show "refs_inv d ?s" by (simp add: refs_inv_def)
qed

end
