(* ===== verification/Binder_Teardown.thy ===== *)
theory Binder_Teardown
  imports Binder_Owner Binder_Proc
begin

text \<open>
  The end of a process (\<^verbatim>\<open>kext/binder_node.c\<close>, \<open>binder_node_died\<close>, and the part of
  \<open>binder_proc_release\<close> in \<^verbatim>\<open>kext/binder_proc.c\<close> that gives up the context manager, the
  nodes and the handles of the process): every holder of a handle on a dying node
  that asked to be told is told, and what is left of the reference graph is exact. Objects whose owner was told that
  they are held, and died, stay for ever.
\<close>

section \<open>Telling the holders\<close>

text \<open>What telling a holder changes, and what it does not.\<close>

definition node_cores :: "binder_state \<Rightarrow> addr \<Rightarrow> binder_node option" where
  "node_cores s = (\<lambda>m. map_option node_core (nodes s m))"

definition death_state :: "binder_state \<Rightarrow> addr \<Rightarrow> work_head option option \<times> binder_ref_death option" where
  "death_state s e = (place s (DeathWork e), map_option death_core (deaths s e))"

definition told_dead :: "binder_state \<Rightarrow> addr \<Rightarrow> addr \<Rightarrow> u64 \<Rightarrow> bool" where
  "told_dead s p e cookie \<longleftrightarrow> place s (DeathWork e) = Some (Some (ProcTodo p)) \<and>
     (\<exists>D. deaths s e = Some D \<and> d_cookie D = cookie \<and> w_type (d_work D) = BINDER_WORK_DEAD_BINDER) \<and>
     Wakeup (ChanProc p) \<in> set (trace s)"

lemma died_one:
  assumes inv: "refs_inv d s" and R: "refs s r = Some R"
  shows "\<exists>s' ev. died_loop [r] s = Some s' \<and> refs_inv d s' \<and> refs s' = refs s \<and> shrinks s s' \<and>
    node_cores s' = node_cores s \<and> contexts s' = contexts s \<and> txns s' = txns s \<and> trace s' = trace s @ ev \<and>
    (\<forall>e. r_death R \<noteq> Some e \<longrightarrow> death_state s' e = death_state s e) \<and>
    (\<forall>e D. r_death R = Some e \<longrightarrow> deaths s e = Some D \<longrightarrow> w_queue (d_work D) = None \<longrightarrow>
      told_dead s' (r_proc R) e (d_cookie D))"
proof (cases "\<exists>e D. r_death R = Some e \<and> deaths s e = Some D \<and> \<not> BINDER_WORK_QUEUED (d_work D)")
  case False
  have "deaths s e \<noteq> None" if "r_death R = Some e" for e
    using refs_invD(4) [OF inv] R that unfolding deaths_ok_def by blast
  then have "died_loop [r] s = Some s"
    using False R by (auto split: option.splits)
  then show ?thesis using False inv by (auto simp: BINDER_WORK_QUEUED_def)
next
  case True
  then obtain e D where e: "r_death R = Some e" and D: "deaths s e = Some D" "w_queue (d_work D) = None"
    by (auto simp: BINDER_WORK_QUEUED_def)
  obtain P where P: "procs s (r_proc R) = Some P"
    using graph_offD(3) [OF refs_invD(1) [OF inv] R] by (auto simp: ref_graph_ok_def)
  let ?D = "d_work_update (w_type_update (\<lambda>_. BINDER_WORK_DEAD_BINDER)) D"
  let ?s1 = "s\<lparr>deaths := (deaths s)(e \<mapsto> ?D)\<rparr>"
  have inv1: "refs_inv d ?s1" and pl1: "place ?s1 = place s"
    using refs_inv_death [OF inv D(1), of ?D] D(2) by simp_all
  have w: "place ?s1 (DeathWork e) = Some None" using D by (simp add: place_def get_work_def)
  obtain s2 where s2: "binder_queue_insert (ProcTodo (r_proc R)) (DeathWork e) False ?s1 = Some s2"
      "refs_inv d s2" "core s2 = core ?s1" "txns s2 = txns ?s1" "trace s2 = trace ?s1"
      "place s2 = (place ?s1)(DeathWork e := Some (Some (ProcTodo (r_proc R))))"
    using insert_inv [OF inv1, of "DeathWork e" "ProcTodo (r_proc R)" False] w P
    by (auto simp: items_def get_queue_def)
  have p2: "procs s2 (r_proc R) \<noteq> None" using core_dom(1) [OF s2(3), of "r_proc R"] P by simp
  obtain s3 ev where s3: "binder_wakeup_proc (r_proc R) s2 = Some s3" "refs_inv d s3" "core s3 = core s2"
      "place s3 = place s2" "deaths s3 = deaths s2" "txns s3 = txns s2"
      "trace s3 = trace s2 @ Wakeup (ChanProc (r_proc R)) # ev"
    using wakeup_proc_inv [OF s2(2) p2] by blast
  have c: "core s3 = core ?s1" by (simp only: s3(3) s2(3))
  have "died_loop [r] s = Some s3"
    using R e D s2(1) s3(1)
    by (simp add: BINDER_WORK_QUEUED_def upd_death_def binder_enqueue_work_def)
  moreover have "shrinks s s3"
    by (rule shrinks_trans [OF other_shrinks core_shrinks [OF c]]) (use D in auto)
  moreover have "node_cores s3 = node_cores s"
    using core_fields(5) [OF c] by (simp add: node_cores_def)
  moreover have "death_state s3 e' = death_state s e'" if "r_death R \<noteq> Some e'" for e'
    using that e core_fields(7) [OF c, of e'] by (simp add: death_state_def s3(4) s2(6) pl1)
  moreover have "told_dead s3 (r_proc R) e (d_cookie D)"
  proof -
    have "map_option death_core (deaths s3 e) = Some (death_core ?D)" using core_fields(7) [OF c, of e] by simp
    then obtain D3 where D3: "deaths s3 e = Some D3" "death_core D3 = death_core ?D" by auto
    have "d_cookie D3 = d_cookie D" "w_type (d_work D3) = BINDER_WORK_DEAD_BINDER"
      using arg_cong [OF D3(2), of d_cookie] arg_cong [OF D3(2), of "\<lambda>D. w_type (d_work D)"]
      by (simp_all add: death_core_def work_core_def)
    then show ?thesis using D3(1) s3(4,7) s2(6) by (simp add: told_dead_def)
  qed
  moreover have "refs s3 = refs s" "contexts s3 = contexts s" using core_fields(1,2) [OF c] by simp_all
  ultimately show ?thesis using s3(2,6,7) s2(4,5) e D by auto
qed

lemma death_stateD:
  assumes "death_state s' e = death_state s e" and "deaths s e = Some D"
  shows "\<exists>D'. deaths s' e = Some D' \<and> d_cookie D' = d_cookie D \<and>
    w_type (d_work D') = w_type (d_work D) \<and> w_queue (d_work D') = w_queue (d_work D)"
proof -
  have "map_option death_core (deaths s' e) = Some (death_core D)"
    using assms by (simp add: death_state_def)
  then obtain D' where D': "deaths s' e = Some D'" "death_core D' = death_core D" by auto
  have "w_queue (d_work D') = w_queue (d_work D)"
    using assms D'(1) by (simp add: death_state_def place_def get_work_def)
  moreover have "d_cookie D' = d_cookie D" "w_type (d_work D') = w_type (d_work D)"
    using arg_cong [OF D'(2), of d_cookie] arg_cong [OF D'(2), of "\<lambda>D. w_type (d_work D)"]
    by (simp_all add: death_core_def work_core_def)
  ultimately show ?thesis using D'(1) by blast
qed

lemma told_dead_keep:
  assumes "told_dead s p e c" and "death_state s' e = death_state s e" and "trace s' = trace s @ ev"
  shows "told_dead s' p e c"
proof -
  obtain D where D: "deaths s e = Some D" "d_cookie D = c" "w_type (d_work D) = BINDER_WORK_DEAD_BINDER"
    using assms(1) by (auto simp: told_dead_def)
  show ?thesis using death_stateD [OF assms(2) D(1)] D assms
    by (auto simp: told_dead_def death_state_def)
qed

definition no_death_of :: "addr list \<Rightarrow> binder_state \<Rightarrow> addr \<Rightarrow> bool" where
  "no_death_of rs s e \<longleftrightarrow> (\<forall>r R. r \<in> set rs \<longrightarrow> refs s r = Some R \<longrightarrow> r_death R \<noteq> Some e)"

definition all_told :: "addr list \<Rightarrow> binder_state \<Rightarrow> binder_state \<Rightarrow> bool" where
  "all_told rs s s' \<longleftrightarrow> (\<forall>r R e D. r \<in> set rs \<longrightarrow> refs s r = Some R \<longrightarrow> r_death R = Some e \<longrightarrow>
     deaths s e = Some D \<longrightarrow> w_queue (d_work D) = None \<longrightarrow> told_dead s' (r_proc R) e (d_cookie D))"

lemma all_told_Cons:
  assumes inv: "refs_inv d s" and R: "refs s r = Some R" and r: "r \<notin> set rs"
    and s1: "refs s1 = refs s" "\<And>e. r_death R \<noteq> Some e \<Longrightarrow> death_state s1 e = death_state s e"
      "\<And>e D. r_death R = Some e \<Longrightarrow> deaths s e = Some D \<Longrightarrow> w_queue (d_work D) = None \<Longrightarrow>
        told_dead s1 (r_proc R) e (d_cookie D)"
    and s2: "\<And>e. no_death_of rs s1 e \<Longrightarrow> death_state s2 e = death_state s1 e"
      "trace s2 = trace s1 @ ev" "all_told rs s1 s2"
  shows "all_told (r # rs) s s2"
  unfolding all_told_def
proof (intro allI impI)
  fix q Q e D
  assume q: "q \<in> set (r # rs)" "refs s q = Some Q" "r_death Q = Some e" "deaths s e = Some D"
    "w_queue (d_work D) = None"
  have uniq: "x = q" if "refs s x = Some X" "r_death X = Some e" for x X
    using refs_invD(4) [OF inv] q(2,3) that unfolding deaths_ok_def by blast
  show "told_dead s2 (r_proc Q) e (d_cookie D)"
  proof (cases "q = r")
    case True
    then have "no_death_of rs s1 e" using uniq r by (auto simp: no_death_of_def s1(1))
    moreover have "told_dead s1 (r_proc Q) e (d_cookie D)" using s1(3) q R True by simp
    ultimately show ?thesis using told_dead_keep s2(1,2) by blast
  next
    case False
    then have "r_death R \<noteq> Some e" using uniq [OF R] by blast
    then obtain D1 where "deaths s1 e = Some D1" "d_cookie D1 = d_cookie D" "w_queue (d_work D1) = None"
      using death_stateD [OF s1(2) q(4)] q(5) by auto
    then show ?thesis using s2(3) q False s1(1) unfolding all_told_def by auto
  qed
qed

lemma died_loop_ok:
  assumes "refs_inv d s" and "distinct rs" and "\<And>r. r \<in> set rs \<Longrightarrow> refs s r \<noteq> None"
  shows "\<exists>s' ev. died_loop rs s = Some s' \<and> refs_inv d s' \<and> refs s' = refs s \<and> shrinks s s' \<and>
    node_cores s' = node_cores s \<and> contexts s' = contexts s \<and> txns s' = txns s \<and> trace s' = trace s @ ev \<and>
    (\<forall>e. no_death_of rs s e \<longrightarrow> death_state s' e = death_state s e) \<and> all_told rs s s'"
  using assms
proof (induction rs arbitrary: s)
  case Nil
  then show ?case by (simp add: all_told_def)
next
  case (Cons r rs)
  obtain R where R: "refs s r = Some R" using Cons.prems(3) [of r] by auto
  obtain s1 ev1 where s1: "died_loop [r] s = Some s1" "refs_inv d s1" "refs s1 = refs s" "shrinks s s1"
      "node_cores s1 = node_cores s" "contexts s1 = contexts s" "txns s1 = txns s" "trace s1 = trace s @ ev1"
    and keep1: "\<forall>e. r_death R \<noteq> Some e \<longrightarrow> death_state s1 e = death_state s e"
    and told1: "\<forall>e D. r_death R = Some e \<longrightarrow> deaths s e = Some D \<longrightarrow> w_queue (d_work D) = None \<longrightarrow>
      told_dead s1 (r_proc R) e (d_cookie D)"
    using died_one [OF Cons.prems(1) R] by blast
  have "\<And>r. r \<in> set rs \<Longrightarrow> refs s1 r \<noteq> None" using Cons.prems(3) s1(3) by simp
  then obtain s2 ev2 where s2: "died_loop rs s1 = Some s2" "refs_inv d s2" "refs s2 = refs s1" "shrinks s1 s2"
      "node_cores s2 = node_cores s1" "contexts s2 = contexts s1" "txns s2 = txns s1" "trace s2 = trace s1 @ ev2"
    and keep2: "\<forall>e. no_death_of rs s1 e \<longrightarrow> death_state s2 e = death_state s1 e"
    and told2: "all_told rs s1 s2"
    using Cons.IH [OF s1(2)] Cons.prems(2) by auto
  have "died_loop (r # rs) s = Option.bind (died_loop [r] s) (died_loop rs)" by simp
  then have "died_loop (r # rs) s = Some s2" using s1(1) s2(1) by (simp del: died_loop.simps)
  moreover have "all_told (r # rs) s s2"
    by (rule all_told_Cons [OF Cons.prems(1) R _ s1(3) _ _ _ s2(8) told2])
      (use Cons.prems(2) keep1 told1 keep2 in auto)
  moreover have "death_state s2 e = death_state s e" if "no_death_of (r # rs) s e" for e
  proof -
    have "r_death R \<noteq> Some e" "no_death_of rs s1 e" using that R s1(3) by (auto simp: no_death_of_def)
    then show ?thesis using keep1 keep2 by simp
  qed
  ultimately show ?case
    using s2(2,3,5,6,7,8) s1(3,5,6,7,8) shrinks_trans [OF s1(4) s2(4)] by auto
qed

section \<open>Leaving a node without an owner\<close>

text \<open>No context is managed by a node of the process.\<close>

definition manages_none :: "binder_state \<Rightarrow> addr \<Rightarrow> bool" where
  "manages_none s p \<longleftrightarrow> (\<forall>c m. c_mgr_node (contexts s c) = Some m \<longrightarrow> owner_of s m \<noteq> Some p)"

definition gone_or_dead :: "binder_state \<Rightarrow> addr \<Rightarrow> bool" where
  "gone_or_dead s n \<longleftrightarrow> (\<forall>N. nodes s n = Some N \<longrightarrow> n_is_dead N \<and> n_proc N = None)"

definition orphan :: "addr \<Rightarrow> addr \<Rightarrow> binder_proc \<Rightarrow> binder_node \<Rightarrow> binder_state \<Rightarrow> binder_state" where
  "orphan p n P N s = s\<lparr>procs := (procs s)(p \<mapsto> p_nodes_update (remove1 n) P),
     nodes := (nodes s)(n \<mapsto> N\<lparr>n_is_dead := True, n_proc := None\<rparr>)\<rparr>"

lemma handles_ok_frame: "refs s' = refs s \<Longrightarrow> handles_ok s \<Longrightarrow> handles_ok s'"
  by (simp only: handles_ok_def)

lemma orphan_frame:
  assumes "procs s p = Some P" and "nodes s n = Some N"
  shows "items (orphan p n P N s) = items s" "place (orphan p n P N s) = place s"
    "get_buffer q b (orphan p n P N s) = get_buffer q b s" "refs (orphan p n P N s) = refs s"
    "deaths (orphan p n P N s) = deaths s" "txns (orphan p n P N s) = txns s"
    "actors (orphan p n P N s) = actors s" "contexts (orphan p n P N s) = contexts s"
    "clock (orphan p n P N s) = clock s" "trace (orphan p n P N s) = trace s"
    "owner_of (orphan p n P N s) = (owner_of s)(n := None)"
    "target_of (orphan p n P N s) = target_of s" "holder_of (orphan p n P N s) = holder_of s"
    "holds_strong (orphan p n P N s) = holds_strong s"
proof -
  show "items (orphan p n P N s) = items s" "place (orphan p n P N s) = place s"
    "get_buffer q b (orphan p n P N s) = get_buffer q b s"
    by (rule work_frame_fields; simp add: orphan_def assms)+
  show "actors (orphan p n P N s) = actors s" using assms by (auto simp: orphan_def actors_def)
  show "owner_of (orphan p n P N s) = (owner_of s)(n := None)" by (auto simp: orphan_def owner_of_def)
qed (simp_all add: orphan_def target_of_def holder_of_def holds_strong_def fun_eq_iff)

lemma orphan_graph:
  assumes g: "graph_off d s" and P: "procs s p = Some P" and N: "nodes s n = Some N" "n_proc N = Some p"
  shows "graph_off d (orphan p n P N s)"
  unfolding graph_off_def
proof (intro conjI allI impI)
  let ?s = "orphan p n P N s"
  note fr = orphan_frame [OF P N(1)]
  {
    fix q Q assume Q: "procs ?s q = Some Q"
    obtain Q0 where Q0: "procs s q = Some Q0" "p_refs Q = p_refs Q0"
        "p_nodes Q = (if q = p then remove1 n (p_nodes Q0) else p_nodes Q0)"
      using Q P by (auto simp: orphan_def split: if_splits)
    have ok: "proc_graph_ok s q Q0" by (rule graph_offD(1) [OF g Q0(1)])
    have "owner_of s n = Some p" using N by (simp add: owner_of_def)
    then show "proc_graph_ok ?s q Q" using ok unfolding proc_graph_ok_def fr Q0
      by (auto simp: set_remove1_eq distinct_remove1)
  next
    fix m M assume "nodes ?s m = Some M"
    then obtain M0 where M0: "nodes s m = Some M0" "n_refs M = n_refs M0"
        "n_internal_strong_refs M = n_internal_strong_refs M0"
        "n_local_strong_refs M = n_local_strong_refs M0" "n_local_weak_refs M = n_local_weak_refs M0"
        "n_proc M = n_proc M0 \<or> n_proc M = None"
      using N(1) by (auto simp: orphan_def split: if_splits)
    have "node_graph_ok s (d m) m M0" by (rule graph_offD(2) [OF g M0(1)])
    then show "node_graph_ok ?s (d m) m M" using M0(6)
      unfolding node_graph_ok_def fr M0(2-5) by (auto simp: orphan_def)
  next
    fix r R assume "refs ?s r = Some R"
    then have "refs s r = Some R" by (simp add: fr)
    then show "ref_graph_ok ?s R"
      by (rule ref_graph_ok_dom [OF graph_offD(3) [OF g]]) (auto simp: orphan_def split: if_splits)
  }
qed

lemma orphan_inv:
  assumes inv: "driver_inv s" and P: "procs s p = Some P" and N: "nodes s n = Some N" "n_proc N = Some p"
    and mgr: "manages_none s p"
  shows "driver_inv (orphan p n P N s)"
proof -
  let ?s = "orphan p n P N s"
  note fr = orphan_frame [OF P N(1)]
  have r: "refs_inv (\<lambda>_. 0) s" by (rule driver_invD(1) [OF inv])
  have "graph_off (\<lambda>_. 0) ?s" by (rule orphan_graph [OF refs_invD(1) [OF r] P N])
  moreover have "queues_ok ?s" "async_ok ?s"
    by (rule work_frame [OF fr(1,2,6) _ refs_invD(2,3) [OF r]]; simp add: fr(3))+
  moreover have "deaths_ok ?s" by (rule deaths_ok_frame [OF refs_invD(4) [OF r] fr(4,5)])
  moreover have "mgr_ok ?s"
    unfolding mgr_ok_def
  proof (intro allI impI)
    fix c m assume "c_mgr_node (contexts ?s c) = Some m"
    then have c: "c_mgr_node (contexts s c) = Some m" by (simp add: fr)
    then obtain q where q: "owner_of s m = Some q" "context_of s q = Some c"
      using driver_invD(2) [OF inv] unfolding mgr_ok_def by blast
    have "owner_of s m \<noteq> Some p" using mgr c unfolding manages_none_def by blast
    then have "m \<noteq> n" using N by (auto simp: owner_of_def)
    then show "\<exists>q. owner_of ?s m = Some q \<and> context_of ?s q = Some c"
      using q context_of_actors [OF fr(7)] by (simp add: fr(11))
  qed
  moreover have "handles_ok ?s" by (rule handles_ok_frame [OF fr(4) driver_invD(3) [OF inv]])
  moreover have "fresh ?s" using driver_invD(4) [OF inv] N by (auto simp: fresh_def orphan_def)
  ultimately show ?thesis by (simp add: driver_inv_def refs_inv_def)
qed

lemma maybe_free_death_state:
  assumes inv: "refs_inv d s" and N: "nodes s n = Some N" and s': "binder_node_maybe_free n s = Some s'"
  shows "death_state s' e = death_state s e"
proof (cases "reclaimable N")
  case True
  have "\<And>p. n_proc N = Some p \<Longrightarrow> procs s p \<noteq> None"
    using graph_offD(2) [OF refs_invD(1) [OF inv] N] by (simp add: node_graph_ok_def)
  then obtain s1 where s1: "async_drain (n_async_todo N) s = Some s1" "s' = unlink_node n N s1"
    using s' True maybe_free_eq [OF N] by auto
  have "items s (AsyncTodo n) = Some (n_async_todo N)" using N by (simp add: items_def get_queue_def)
  then obtain s2 where s2: "async_drain (n_async_todo N) s = Some s2"
      "\<forall>w. (\<forall>x. w \<noteq> TxnWork x) \<longrightarrow> place s2 w = place s w"
    using async_drain_ok [OF refs_invD(2,3) [OF inv]] by blast
  have "place s1 (DeathWork e) = place s (DeathWork e)" using s1(1) s2 by simp
  moreover have "map_option death_core (deaths s1 e) = map_option death_core (deaths s e)"
    by (rule core_fields(7) [OF core_async_drain [OF s1(1)]])
  ultimately show ?thesis by (simp add: s1(2) death_state_def place_unlink_node unlink_node_frame)
next
  case False
  then have "s' = s" using maybe_free_ok [OF inv N] s' by auto
  then show ?thesis by simp
qed

lemma maybe_free_orphan:
  assumes inv: "driver_inv s" and N: "nodes s n = Some N" "n_proc N = None"
  shows "\<exists>s'. binder_node_maybe_free n s = Some s' \<and> driver_inv s' \<and> refs s' = refs s \<and>
    actors s' = actors s \<and> contexts s' = contexts s \<and> trace s' = trace s \<and>
    (\<forall>m. m \<noteq> n \<longrightarrow> node_cores s' m = node_cores s m) \<and>
    (nodes s' n = None \<or> nodes s' n = Some N) \<and> (\<forall>e. death_state s' e = death_state s e)"
proof -
  note r = driver_invD(1) [OF inv]
  obtain s' where s': "binder_node_maybe_free n s = Some s'" "refs_inv (\<lambda>_. 0) s'"
      "if reclaimable N then core s' = core (unlink_node n N s) else s' = s"
    using maybe_free_ok [OF r N(1)] by blast
  have sh: "shrinks s s'"
    using s'(3) shrinks_trans [OF unlink_shrinks [OF N(1)] core_shrinks [of s' "unlink_node n N s"]]
    by (cases "reclaimable N") simp_all
  have c: "reclaimable N \<Longrightarrow> core s' = core (unlink_node n N s)" "\<not> reclaimable N \<Longrightarrow> s' = s"
    using s'(3) by (simp_all split: if_splits)
  have refs: "refs s' = refs s" "contexts s' = contexts s"
    using c(2) core_fields(1,2) [OF c(1)] N(2)
    by (cases "reclaimable N"; simp add: unlink_node_frame contexts_unlink_node)+
  have nodes: "node_cores s' m = node_cores s m" if "m \<noteq> n" for m
    using c(2) core_fields(5) [OF c(1), of m] that
    by (cases "reclaimable N") (simp_all add: node_cores_def unlink_node_frame)
  have gone: "nodes s' n = None \<or> nodes s' n = Some N"
    using c(2) core_dom(2) [OF c(1), of n] N(1) by (cases "reclaimable N") (simp_all add: unlink_node_frame)
  show ?thesis
    using s'(1) driver_inv_shrinks [OF inv sh s'(2)] refs shrinksD(1) [OF sh] trace_maybe_free [OF r N(1) s'(1)]
      nodes gone maybe_free_death_state [OF r N(1) s'(1)] by blast
qed

section \<open>Releasing the nodes\<close>

text \<open>What releasing some nodes of a process leaves of the rest.\<close>

definition nodes_released :: "addr \<Rightarrow> addr list \<Rightarrow> binder_state \<Rightarrow> binder_state \<Rightarrow> bool" where
  "nodes_released p ns s s' \<longleftrightarrow> refs s' = refs s \<and> actors s' = actors s \<and> contexts s' = contexts s \<and>
     (\<forall>n. n \<notin> set ns \<longrightarrow> node_cores s' n = node_cores s n) \<and> (\<forall>n \<in> set ns. gone_or_dead s' n)"

definition refs_to :: "binder_state \<Rightarrow> addr set \<Rightarrow> addr \<Rightarrow> bool" where
  "refs_to s ns r \<longleftrightarrow> (\<exists>n \<in> ns. target_of s r = Some n)"

definition holders_told :: "addr set \<Rightarrow> binder_state \<Rightarrow> binder_state \<Rightarrow> bool" where
  "holders_told ns s s' \<longleftrightarrow> (\<forall>r R e D. refs_to s ns r \<longrightarrow> refs s r = Some R \<longrightarrow> r_death R = Some e \<longrightarrow>
     deaths s e = Some D \<longrightarrow> w_queue (d_work D) = None \<longrightarrow> told_dead s' (r_proc R) e (d_cookie D))"

definition others_kept :: "addr set \<Rightarrow> binder_state \<Rightarrow> binder_state \<Rightarrow> bool" where
  "others_kept ns s s' \<longleftrightarrow> (\<forall>e. (\<forall>r R. refs_to s ns r \<longrightarrow> refs s r = Some R \<longrightarrow> r_death R \<noteq> Some e) \<longrightarrow>
     death_state s' e = death_state s e)"

lemma actors_proc_dom:
  assumes "actors s' = actors s"
  shows "procs s' p = None \<longleftrightarrow> procs s p = None"
  using fun_cong [OF arg_cong [OF assms, of snd], of p] by (cases "procs s' p"; cases "procs s p") (simp_all add: actors_def)

lemma owner_of_cores:
  assumes "node_cores s' n = node_cores s n"
  shows "owner_of s' n = owner_of s n"
proof (cases "nodes s n")
  case None
  then show ?thesis using assms by (simp add: node_cores_def owner_of_def)
next
  case (Some N)
  then obtain N' where N': "nodes s' n = Some N'" "node_core N' = node_core N"
    using assms by (auto simp: node_cores_def)
  show ?thesis using node_coreD(2) [OF N'(2)] by (simp add: owner_of_def Some N'(1))
qed

lemma node_refs_to:
  assumes "graph_off d s" and "nodes s n = Some N"
  shows "r \<in> set (n_refs N) \<longleftrightarrow> refs_to s {n} r"
  using graph_offD(2) [OF assms] by (auto simp: node_graph_ok_def refs_to_def)

lemma died_orphan_ok:
  assumes inv: "driver_inv s" and P: "procs s p = Some P" and N: "nodes s n = Some N" "n_proc N = Some p"
    and mgr: "manages_none s p"
  shows "\<exists>s' ev N'. upd_proc p (p_nodes_update (remove1 n)) s = Some (s\<lparr>procs := (procs s)(p \<mapsto> p_nodes_update (remove1 n) P)\<rparr>) \<and>
    binder_node_died n (s\<lparr>procs := (procs s)(p \<mapsto> p_nodes_update (remove1 n) P)\<rparr>) = Some s' \<and>
    driver_inv s' \<and> refs s' = refs s \<and> actors s' = actors s \<and> contexts s' = contexts s \<and>
    trace s' = trace s @ ev \<and> (\<forall>m. m \<noteq> n \<longrightarrow> node_cores s' m = node_cores s m) \<and>
    nodes s' n = Some N' \<and> n_is_dead N' \<and> n_proc N' = None \<and> holders_told {n} s s' \<and> others_kept {n} s s'"
proof -
  let ?s = "orphan p n P N s"
  note fr = orphan_frame [OF P N(1)]
  have inv': "driver_inv ?s" by (rule orphan_inv [OF inv P N mgr])
  let ?N = "N\<lparr>n_is_dead := True, n_proc := None\<rparr>"
  have N': "nodes ?s n = Some ?N" by (simp add: orphan_def)
  have g: "graph_off (\<lambda>_. 0) ?s" by (rule refs_invD(1) [OF driver_invD(1) [OF inv']])
  have to: "r \<in> set (n_refs N) \<longleftrightarrow> refs_to s {n} r" for r
    using node_refs_to [OF g N', of r] by (simp add: refs_to_def fr)
  have "refs ?s r \<noteq> None" if "r \<in> set (n_refs N)" for r
    using that to [of r] by (cases "refs s r") (simp_all add: refs_to_def target_of_def fr)
  moreover have "distinct (n_refs N)" using graph_offD(2) [OF g N'] by (simp add: node_graph_ok_def)
  ultimately obtain s' ev where s': "died_loop (n_refs N) ?s = Some s'" "refs_inv (\<lambda>_. 0) s'"
      "refs s' = refs ?s" "shrinks ?s s'" "node_cores s' = node_cores ?s" "trace s' = trace ?s @ ev"
      "\<forall>e. no_death_of (n_refs N) ?s e \<longrightarrow> death_state s' e = death_state ?s e"
      "all_told (n_refs N) ?s s'" "contexts s' = contexts ?s"
    using died_loop_ok [OF driver_invD(1) [OF inv']] by blast
  have "map_option node_core (nodes s' n) = Some (node_core ?N)"
    using fun_cong [OF s'(5), of n] by (simp add: node_cores_def N')
  then obtain M where M: "nodes s' n = Some M" "node_core M = node_core ?N" by auto
  have "binder_node_died n (s\<lparr>procs := (procs s)(p \<mapsto> p_nodes_update (remove1 n) P)\<rparr>) = Some s'"
    using s'(1) N by (simp add: binder_node_died_def upd_node_def orphan_def)
  moreover have "holders_told {n} s s'"
    using s'(8) unfolding all_told_def holders_told_def fr to .
  moreover have "others_kept {n} s s'"
    using s'(7) unfolding no_death_of_def others_kept_def fr to
    by (simp add: death_state_def fr)
  moreover have "node_cores s' m = node_cores s m" if "m \<noteq> n" for m
    using that s'(5) by (simp add: node_cores_def orphan_def fun_eq_iff)
  ultimately show ?thesis
    using P driver_inv_shrinks [OF inv' s'(4,2)] s'(3,6,9) shrinksD(1) [OF s'(4)] M(1) node_coreD(2,11) [OF M(2)]
    by (simp add: upd_proc_def fr)
qed

lemma death_owner_unique:
  assumes inv: "refs_inv d s" and r: "refs s r = Some R" "r_death R = Some e" "refs_to s A r"
    and x: "refs s x = Some X" "r_death X = Some e" "refs_to s B x" and disj: "A \<inter> B = {}"
  shows False
proof -
  have "x = r" using refs_invD(4) [OF inv] r(1,2) x(1,2) unfolding deaths_ok_def by blast
  then show False using r(3) x(3) disj by (auto simp: refs_to_def)
qed

lemma told_trans:
  assumes inv: "refs_inv d s" and disj: "A \<inter> B = {}" and refs: "refs s1 = refs s"
    and t1: "holders_told A s s1" "others_kept A s s1"
    and t2: "holders_told B s1 s2" "others_kept B s1 s2" "trace s2 = trace s1 @ ev"
  shows "holders_told (A \<union> B) s s2" "others_kept (A \<union> B) s s2"
proof -
  have to: "refs_to s1 C = refs_to s C" for C by (simp add: refs_to_def target_of_def refs fun_eq_iff)
  have un: "refs_to s (A \<union> B) r \<longleftrightarrow> refs_to s A r \<or> refs_to s B r" for r by (auto simp: refs_to_def)
  show "others_kept (A \<union> B) s s2"
    using t1(2) t2(2) unfolding others_kept_def un to refs by metis
  show "holders_told (A \<union> B) s s2"
    unfolding holders_told_def
  proof (intro allI impI)
    fix r R e D
    assume r: "refs_to s (A \<union> B) r" "refs s r = Some R" "r_death R = Some e" "deaths s e = Some D"
      "w_queue (d_work D) = None"
    show "told_dead s2 (r_proc R) e (d_cookie D)"
    proof (cases "refs_to s A r")
      case True
      then have "death_state s2 e = death_state s1 e"
        using t2(2) death_owner_unique [OF inv r(2,3) True _ _ _ disj]
        unfolding others_kept_def to refs by blast
      moreover have "told_dead s1 (r_proc R) e (d_cookie D)" using t1(1) r True unfolding holders_told_def by blast
      ultimately show ?thesis using told_dead_keep t2(3) by blast
    next
      case False
      then have B: "refs_to s B r" using r(1) un by blast
      have "death_state s1 e = death_state s e"
        using t1(2) death_owner_unique [OF inv _ _ _ r(2,3) B disj] unfolding others_kept_def by blast
      then obtain D1 where "deaths s1 e = Some D1" "d_cookie D1 = d_cookie D" "w_queue (d_work D1) = None"
        using death_stateD [OF _ r(4)] r(5) by auto
      then show ?thesis using t2(1) r(2,3) B unfolding holders_told_def to refs by metis
    qed
  qed
qed

lemma release_node_ok:
  assumes inv: "driver_inv s" and p: "procs s p \<noteq> None" and n: "owner_of s n = Some p"
    and mgr: "manages_none s p"
  shows "\<exists>s' ev. release_nodes p [n] s = Some s' \<and> driver_inv s' \<and> nodes_released p [n] s s' \<and>
    trace s' = trace s @ ev \<and> holders_told {n} s s' \<and> others_kept {n} s s'"
proof -
  obtain P N where P: "procs s p = Some P" and N: "nodes s n = Some N" "n_proc N = Some p"
    using p n by (auto simp: owner_of_def bind_eq_Some_conv)
  let ?s1 = "s\<lparr>procs := (procs s)(p \<mapsto> p_nodes_update (remove1 n) P)\<rparr>"
  obtain s2 ev N2 where s2: "upd_proc p (p_nodes_update (remove1 n)) s = Some ?s1"
      "binder_node_died n ?s1 = Some s2" "driver_inv s2" "refs s2 = refs s" "actors s2 = actors s"
      "contexts s2 = contexts s" "trace s2 = trace s @ ev" "holders_told {n} s s2" "others_kept {n} s s2"
    and N2: "nodes s2 n = Some N2" "n_is_dead N2" "n_proc N2 = None"
    and cores2: "\<forall>m. m \<noteq> n \<longrightarrow> node_cores s2 m = node_cores s m"
    using died_orphan_ok [OF inv P N mgr] by blast
  obtain s3 where s3: "binder_node_maybe_free n s2 = Some s3" "driver_inv s3" "refs s3 = refs s2"
      "actors s3 = actors s2" "contexts s3 = contexts s2" "trace s3 = trace s2"
      "nodes s3 n = None \<or> nodes s3 n = Some N2" "\<forall>e. death_state s3 e = death_state s2 e"
    and cores3: "\<forall>m. m \<noteq> n \<longrightarrow> node_cores s3 m = node_cores s2 m"
    using maybe_free_orphan [OF s2(3) N2(1,3)] by blast
  have "release_nodes p [n] s = Some s3" using s2(1,2) s3(1) by (simp add: binder_node_release_def)
  moreover have "nodes_released p [n] s s3"
    using s2(4-6) s3(3-5,7) N2 cores2 cores3 by (auto simp: nodes_released_def gone_or_dead_def)
  moreover have "told_dead s3 q e c" if "told_dead s2 q e c" for q e c
    using told_dead_keep [OF that, of s3 "[]"] s3(6,8) by simp
  then have "holders_told {n} s s3" using s2(8) unfolding holders_told_def by blast
  moreover have "others_kept {n} s s3" using s2(9) s3(8) by (simp add: others_kept_def)
  ultimately show ?thesis using s3(2,6) s2(7) by auto
qed

lemma nodes_released_trans:
  assumes "nodes_released p [n] s s1" and "nodes_released p ns s1 s2"
  shows "nodes_released p (n # ns) s s2"
proof -
  have "gone_or_dead s2 n"
  proof (cases "n \<in> set ns")
    case True then show ?thesis using assms(2) by (simp add: nodes_released_def)
  next
    case False
    then have c: "node_cores s2 n = node_cores s1 n" using assms(2) by (simp add: nodes_released_def)
    show ?thesis
      unfolding gone_or_dead_def
    proof (intro allI impI)
      fix N assume N: "nodes s2 n = Some N"
      then obtain N1 where N1: "nodes s1 n = Some N1" "node_core N = node_core N1"
        using c by (cases "nodes s1 n") (auto simp: node_cores_def)
      then show "n_is_dead N \<and> n_proc N = None"
        using assms(1) node_coreD(2,11) [OF N1(2)] by (simp add: nodes_released_def gone_or_dead_def)
    qed
  qed
  then show ?thesis using assms by (simp add: nodes_released_def)
qed

lemma release_nodes_ok:
  assumes "driver_inv s" and "procs s p \<noteq> None" and "distinct ns"
    and "\<forall>n \<in> set ns. owner_of s n = Some p" and "manages_none s p"
  shows "\<exists>s' ev. release_nodes p ns s = Some s' \<and> driver_inv s' \<and> nodes_released p ns s s' \<and>
    trace s' = trace s @ ev \<and> holders_told (set ns) s s' \<and> others_kept (set ns) s s'"
  using assms
proof (induction ns arbitrary: s)
  case Nil
  then show ?case by (simp add: nodes_released_def holders_told_def others_kept_def refs_to_def)
next
  case (Cons n ns)
  have on: "owner_of s n = Some p" using Cons.prems(4) by simp
  obtain s1 ev1 where s1: "release_nodes p [n] s = Some s1" "driver_inv s1" "nodes_released p [n] s s1"
      "trace s1 = trace s @ ev1" "holders_told {n} s s1" "others_kept {n} s s1"
    using release_node_ok [OF Cons.prems(1,2) on Cons.prems(5)] by blast
  have own: "owner_of s1 m = owner_of s m" if "m \<noteq> n" for m
    using that s1(3) owner_of_cores [of s1 m s] by (simp add: nodes_released_def)
  have "owner_of s1 n = None" using s1(3) by (auto simp: nodes_released_def gone_or_dead_def owner_of_def split: bind_splits)
  then have "owner_of s1 m \<noteq> Some p" if "owner_of s m \<noteq> Some p" for m
    using that own [of m] by (cases "m = n") simp_all
  then have m1: "manages_none s1 p" using Cons.prems(5) s1(3) by (simp add: manages_none_def nodes_released_def)
  have p1: "procs s1 p \<noteq> None"
    using Cons.prems(2) s1(3) actors_proc_dom [of s1 s p] by (simp add: nodes_released_def)
  have o1: "\<forall>m \<in> set ns. owner_of s1 m = Some p"
  proof
    fix m assume "m \<in> set ns"
    then show "owner_of s1 m = Some p" using own [of m] Cons.prems(3,4) by auto
  qed
  obtain s2 ev2 where s2: "release_nodes p ns s1 = Some s2" "driver_inv s2" "nodes_released p ns s1 s2"
      "trace s2 = trace s1 @ ev2" "holders_told (set ns) s1 s2" "others_kept (set ns) s1 s2"
    using Cons.IH [OF s1(2) p1 _ o1 m1] Cons.prems(3) by auto
  have "release_nodes p (n # ns) s = Option.bind (release_nodes p [n] s) (release_nodes p ns)"
    by (simp add: bind_assoc)
  then have "release_nodes p (n # ns) s = Some s2" using s1(1) s2(1) by (simp del: release_nodes.simps)
  moreover have "refs s1 = refs s" "{n} \<inter> set ns = {}"
    using s1(3) Cons.prems(3) by (simp_all add: nodes_released_def)
  then have "holders_told ({n} \<union> set ns) s s2" "others_kept ({n} \<union> set ns) s s2"
    using told_trans [OF driver_invD(1) [OF Cons.prems(1)] _ _ s1(5,6) s2(5,6,4)] by simp_all
  ultimately show ?case
    using s2(2,4) s1(4) nodes_released_trans [OF s1(3) s2(3)] by simp
qed

section \<open>The manager's role and the handles\<close>

lemma refs_inv_node:
  assumes inv: "refs_inv d s" and N: "nodes s n = Some N"
    and N': "n_refs N' = n_refs N" "n_proc N' = n_proc N" "n_internal_strong_refs N' = n_internal_strong_refs N"
      "0 \<le> n_local_strong_refs N'" "0 \<le> n_local_weak_refs N'"
      "n_work N' = n_work N" "n_async_todo N' = n_async_todo N"
  shows "refs_inv d (s\<lparr>nodes := (nodes s)(n \<mapsto> N')\<rparr>)" (is "refs_inv d ?s")
proof -
  note fr = work_frame_node [OF N N'(6,7)]
  have "graph_off (d(n := d n + 0)) ?s"
    by (rule graph_off_count [OF refs_invD(1) [OF inv] N]) (use N' in simp_all)
  moreover have "queues_ok ?s" "async_ok ?s"
    by (rule work_frame [OF fr(1,2) _ _ refs_invD(2,3) [OF inv]]; simp add: fr)+
  moreover have "deaths_ok ?s" by (rule deaths_ok_frame [OF refs_invD(4) [OF inv]]) simp_all
  ultimately show ?thesis by (simp add: refs_inv_def)
qed

lemma contexts_frame:
  "refs_inv d (s\<lparr>contexts := c\<rparr>) = refs_inv d s" "actors (s\<lparr>contexts := c\<rparr>) = actors s"
proof -
  have w: "items (s\<lparr>contexts := c\<rparr>) = items s" "place (s\<lparr>contexts := c\<rparr>) = place s"
    "get_buffer p b (s\<lparr>contexts := c\<rparr>) = get_buffer p b s" for p b
    by (auto simp: items_def place_def get_queue_def get_work_def get_buffer_def fun_eq_iff
        split: work_head.splits work_ptr.splits)
  have o: "owner_of (s\<lparr>contexts := c\<rparr>) = owner_of s" "holder_of (s\<lparr>contexts := c\<rparr>) = holder_of s"
    "target_of (s\<lparr>contexts := c\<rparr>) = target_of s" "holds_strong (s\<lparr>contexts := c\<rparr>) = holds_strong s"
    by (simp_all add: owner_of_def holder_of_def target_of_def holds_strong_def fun_eq_iff)
  have "graph_off d (s\<lparr>contexts := c\<rparr>) = graph_off d s"
    by (simp add: graph_off_def proc_graph_ok_def node_graph_ok_def ref_graph_ok_def o)
  moreover have "async_ok (s\<lparr>contexts := c\<rparr>) = async_ok s"
    by (simp add: async_ok_def async_item_ok_def w)
  moreover have "deaths_ok (s\<lparr>contexts := c\<rparr>) = deaths_ok s"
    by (simp add: deaths_ok_def)
  ultimately show "refs_inv d (s\<lparr>contexts := c\<rparr>) = refs_inv d s"
    by (simp add: refs_inv_def queues_ok_def w)
  show "actors (s\<lparr>contexts := c\<rparr>) = actors s" by (simp add: actors_def)
qed

lemma release_mgr_ok:
  assumes inv: "driver_inv s" and P: "procs s p = Some P"
  shows "\<exists>s'. release_mgr p s = Some s' \<and> driver_inv s' \<and> manages_none s' p \<and>
    refs s' = refs s \<and> procs s' = procs s \<and> owner_of s' = owner_of s"
proof (cases "\<exists>c m. c_mgr_node (contexts s c) = Some m \<and> owner_of s m = Some p")
  case False
  have "release_mgr p s = Some s"
  proof (cases "Option.bind (p_context P) (\<lambda>c. c_mgr_node (contexts s c))")
    case None
    then show ?thesis using P by (auto simp: release_mgr_def split: option.splits)
  next
    case (Some m)
    then obtain c where c: "p_context P = Some c" "c_mgr_node (contexts s c) = Some m"
      by (auto simp: bind_eq_Some_conv)
    then obtain q where "owner_of s m = Some q" using driver_invD(2) [OF inv] unfolding mgr_ok_def by blast
    then show ?thesis using P c False by (auto simp: release_mgr_def owner_of_def bind_eq_Some_conv)
  qed
  then show ?thesis using inv False by (auto simp: manages_none_def)
next
  case True
  then obtain c m where c: "c_mgr_node (contexts s c) = Some m" "owner_of s m = Some p" by blast
  have uniq: "context_of s p = Some c'" if "c_mgr_node (contexts s c') = Some m'" "owner_of s m' = Some p" for c' m'
    using driver_invD(2) [OF inv] that unfolding mgr_ok_def by fastforce
  have pc: "p_context P = Some c" using uniq [OF c] P by (simp add: context_of_def)
  obtain N where N: "nodes s m = Some N" "n_proc N = Some p" using c(2) by (auto simp: owner_of_def bind_eq_Some_conv)
  let ?N = "N\<lparr>n_local_strong_refs := 0, n_local_weak_refs := 0, n_has_strong_ref := False, n_has_weak_ref := False\<rparr>"
  let ?s1 = "s\<lparr>nodes := (nodes s)(m \<mapsto> ?N)\<rparr>"
  let ?c = "(contexts s)(c := c_mgr_node_update (\<lambda>_. None) (contexts s c))"
  let ?s = "?s1\<lparr>contexts := ?c\<rparr>"
  have own: "owner_of ?s = owner_of s" using N by (auto simp: owner_of_def)
  have run: "release_mgr p s = Some ?s" using P pc c N by (simp add: release_mgr_def upd_node_def upd_context_def)
  have "refs_inv (\<lambda>_. 0) ?s"
    unfolding contexts_frame by (rule refs_inv_node [OF driver_invD(1) [OF inv] N(1)]) simp_all
  moreover have "mgr_ok ?s"
    unfolding mgr_ok_def own
    using driver_invD(2) [OF inv] by (auto simp: mgr_ok_def context_of_def)
  moreover have "handles_ok ?s" by (rule handles_ok_frame [OF _ driver_invD(3) [OF inv]]) simp
  moreover have "fresh ?s" using driver_invD(4) [OF inv] N by (auto simp: fresh_def)
  moreover have "manages_none ?s p" unfolding manages_none_def own
    using uniq P pc by (auto simp: context_of_def split: if_splits)
  ultimately show ?thesis using run own by (simp add: driver_inv_def)
qed

lemma release_refs_ok:
  assumes "driver_inv s" and "distinct rs" and "\<forall>r \<in> set rs. refs s r \<noteq> None"
  shows "\<exists>s'. release_refs rs s = Some s' \<and> driver_inv s' \<and>
    refs s' = (\<lambda>r. if r \<in> set rs then None else refs s r) \<and> shrinks s s'"
  using assms
proof (induction rs arbitrary: s)
  case Nil
  then show ?case by simp
next
  case (Cons r rs)
  obtain R where R: "refs s r = Some R" using Cons.prems(3) by auto
  obtain s1 where s1: "binder_ref_delete r s = Some s1" "refs_inv (\<lambda>_. 0) s1"
      "refs s1 = (refs s)(r := None)" "shrinks s s1"
    using ref_delete_ok [OF driver_invD(1) [OF Cons.prems(1)] R] by auto
  have d1: "driver_inv s1" by (rule driver_inv_shrinks [OF Cons.prems(1) s1(4,2)])
  have "\<forall>x \<in> set rs. refs s1 x \<noteq> None" using Cons.prems(2,3) s1(3) by auto
  then obtain s2 where s2: "release_refs rs s1 = Some s2" "driver_inv s2"
      "refs s2 = (\<lambda>r. if r \<in> set rs then None else refs s1 r)" "shrinks s1 s2"
    using Cons.IH [OF d1] Cons.prems(2) by auto
  show ?case
    using s1(1,3) s2(1,2,3) shrinks_trans [OF s1(4) s2(4)] by (auto simp: fun_eq_iff)
qed

section \<open>The properties\<close>

text \<open>A process that holds a handle on another's object and asked to be told of its death.\<close>

definition death_example :: binder_state where
  "death_example = handle_example\<lparr>
     nodes := Map.empty(3 \<mapsto> new_node\<lparr>n_proc := Some 1, n_ptr := 0x1000, n_refs := [4],
       n_internal_strong_refs := 1, n_has_strong_ref := True, n_has_weak_ref := True\<rparr>),
     refs := Map.empty(4 \<mapsto> \<lparr>r_proc = 2, r_node = Some 3, r_desc = 1, r_strong = 1, r_weak = 0,
       r_death = Some 6, r_debug_id = 0\<rparr>),
     deaths := Map.empty(6 \<mapsto> \<lparr>d_work = new_work, d_cookie = 0xBEEF\<rparr>)\<rparr>"

lemmas death_example_defs = death_example_def handle_example_defs

lemma death_example_inv: "driver_inv death_example"
proof -
  have "queues_ok death_example"
    by (auto simp: death_example_defs queues_ok_def queues_ok_on_def items_def place_def held_def get_queue_def get_work_def
        split: work_head.splits work_ptr.splits option.splits if_splits)
  moreover have "graph_off (\<lambda>_. 0) death_example"
    by (auto simp: death_example_defs graph_off_def proc_graph_ok_def node_graph_ok_def ref_graph_ok_def
        owner_of_def holder_of_def target_of_def holds_strong_def split: if_splits)
  moreover have "async_ok death_example"
    by (auto simp: death_example_defs async_ok_def items_def get_queue_def split: if_splits)
  moreover have "deaths_ok death_example" by (auto simp: death_example_defs deaths_ok_def split: if_splits)
  moreover have "mgr_ok death_example" by (simp add: death_example_defs mgr_ok_def)
  moreover have "handles_ok death_example" by (auto simp: death_example_defs handles_ok_def split: if_splits)
  moreover have "fresh death_example" by (auto simp: death_example_defs fresh_def)
  ultimately show ?thesis by (simp add: driver_inv_def refs_inv_def)
qed



text \<open>C6: closing a process gives back its whole part of the reference graph. Its context loses
  its manager if that was its object, its objects lose their owner (and are freed unless somebody
  still holds them), its handles are deleted and everyone else's stay as they were. The
  invariant holds at the end, so every surviving object's strong count is exactly
  the number of handles that hold it strongly.\<close>

theorem process_graph_released:
  assumes "driver_inv s" and "procs s p = Some P"
  shows "\<exists>s1 P1 s2 P2 s3. release_mgr p s = Some s1 \<and>
    procs s1 p = Some P1 \<and> release_nodes p (p_nodes P1) s1 = Some s2 \<and>
    procs s2 p = Some P2 \<and> release_refs (p_refs P2) s2 = Some s3 \<and> driver_inv s3 \<and>
    (\<forall>n N. nodes s3 n = Some N \<longrightarrow> n_proc N \<noteq> Some p) \<and>
    refs s3 = (\<lambda>r. if map_option r_proc (refs s r) = Some p then None else refs s r) \<and>
    (\<forall>n N. nodes s3 n = Some N \<longrightarrow> n_internal_strong_refs N =
      int (card {r. \<exists>R. refs s3 r = Some R \<and> r_node R = Some n \<and> 0 < r_strong R}))"
proof -
  obtain s1 where s1: "release_mgr p s = Some s1" "driver_inv s1" "manages_none s1 p" "refs s1 = refs s"
      "procs s1 p = Some P"
    using release_mgr_ok [OF assms] assms(2) by auto
  have g1: "proc_graph_ok s1 p P" by (rule graph_offD(1) [OF refs_invD(1) [OF driver_invD(1) [OF s1(2)]] s1(5)])
  obtain s2 where s2: "release_nodes p (p_nodes P) s1 = Some s2" "driver_inv s2" "nodes_released p (p_nodes P) s1 s2"
    using release_nodes_ok [OF s1(2) _ _ _ s1(3), of "p_nodes P"] g1 s1(5) by (auto simp: proc_graph_ok_def)
  obtain P2 where P2: "procs s2 p = Some P2"
    using s2(3) actors_proc_dom [of s2 s1 p] s1(5) by (auto simp: nodes_released_def)
  have g2: "proc_graph_ok s2 p P2" by (rule graph_offD(1) [OF refs_invD(1) [OF driver_invD(1) [OF s2(2)]] P2])
  have own: "owner_of s2 n \<noteq> Some p" for n
  proof (cases "n \<in> set (p_nodes P)")
    case True
    then show ?thesis using s2(3) by (cases "nodes s2 n") (auto simp: nodes_released_def gone_or_dead_def owner_of_def)
  next
    case False
    then have "owner_of s2 n = owner_of s1 n" using s2(3) by (intro owner_of_cores) (simp add: nodes_released_def)
    then show ?thesis using False g1 by (simp add: proc_graph_ok_def)
  qed
  have held: "r \<in> set (p_refs P2) \<longleftrightarrow> map_option r_proc (refs s r) = Some p" for r
    using g2 s2(3) s1(4) by (simp add: proc_graph_ok_def holder_of_def nodes_released_def)
  have r2: "refs s2 = refs s" using s2(3) s1(4) by (simp add: nodes_released_def)
  have dist: "distinct (p_refs P2)" using g2 by (simp add: proc_graph_ok_def)
  have ex: "\<forall>r \<in> set (p_refs P2). refs s2 r \<noteq> None"
    using s2(3) s1(4) by (auto simp: held nodes_released_def)
  obtain s3 where s3: "release_refs (p_refs P2) s2 = Some s3" "driver_inv s3" "shrinks s2 s3"
      "refs s3 = (\<lambda>r. if r \<in> set (p_refs P2) then None else refs s2 r)"
    using release_refs_ok [OF s2(2) dist ex] by blast
  have "n_proc N \<noteq> Some p" if N: "nodes s3 n = Some N" for n N
  proof -
    obtain N2 where "nodes s2 n = Some N2" "node_id N = node_id N2" using shrinksD(5) [OF s3(3) N] by blast
    then show ?thesis using own [of n] by (simp add: owner_of_def node_id_def)
  qed
  moreover have "refs s3 = (\<lambda>r. if map_option r_proc (refs s r) = Some p then None else refs s r)"
    unfolding s3(4) held r2 ..
  ultimately show ?thesis
    using s1(1,5) s2(1) P2 s3(1,2) strong_count [OF driver_invD(1) [OF s3(2)]] by auto
qed

theorem process_graph_released_witness:
  "\<exists>s3. driver_inv s3 \<and> refs s3 4 = Some \<lparr>r_proc = 2, r_node = Some 3, r_desc = 1, r_strong = 1, r_weak = 0,
       r_death = Some 6, r_debug_id = 0\<rparr> \<and> (\<forall>N. nodes s3 3 = Some N \<longrightarrow> n_proc N \<noteq> Some 1)"
proof -
  have P: "procs death_example 1 = Some (fresh_proc\<lparr>p_nodes := [3], p_threads := [5]\<rparr>)"
    by (simp add: death_example_def handle_example_def)
  obtain s3 where s3: "driver_inv s3" "\<forall>n N. nodes s3 n = Some N \<longrightarrow> n_proc N \<noteq> Some 1"
      "refs s3 = (\<lambda>r. if map_option r_proc (refs death_example r) = Some 1 then None else refs death_example r)"
    using process_graph_released [OF death_example_inv P] by blast
  have "refs s3 4 = refs death_example 4" unfolding s3(3) by (simp add: death_example_def)
  then show ?thesis using s3(1,2) by (auto simp: death_example_def)
qed

section \<open>Objects that are never given back\<close>

text \<open>The owner was told that the object is held, and has not been told otherwise since.\<close>

definition told_held :: "addr \<Rightarrow> binder_state \<Rightarrow> bool" where
  "told_held n s \<longleftrightarrow> (\<exists>N. nodes s n = Some N \<and> (n_has_strong_ref N \<or> n_has_weak_ref N))"

lemma told_held_nodes: "nodes s' n = nodes s n \<Longrightarrow> told_held n s' \<longleftrightarrow> told_held n s"
  by (simp add: told_held_def)

lemma told_held_core:
  assumes "core s' = core s" and "told_held n s"
  shows "told_held n s'"
proof -
  obtain N where N: "nodes s n = Some N" "n_has_strong_ref N \<or> n_has_weak_ref N" using assms(2) by (auto simp: told_held_def)
  then obtain N' where N': "nodes s' n = Some N'" "node_core N = node_core N'"
    using core_nodeD [OF assms(1) [symmetric] N(1)] by blast
  then show ?thesis using N(2) node_coreD(9,10) [OF N'(2)] by (simp add: told_held_def)
qed

lemma told_held_upd:
  "upd_proc p f s = Some s' \<Longrightarrow> told_held n s \<Longrightarrow> told_held n s'" "upd_ref r g s = Some s' \<Longrightarrow> told_held n s \<Longrightarrow> told_held n s'"
  "upd_death e h s = Some s' \<Longrightarrow> told_held n s \<Longrightarrow> told_held n s'"
  "upd_node m k s = Some s' \<Longrightarrow> told_held n s \<Longrightarrow>
    (\<And>N. n_has_strong_ref (k N) = n_has_strong_ref N \<and> n_has_weak_ref (k N) = n_has_weak_ref N) \<Longrightarrow> told_held n s'"
  by (auto simp: upd_defs told_held_def bind_eq_Some_conv)

lemma told_held_frame [simp]:
  "told_held n (s\<lparr>deaths := ds\<rparr>) = told_held n s" "told_held n (s\<lparr>refs := rs, stat_refs := i\<rparr>) = told_held n s"
  by (simp_all add: told_held_def)

lemma told_held_maybe_free:
  assumes run: "binder_node_maybe_free m s = Some s'" and held: "told_held n s"
  shows "told_held n s'"
proof -
  obtain M where M: "nodes s m = Some M" using run by (auto simp: binder_node_maybe_free_def bind_eq_Some_conv)
  show ?thesis
  proof (cases "reclaimable M")
    case False
    then have "s' = s" using run M by (auto simp: binder_node_maybe_free_def reclaimable_def split: if_splits)
    then show ?thesis using held by simp
  next
    case True
    then have "m \<noteq> n" using M held by (auto simp: told_held_def reclaimable_def)
    obtain s1 where s1: "async_drain (n_async_todo M) s = Some s1"
      using run M True by (cases "async_drain (n_async_todo M) s") (auto simp: binder_node_maybe_free_def reclaimable_def)
    have "procs s p \<noteq> None" if "n_proc M = Some p" for p
      using run M True s1 that core_dom(1) [OF core_async_drain [OF s1], of p]
      by (auto simp: binder_node_maybe_free_def reclaimable_def upd_proc_def)
    then have "s' = unlink_node m M s1" using maybe_free_eq [OF M] run True s1 by auto
    then have "nodes s' n = nodes s1 n" using \<open>m \<noteq> n\<close> by (simp add: unlink_node_frame)
    then show ?thesis
      using told_held_core [OF core_async_drain [OF s1] held] by (simp add: told_held_def)
  qed
qed

lemmas told_held_keeps = told_held_upd(1-3) told_held_core [OF core_insert] told_held_core [OF core_dequeue]
  told_held_core [OF core_wakeup_proc] told_held_core [OF core_notify_owner] told_held_maybe_free

lemma told_held_died_loop: "died_loop rs s = Some s' \<Longrightarrow> told_held n s \<Longrightarrow> told_held n s'"
proof (induction rs arbitrary: s)
  case (Cons r rs)
  then show ?case
    by (auto simp: bind_eq_Some_conv binder_enqueue_work_def split: option.splits if_splits elim!: told_held_keeps Cons.IH)
qed simp

lemma told_held_release_nodes: "release_nodes p ns s = Some s' \<Longrightarrow> told_held n s \<Longrightarrow> told_held n s'"
proof (induction ns arbitrary: s)
  case (Cons m ns)
  then show ?case
    by (auto simp: bind_eq_Some_conv binder_node_died_def binder_node_release_def
        elim!: told_held_keeps told_held_died_loop Cons.IH told_held_upd(4))
qed simp

lemma told_held_update_refs:
  assumes "binder_node_update_refs m strong increment internal th s = Some (e, s')" and "told_held n s"
  shows "told_held n s'"
proof -
  have "n_has_strong_ref N' = n_has_strong_ref N \<and> n_has_weak_ref N' = n_has_weak_ref N"
    if "count_refs strong increment internal N = Some (e', N')" for e' N N'
    using that by (auto simp: count_refs_def bind_eq_Some_conv split: if_splits)
  then have "told_held n (s\<lparr>nodes := (nodes s)(m \<mapsto> N')\<rparr>)"
    if "nodes s m = Some N" "count_refs strong increment internal N = Some (e', N')" for e' N N'
    using that assms(2) by (fastforce simp: told_held_def)
  then show ?thesis
    using assms
    by (auto simp: binder_node_update_refs_def upd_node_def bind_eq_Some_conv Let_def split: if_splits elim!: told_held_keeps)
qed

lemma told_held_ref_delete: "binder_ref_delete r s = Some s' \<Longrightarrow> told_held n s \<Longrightarrow> told_held n s'"
  unfolding binder_ref_delete_def Let_def
  by (auto simp: bind_eq_Some_conv split: option.splits elim!: told_held_keeps told_held_upd(4) told_held_update_refs)

lemma told_held_release_refs: "release_refs rs s = Some s' \<Longrightarrow> told_held n s \<Longrightarrow> told_held n s'"
  by (induction rs arbitrary: s) (auto simp: bind_eq_Some_conv dest: told_held_ref_delete)

text \<open>C37: an object that is not the context manager's, whose owner was told that it is held (\<open>has_strong_ref\<close> or
  \<open>has_weak_ref\<close>) and then is closed without having been told otherwise, is never given back. Closing the owner leaves the object
  allocated and without owner; whichever handles are deleted after that, even all
  that lead to it, it is still allocated, and trying to free it does nothing.\<close>

theorem orphan_leaks:
  assumes inv: "driver_inv s" and P: "procs s p = Some P" and N: "nodes s n = Some N" "n_proc N = Some p"
    and held: "n_has_strong_ref N \<or> n_has_weak_ref N" and mgr: "\<And>c. c_mgr_node (contexts s c) \<noteq> Some n"
    and rs: "distinct rs" "\<And>r. r \<in> set rs \<Longrightarrow> refs s r \<noteq> None"
  shows "\<exists>s1 s2 s3 M. release_mgr p s = Some s1 \<and> release_nodes p (p_nodes P) s1 = Some s2 \<and>
    release_refs rs s2 = Some s3 \<and> nodes s3 n = Some M \<and> n_proc M = None \<and>
    ((\<forall>r R. refs s r = Some R \<longrightarrow> r_node R = Some n \<longrightarrow> r \<in> set rs) \<longrightarrow> n_refs M = []) \<and>
    binder_node_maybe_free n s3 = Some s3"
proof -
  obtain s1 where s1: "release_mgr p s = Some s1" "driver_inv s1" "manages_none s1 p" "refs s1 = refs s"
      "procs s1 p = Some P" "owner_of s1 = owner_of s"
    using release_mgr_ok [OF inv P] P by auto
  have "told_held n s" using N held by (auto simp: told_held_def)
  moreover have "nodes s1 n = nodes s n"
    using s1(1) P mgr
    by (cases "p_context P"; cases "c_mgr_node (contexts s (the (p_context P)))")
      (auto simp: release_mgr_def upd_node_def upd_context_def bind_eq_Some_conv split: if_splits)
  ultimately have h1: "told_held n s1" by (simp add: told_held_def)
  have g1: "proc_graph_ok s1 p P" by (rule graph_offD(1) [OF refs_invD(1) [OF driver_invD(1) [OF s1(2)]] s1(5)])
  obtain s2 where s2: "release_nodes p (p_nodes P) s1 = Some s2" "driver_inv s2" "nodes_released p (p_nodes P) s1 s2"
    using release_nodes_ok [OF s1(2) _ _ _ s1(3), of "p_nodes P"] g1 s1(5) by (auto simp: proc_graph_ok_def)
  have mem: "n \<in> set (p_nodes P)" using g1 N s1(6) by (simp add: proc_graph_ok_def owner_of_def)
  have r2: "refs s2 = refs s" using s2(3) s1(4) by (simp add: nodes_released_def)
  obtain s3 where s3: "release_refs rs s2 = Some s3" "driver_inv s3" "shrinks s2 s3"
      "refs s3 = (\<lambda>r. if r \<in> set rs then None else refs s2 r)"
    using release_refs_ok [OF s2(2) rs(1)] rs(2) r2 by auto
  have "told_held n s3"
    by (rule told_held_release_refs [OF s3(1) told_held_release_nodes [OF s2(1) h1]])
  then obtain M where M: "nodes s3 n = Some M" "n_has_strong_ref M \<or> n_has_weak_ref M" by (auto simp: told_held_def)
  obtain M2 where M2: "nodes s2 n = Some M2" "node_id M = node_id M2" using shrinksD(5) [OF s3(3) M(1)] by blast
  have "n_proc M = None"
    using s2(3) mem M2 by (auto simp: nodes_released_def gone_or_dead_def node_id_def)
  moreover have "n_refs M = []" if "\<forall>r R. refs s r = Some R \<longrightarrow> r_node R = Some n \<longrightarrow> r \<in> set rs"
  proof -
    have "set (n_refs M) = {r. target_of s3 r = Some n}"
      using graph_offD(2) [OF refs_invD(1) [OF driver_invD(1) [OF s3(2)]] M(1)] by (auto simp: node_graph_ok_def)
    also have "\<dots> = {}" using that by (auto simp: target_of_def s3(4) r2 bind_eq_Some_conv split: if_splits)
    finally show ?thesis by simp
  qed
  moreover have "binder_node_maybe_free n s3 = Some s3" using M by (auto simp: binder_node_maybe_free_def)
  ultimately show ?thesis using s1(1) s2(1) s3(1) M(1) by blast
qed

theorem orphan_leaks_witness:
  "\<exists>s1 s2 s3 M. release_mgr 1 death_example = Some s1 \<and> release_nodes 1 [3] s1 = Some s2 \<and>
    release_refs [4] s2 = Some s3 \<and> nodes s3 3 = Some M \<and> n_proc M = None \<and> n_refs M = [] \<and>
    binder_node_maybe_free 3 s3 = Some s3"
proof -
  have P: "procs death_example 1 = Some (fresh_proc\<lparr>p_nodes := [3], p_threads := [5]\<rparr>)"
    by (simp add: death_example_def handle_example_def)
  have N: "nodes death_example 3 = Some (new_node\<lparr>n_proc := Some 1, n_ptr := 0x1000, n_refs := [4],
       n_internal_strong_refs := 1, n_has_strong_ref := True, n_has_weak_ref := True\<rparr>)"
    by (simp add: death_example_def)
  have all: "\<forall>r R. refs death_example r = Some R \<longrightarrow> r_node R = Some 3 \<longrightarrow> r \<in> set [4]"
    by (simp add: death_example_def)
  have "c_mgr_node (contexts death_example c) \<noteq> Some 3" "r \<in> set [4] \<Longrightarrow> refs death_example r \<noteq> None" for c r
    by (simp_all add: death_example_defs)
  from orphan_leaks [OF death_example_inv P N, where rs = "[4]", OF _ _ this(1) _ this(2)] all show ?thesis by auto
qed

end
