(* ===== verification/Binder_Parcel.thy ===== *)
theory Binder_Parcel
  imports Binder_RW
begin

text \<open>
  The payload of a transaction (\<^verbatim>\<open>kext/binder_txn.c\<close>): the objects the offsets name lie
  inside the data, the kernel copy is laid out as the receiver is told, the
  sender cannot choose the identity it is reported with, and the walk that looks for a
  waiting thread of the target ends.
\<close>

section \<open>Objects\<close>

lemma object_sizes:
  "struct_size flat_binder_object = 24" "struct_size binder_fd_object = 24"
  "struct_size binder_buffer_object = 40" "struct_size binder_fd_array_object = 32"
  "struct_size binder_object_header = 4"
  by (simp_all add: layout_defs)

lemma object_size_range: "binder_object_size type = 0 \<or> 24 \<le> unat (binder_object_size type) \<and> unat (binder_object_size type) \<le> 40"
  by (simp add: binder_object_size_def object_sizes)

text \<open>C24: the object an offset names is found exactly when the offset is aligned, the type is
  known and the whole object lies inside the data. The check itself never reads
  outside the block.\<close>

theorem object_at_exact:
  assumes "unat data_size \<le> length kdata"
  shows "\<exists>found. binder_object_at kdata data_size off = Some found \<and>
    (\<forall>n. found = Some n \<longleftrightarrow> off AND 7 = 0 \<and> n \<noteq> 0 \<and> n = binder_object_size (get_u32 (unat off) kdata) \<and>
       unat off + unat n \<le> unat data_size)"
proof (cases "off AND 7 \<noteq> 0 \<or> data_size \<le> off \<or> data_size - off < 4")
  case True
  have "\<not> (n \<noteq> 0 \<and> n = binder_object_size ty \<and> unat off + unat n \<le> unat data_size)"
    if "data_size \<le> off \<or> data_size - off < 4" for n ty
    using that object_size_range [of ty]
    by (cases "data_size \<le> off") (auto simp: word_le_nat_alt word_less_nat_alt unat_sub_le unat_eq_zero)
  then show ?thesis using True by (auto simp: binder_object_at_def object_sizes)
next
  case False
  then have lt: "unat off < unat data_size" "4 \<le> unat data_size - unat off"
    by (auto simp: word_le_nat_alt word_less_nat_alt unat_sub_le not_less not_le)
  then have rd: "rd_u32 (unat off) kdata = Some (get_u32 (unat off) kdata)"
    using assms by (simp add: rd_u32_def)
  let ?n = "binder_object_size (get_u32 (unat off) kdata)"
  have "data_size - off < ?n \<longleftrightarrow> \<not> unat off + unat ?n \<le> unat data_size"
    using lt(1) by (auto simp: word_less_nat_alt unat_sub_le word_le_nat_alt)
  then show ?thesis using False rd by (auto simp: binder_object_at_def object_sizes Let_def)
qed

theorem object_at_exact_witness:
  "\<exists>found. binder_object_at (word_le 4 BINDER_TYPE_HANDLE @ replicate 20 0) 24 0 = Some found \<and> found = Some 24"
proof -
  let ?kd = "word_le 4 BINDER_TYPE_HANDLE @ replicate 20 0"
  have "get_u32 0 ?kd = BINDER_TYPE_HANDLE" by (simp add: get_u32_def get_bytes_append)
  then have sz: "binder_object_size (get_u32 (unat (0 :: u64)) ?kd) = 24" by (simp add: binder_object_size_def object_sizes)
  have len: "unat (24 :: u64) \<le> length ?kd" by simp
  obtain found where "binder_object_at ?kd 24 0 = Some found"
    and iff: "\<forall>n. found = Some n \<longleftrightarrow> 0 AND 7 = (0 :: u64) \<and> n \<noteq> 0 \<and> n = binder_object_size (get_u32 (unat (0 :: u64)) ?kd) \<and>
       unat (0 :: u64) + unat n \<le> unat (24 :: u64)"
    using object_at_exact [OF len, of 0] by blast
  moreover have "found = Some 24" using iff [THEN spec, of 24] unfolding sz by simp
  ultimately show ?thesis by blast
qed

section \<open>The kernel copy\<close>

lemma align_bounds:
  assumes "unat x \<le> 2 ^ 20"
  shows "unat x \<le> unat (BINDER_ALIGN x)" "unat (BINDER_ALIGN x) \<le> 2 ^ 20"
proof -
  have a: "unat (BINDER_ALIGN x) = (unat x + 7) div 8 * 8"
    by (rule BINDER_ALIGN_unat) (use assms in simp)
  show "unat x \<le> unat (BINDER_ALIGN x)" unfolding a by presburger
  have "(unat x + 7) div 8 \<le> 2 ^ 17" using assms by (simp add: div_le_mono [of _ "2 ^ 20 + 7" 8, simplified])
  then show "unat (BINDER_ALIGN x) \<le> 2 ^ 20" unfolding a by simp
qed

lemma put_data:
  "length xs \<le> n \<Longrightarrow> put_bytes 0 xs (replicate n 0) = xs @ replicate (n - length xs) 0"
  by (simp add: put_bytes_def)

lemma put_offsets:
  assumes "length xs \<le> a" and "a + length ys \<le> n"
  shows "put_bytes a ys (xs @ replicate (n - length xs) 0) =
    xs @ replicate (a - length xs) 0 @ ys @ replicate (n - a - length ys) 0"
  using assms by (simp add: put_bytes_def min_def drop_replicate)

lemma txn_error_ok:
  assumes "threads s t = Some T"
  shows "\<exists>s' T'. binder_txn_error t br s = Some s' \<and> procs s' = procs s \<and> threads s' t = Some T' \<and>
    e_cmd (t_return_error T') = br \<and> clock s' = clock s"
  using assms
  by (auto simp: binder_txn_error_def set_return_error_def upd_thread_def binder_enqueue_thread_work_def
      binder_queue_insert_def get_work_def upd_queue_def upd_work_def)

lemma find_by_id:
  "distinct (map b_id bs) \<Longrightarrow> B \<in> set bs \<Longrightarrow> find (\<lambda>X. b_id X = b_id B) bs = Some B"
  by (induction bs) (auto simp: image_iff)

lemma live_get_buffer:
  assumes "arena_inv p s" and "B \<in> arena_live p s"
  shows "get_buffer p (b_id B) s = Some B"
proof -
  obtain P where P: "procs s p = Some P" "arena_ok (p_arena_size P) (p_buffers P)" "B \<in> set (p_buffers P)"
    using arena_live_ok [OF assms] by blast
  then have "distinct (map b_id (p_buffers P))" by (cases "p_arena_size P = 0") (auto simp: arena_ok_def)
  then show ?thesis using P by (simp add: get_buffer_def find_by_id)
qed

lemma get_buffer_upd:
  assumes "get_buffer p b s = Some B" and "\<And>B. b_id (f B) = b_id B"
  shows "\<exists>s'. upd_buffer p b f s = Some s' \<and> get_buffer p b s' = Some (f B)"
proof -
  obtain P where P: "procs s p = Some P" "find (\<lambda>B. b_id B = b) (p_buffers P) = Some B"
    using assms(1) by (auto simp: get_buffer_def bind_eq_Some_conv)
  have "find (\<lambda>B. b_id B = b) (map (\<lambda>B. if b_id B = b then f B else B) bs) =
      map_option f (find (\<lambda>B. b_id B = b) bs)" for bs
    by (induction bs) (auto simp: assms(2))
  then show ?thesis using P by (simp add: upd_buffer_def get_buffer_def upd_proc_def)
qed

lemma alloc_threads:
  assumes "binder_buffer_alloc K p d f e a s = Some (r, s')"
  shows "threads s' = threads s"
proof -
  obtain P where P: "procs s p = Some P" using assms by (auto simp: binder_buffer_alloc_def bind_eq_Some_conv)
  show ?thesis
  proof (cases "first_fit (buffer_need d f e) (p_buffers P)")
    case None
    then show ?thesis using assms P by (auto simp: binder_buffer_alloc_def Let_def split: if_splits)
  next
    case (Some x)
    obtain pre buf post where "x = (pre, buf, post)" by (cases x)
    then show ?thesis using assms P Some
      by (auto simp: binder_buffer_alloc_def Let_def binder_alloc_mem_def upd_proc_def
          binder_next_debug_id_def split: if_splits)
  qed
qed

text \<open>What the receiver's buffer holds once the payload is accepted.\<close>

definition payload_stored ::
    "kpi \<Rightarrow> addr \<Rightarrow> addr \<Rightarrow> binder_transaction_data \<Rightarrow> u64 \<Rightarrow> binder_state \<Rightarrow> bool" where
  "payload_stored K p b tr extra s \<longleftrightarrow> (\<exists>B kd data offs c c'.
     get_buffer p b s = Some B \<and> \<not> b_free B \<and> b_data_size B = tr_data_size tr \<and>
     b_offsets_size B = tr_offsets_size tr \<and> b_extra_buffers_size B = extra \<and>
     b_kdata B = Some kd \<and> length kd = unat (b_kdata_size B) \<and>
     b_kdata_size B \<le> BINDER_MAX_TRANSACTION_SIZE \<and> b_kdata_size B \<le> b_size B \<and>
     copyin K c (tr_buffer tr) (tr_data_size tr) = Some data \<and>
     copyin K c' (tr_offsets tr) (tr_offsets_size tr) = Some offs \<and>
     (\<exists>pad rest. kd = data @ replicate pad 0 @ offs @ replicate rest 0 \<and>
       length data + pad = unat (BINDER_ALIGN (tr_data_size tr)) \<and>
       length offs + rest = unat (BINDER_ALIGN (tr_offsets_size tr)) + unat (BINDER_ALIGN extra)))"

definition failed_with :: "addr \<Rightarrow> u32 \<Rightarrow> binder_state \<Rightarrow> bool" where
  "failed_with t br s \<longleftrightarrow> (\<exists>T. threads s t = Some T \<and> e_cmd (t_return_error T) = br)"

lemma payload_total:
  assumes "tr_data_size tr \<le> BINDER_MAX_TRANSACTION_SIZE" "tr_offsets_size tr \<le> BINDER_MAX_TRANSACTION_SIZE"
    "extra \<le> BINDER_MAX_TRANSACTION_SIZE"
  defines "n \<equiv> buffer_need (tr_data_size tr) (tr_offsets_size tr) extra"
  shows "unat n = unat (BINDER_ALIGN (tr_data_size tr)) + unat (BINDER_ALIGN (tr_offsets_size tr)) + unat (BINDER_ALIGN extra)"
    "unat (tr_data_size tr) \<le> unat (BINDER_ALIGN (tr_data_size tr))"
    "unat (tr_offsets_size tr) \<le> unat (BINDER_ALIGN (tr_offsets_size tr))"
proof -
  have u: "unat x \<le> 2 ^ 20" if "x \<le> BINDER_MAX_TRANSACTION_SIZE" for x :: u64
    using that by (simp add: BINDER_MAX_TRANSACTION_SIZE_def word_le_nat_alt)
  note a = align_bounds [OF u [OF assms(1)]] align_bounds [OF u [OF assms(2)]] align_bounds [OF u [OF assms(3)]]
  show "unat (tr_data_size tr) \<le> unat (BINDER_ALIGN (tr_data_size tr))"
    "unat (tr_offsets_size tr) \<le> unat (BINDER_ALIGN (tr_offsets_size tr))" by (fact a)+
  show "unat n = unat (BINDER_ALIGN (tr_data_size tr)) + unat (BINDER_ALIGN (tr_offsets_size tr)) + unat (BINDER_ALIGN extra)"
    using a unfolding n_def buffer_need_def by (simp add: unat_small_add)
qed

lemma payload_write:
  assumes B: "get_buffer p b s = Some B" "\<not> b_free B" "b_data_size B = tr_data_size tr"
      "b_offsets_size B = tr_offsets_size tr" "b_extra_buffers_size B = extra" "tot \<le> b_size B"
    and total: "tot = buffer_need (tr_data_size tr) (tr_offsets_size tr) extra" "tot \<le> BINDER_MAX_TRANSACTION_SIZE"
    and sizes: "tr_data_size tr \<le> BINDER_MAX_TRANSACTION_SIZE" "tr_offsets_size tr \<le> BINDER_MAX_TRANSACTION_SIZE"
      "extra \<le> BINDER_MAX_TRANSACTION_SIZE"
    and read: "copyin K c (tr_buffer tr) (tr_data_size tr) = Some data"
      "copyin K c' (tr_offsets tr) (tr_offsets_size tr) = Some offs" "copyin_full K"
  shows "\<exists>kd1 kd2 s'. wr_bytes 0 data (replicate (unat tot) 0) = Some kd1 \<and>
    wr_bytes (unat (BINDER_ALIGN (tr_data_size tr))) offs kd1 = Some kd2 \<and>
    upd_buffer p b (\<lambda>B. B\<lparr>b_kdata := Some kd2, b_kdata_size := tot\<rparr>) s = Some s' \<and>
    payload_stored K p b tr extra s'"
proof -
  note n = payload_total [OF sizes, folded total(1)]
  have len: "length data = unat (tr_data_size tr)" "length offs = unat (tr_offsets_size tr)"
    using read by (auto simp: copyin_full_def)
  let ?a = "unat (BINDER_ALIGN (tr_data_size tr))"
  let ?kd1 = "data @ replicate (unat tot - length data) 0"
  let ?kd2 = "data @ replicate (?a - length data) 0 @ offs @ replicate (unat tot - ?a - length offs) 0"
  have fit: "length data \<le> ?a" "?a + length offs \<le> unat tot" using n len by linarith+
  have w1: "wr_bytes 0 data (replicate (unat tot) 0) = Some ?kd1"
    using fit by (simp add: wr_bytes_def put_data)
  have w2: "wr_bytes ?a offs ?kd1 = Some ?kd2"
    using fit put_offsets [OF fit] by (simp add: wr_bytes_def)
  obtain s' where s': "upd_buffer p b (\<lambda>B. B\<lparr>b_kdata := Some ?kd2, b_kdata_size := tot\<rparr>) s = Some s'"
      "get_buffer p b s' = Some (B\<lparr>b_kdata := Some ?kd2, b_kdata_size := tot\<rparr>)"
    using get_buffer_upd [OF B(1), of "\<lambda>B. B\<lparr>b_kdata := Some ?kd2, b_kdata_size := tot\<rparr>"] by auto
  have shape: "\<exists>pad rest. ?kd2 = data @ replicate pad 0 @ offs @ replicate rest 0 \<and> length data + pad = ?a \<and>
      length offs + rest = unat (BINDER_ALIGN (tr_offsets_size tr)) + unat (BINDER_ALIGN extra)"
    by (rule exI [of _ "?a - length data"], rule exI [of _ "unat tot - ?a - length offs"]) (use fit n(1) in simp)
  have "payload_stored K p b tr extra s'"
    unfolding payload_stored_def
    by (rule exI [of _ "B\<lparr>b_kdata := Some ?kd2, b_kdata_size := tot\<rparr>"], rule exI [of _ ?kd2],
        rule exI [of _ data], rule exI [of _ offs], rule exI [of _ c], rule exI [of _ c'])
      (intro conjI shape; use s'(2) B total(2) read(1,2) fit n(1) in simp)
  then show ?thesis using w1 w2 s'(1) by blast
qed

lemma buffer_failed:
  assumes "threads s t = Some T"
  shows "\<exists>s'. (do { s \<leftarrow> binder_txn_error t br s; Some (r, False, s) }) = Some (r, False, s') \<and>
    failed_with t br s'"
  using txn_error_ok [OF assms, of br] by (auto simp: failed_with_def)

definition services_ok :: "kpi \<Rightarrow> bool" where
  "services_ok K \<longleftrightarrow> (\<forall>c n. osmalloc K c n) \<and> (\<forall>c a n. copyin K c a n \<noteq> None)"

text \<open>The end of \<open>txn_payload\<close>: the kernel copy of a buffer that has been allocated.\<close>

definition payload_copy ::
    "kpi \<Rightarrow> addr \<Rightarrow> addr \<Rightarrow> binder_transaction_data \<Rightarrow> u64 \<Rightarrow> addr \<Rightarrow> binder_state \<Rightarrow> (addr option \<times> bool \<times> binder_state) option"
where
  "payload_copy K t p tr tot b s = (case binder_alloc_mem K (Bytes tot) s of (m, s2) \<Rightarrow>
     (case binder_copyin K (tr_buffer tr) (tr_data_size tr) s2 of (data, s3) \<Rightarrow>
        (case binder_copyin K (tr_offsets tr) (tr_offsets_size tr) s3 of (offs, s4) \<Rightarrow>
           if m = None \<or> data = None \<or> offs = None
           then (do { s \<leftarrow> binder_txn_error t BR_FAILED_REPLY (if m = None then s2 else if data = None then s3 else s4);
                      Some (Some b, False, s) })
           else (do { kd \<leftarrow> wr_bytes 0 (the data) (replicate (unat tot) 0);
                      kd \<leftarrow> wr_bytes (unat (BINDER_ALIGN (tr_data_size tr))) (the offs) kd;
                      s \<leftarrow> upd_buffer p b (\<lambda>B. B\<lparr>b_kdata := Some kd, b_kdata_size := tot\<rparr>) s4;
                      Some (Some b, True, s\<lparr>stat_kdata_bytes := stat_kdata_bytes s + sint tot\<rparr>) }))))"

lemma payload_copy_eq:
  assumes "procs s (g_proc G) = Some P" "p_arena_size P \<noteq> 0"
    and "tr_data_size tr \<le> BINDER_MAX_TRANSACTION_SIZE" "tr_offsets_size tr \<le> BINDER_MAX_TRANSACTION_SIZE"
      "extra \<le> BINDER_MAX_TRANSACTION_SIZE" "tr_offsets_size tr mod 8 = 0"
    and "buffer_need (tr_data_size tr) (tr_offsets_size tr) extra \<noteq> 0"
      "buffer_need (tr_data_size tr) (tr_offsets_size tr) extra \<le> BINDER_MAX_TRANSACTION_SIZE"
    and "binder_buffer_alloc K (g_proc G) (tr_data_size tr) (tr_offsets_size tr) extra (g_oneway G) s = Some (Some b, s1)"
  shows "txn_payload K t G tr extra s =
    payload_copy K t (g_proc G) tr (buffer_need (tr_data_size tr) (tr_offsets_size tr) extra) b s1"
  using assms
  by (auto simp: txn_payload_def payload_copy_def Let_def buffer_need_def not_less split: option.split prod.split)

lemma payload_copy_ok:
  assumes K: "copyin_full K" and T: "threads s t = Some T"
    and B: "get_buffer p b s = Some B" "\<not> b_free B" "b_data_size B = tr_data_size tr"
      "b_offsets_size B = tr_offsets_size tr" "b_extra_buffers_size B = extra" "tot \<le> b_size B"
    and total: "tot = buffer_need (tr_data_size tr) (tr_offsets_size tr) extra" "tot \<le> BINDER_MAX_TRANSACTION_SIZE" "tot \<noteq> 0"
    and sizes: "tr_data_size tr \<le> BINDER_MAX_TRANSACTION_SIZE" "tr_offsets_size tr \<le> BINDER_MAX_TRANSACTION_SIZE"
      "extra \<le> BINDER_MAX_TRANSACTION_SIZE"
  shows "\<exists>ok s'. payload_copy K t p tr tot b s = Some (Some b, ok, s') \<and> (services_ok K \<longrightarrow> ok) \<and>
    (if ok then payload_stored K p b tr extra s' else failed_with t BR_FAILED_REPLY s')"
proof -
  obtain m s2 where mem: "binder_alloc_mem K (Bytes tot) s = (m, s2)" by fastforce
  obtain data s3 where data: "binder_copyin K (tr_buffer tr) (tr_data_size tr) s2 = (data, s3)" by fastforce
  obtain offs s4 where offs: "binder_copyin K (tr_offsets tr) (tr_offsets_size tr) s3 = (offs, s4)" by fastforce
  note run = payload_copy_def mem data offs prod.case
  have same: "threads s2 = threads s" "threads s3 = threads s" "threads s4 = threads s" "procs s4 = procs s"
    using mem data offs by (auto simp: binder_alloc_mem_def binder_copyin_def split: if_splits)
  show ?thesis
  proof (cases "m = None \<or> data = None \<or> offs = None")
    case True
    define f where "f = (if m = None then s2 else if data = None then s3 else s4)"
    have "threads f t = Some T" using same T by (simp add: f_def)
    from buffer_failed [OF this, of BR_FAILED_REPLY "Some b"] have "\<exists>s'. payload_copy K t p tr tot b s = Some (Some b, False, s') \<and>
        failed_with t BR_FAILED_REPLY s'"
      unfolding run if_P [OF True] f_def .
    moreover have "m \<noteq> None" "data \<noteq> None" "offs \<noteq> None" if "services_ok K"
      using that mem data offs total(3) by (auto simp: services_ok_def binder_alloc_mem_def binder_copyin_def)
    ultimately show ?thesis using True by auto
  next
    case False
    then obtain ds os where d: "data = Some ds" "offs = Some os" by auto
    have get4: "get_buffer p b s4 = Some B" using B(1) same(4) by (simp add: get_buffer_def)
    obtain kd1 kd2 s5 where w: "wr_bytes 0 ds (replicate (unat tot) 0) = Some kd1"
        "wr_bytes (unat (BINDER_ALIGN (tr_data_size tr))) os kd1 = Some kd2"
        "upd_buffer p b (\<lambda>B. B\<lparr>b_kdata := Some kd2, b_kdata_size := tot\<rparr>) s4 = Some s5"
        "payload_stored K p b tr extra s5"
      using payload_write [OF get4 B(2-6) total(1,2) sizes _ _ K, of "clock s2" ds "clock s3" os]
        data offs d by (auto simp: binder_copyin_def)
    then have "payload_stored K p b tr extra (s5\<lparr>stat_kdata_bytes := stat_kdata_bytes s5 + sint tot\<rparr>)"
      by (simp add: payload_stored_def get_buffer_def)
    moreover have "payload_copy K t p tr tot b s =
        Some (Some b, True, s5\<lparr>stat_kdata_bytes := stat_kdata_bytes s5 + sint tot\<rparr>)"
      unfolding run if_not_P [OF False] using d w by simp
    ultimately show ?thesis by auto
  qed
qed

lemma payload_fill:
  assumes inv: "arena_inv (g_proc G) s" and K: "copyin_full K" and T: "threads s t = Some T"
    and P: "procs s (g_proc G) = Some P" "p_arena_size P \<noteq> 0"
    and sizes: "tr_data_size tr \<le> BINDER_MAX_TRANSACTION_SIZE" "tr_offsets_size tr \<le> BINDER_MAX_TRANSACTION_SIZE"
      "extra \<le> BINDER_MAX_TRANSACTION_SIZE" "tr_offsets_size tr mod 8 = 0"
    and total: "buffer_need (tr_data_size tr) (tr_offsets_size tr) extra \<noteq> 0"
      "buffer_need (tr_data_size tr) (tr_offsets_size tr) extra \<le> BINDER_MAX_TRANSACTION_SIZE"
  shows "\<exists>b ok s'. txn_payload K t G tr extra s = Some (b, ok, s') \<and>
    (if ok then \<exists>x. b = Some x \<and> payload_stored K (g_proc G) x tr extra s' else failed_with t BR_FAILED_REPLY s') \<and>
    (services_ok K \<longrightarrow> (ok \<longleftrightarrow> (\<exists>x s1. binder_buffer_alloc K (g_proc G) (tr_data_size tr) (tr_offsets_size tr) extra
       (g_oneway G) s = Some (Some x, s1))))"
proof -
  obtain r s1 where alloc: "binder_buffer_alloc K (g_proc G) (tr_data_size tr) (tr_offsets_size tr) extra (g_oneway G) s = Some (r, s1)"
    using binder_buffer_alloc_total [OF P(1)] by blast
  have T1: "threads s1 t = Some T" using alloc_threads [OF alloc] T by simp
  show ?thesis
  proof (cases r)
    case None
    then show ?thesis
      using alloc P sizes total buffer_failed [OF T1, of BR_FAILED_REPLY None]
      by (auto simp: txn_payload_def Let_def buffer_need_def not_less)
  next
    case (Some b)
    note alloc' = alloc [unfolded Some]
    obtain B where B: "B \<in> arena_live (g_proc G) s1" "b_id B = b" "\<not> b_free B" "b_data_size B = tr_data_size tr"
        "b_offsets_size B = tr_offsets_size tr" "b_extra_buffers_size B = extra"
        "buffer_need (tr_data_size tr) (tr_offsets_size tr) extra \<le> b_size B"
      using binder_buffer_alloc_live [OF alloc' inv] by blast
    have get: "get_buffer (g_proc G) b s1 = Some B"
      using live_get_buffer [OF binder_buffer_alloc_inv [OF alloc inv] B(1)] B(2) by simp
    obtain ok s' where c: "payload_copy K t (g_proc G) tr (buffer_need (tr_data_size tr) (tr_offsets_size tr) extra) b s1 =
        Some (Some b, ok, s')" "services_ok K \<longrightarrow> ok"
        "if ok then payload_stored K (g_proc G) b tr extra s' else failed_with t BR_FAILED_REPLY s'"
      using payload_copy_ok [OF K T1 get B(3-7) refl total(2,1) sizes(1-3)] by blast
    show ?thesis
      unfolding payload_copy_eq [OF P sizes total alloc'] c(1)
      by (rule exI [of _ "Some b"], rule exI [of _ ok], rule exI [of _ s']) (use c(2,3) alloc' in auto)
  qed
qed

text \<open>C12: the payload of a transaction. Into a well-formed arena it is always accepted or refused, without
  undefined behaviour. Accepted, the buffer in the receiver's arena holds the sender's data and then its
  offsets, each at its aligned place with zeroes between and after, in a copy of exactly the
  size of the three aligned areas, at most the transaction limit and at most the buffer. Refused, the
  sender is owed \<open>BR_FAILED_REPLY\<close>. While memory and the sender's pages last it is accepted exactly when
  an arena is registered, every size and their sum respect the limits, the offsets are whole words,
  and the arena gives a buffer.\<close>

theorem payload_exact:
  assumes "arena_inv (g_proc G) s" and "copyin_full K" and "threads s t = Some T" and P: "procs s (g_proc G) = Some P"
  shows "\<exists>b ok s'. txn_payload K t G tr extra s = Some (b, ok, s') \<and>
    (if ok then \<exists>x. b = Some x \<and> payload_stored K (g_proc G) x tr extra s' else failed_with t BR_FAILED_REPLY s') \<and>
    (services_ok K \<longrightarrow> (ok \<longleftrightarrow> p_arena_size P \<noteq> 0 \<and> tr_data_size tr \<le> BINDER_MAX_TRANSACTION_SIZE \<and>
       tr_offsets_size tr \<le> BINDER_MAX_TRANSACTION_SIZE \<and> extra \<le> BINDER_MAX_TRANSACTION_SIZE \<and>
       tr_offsets_size tr mod 8 = 0 \<and> buffer_need (tr_data_size tr) (tr_offsets_size tr) extra \<noteq> 0 \<and>
       buffer_need (tr_data_size tr) (tr_offsets_size tr) extra \<le> BINDER_MAX_TRANSACTION_SIZE \<and>
       (\<exists>x s1. binder_buffer_alloc K (g_proc G) (tr_data_size tr) (tr_offsets_size tr) extra (g_oneway G) s = Some (Some x, s1))))"
proof -
  let ?n = "buffer_need (tr_data_size tr) (tr_offsets_size tr) extra"
  let ?sizes = "tr_data_size tr \<le> BINDER_MAX_TRANSACTION_SIZE \<and> tr_offsets_size tr \<le> BINDER_MAX_TRANSACTION_SIZE \<and>
    extra \<le> BINDER_MAX_TRANSACTION_SIZE \<and> tr_offsets_size tr mod 8 = 0"
  show ?thesis
  proof (cases "p_arena_size P \<noteq> 0 \<and> ?sizes \<and> ?n \<noteq> 0 \<and> ?n \<le> BINDER_MAX_TRANSACTION_SIZE")
    case True
    then show ?thesis using payload_fill [OF assms, of tr extra] by simp
  next
    case False
    have "txn_payload K t G tr extra s =
        (do { s \<leftarrow> binder_txn_error t BR_FAILED_REPLY s; Some (None, False, s) })"
      using False P by (auto simp: txn_payload_def Let_def buffer_need_def not_less not_le)
    then show ?thesis using False buffer_failed [OF assms(3), of BR_FAILED_REPLY None] by auto
  qed
qed

definition payload_example :: binder_state where
  "payload_example = arena_example\<lparr>threads := Map.empty(7 \<mapsto> new_thread)\<rparr>"

definition payload_request :: binder_transaction_data where
  "payload_request = (transaction_data_of (replicate 64 0))\<lparr>tr_data_size := 20, tr_offsets_size := 8\<rparr>"

theorem payload_exact_witness:
  "\<exists>x s'. txn_payload quiet_kpi 7 \<lparr>g_in_reply_to = None, g_proc = 1, g_thread = None, g_node = None, g_oneway = False\<rparr>
      payload_request 0 payload_example = Some (Some x, True, s') \<and>
    payload_stored quiet_kpi 1 x payload_request 0 s'"
proof -
  let ?G = "\<lparr>g_in_reply_to = None, g_proc = 1, g_thread = None, g_node = None, g_oneway = False\<rparr>"
  have inv: "arena_inv (g_proc ?G) payload_example"
    using arena_example_inv by (simp add: arena_inv_def payload_example_def)
  have K: "copyin_full quiet_kpi" "services_ok quiet_kpi"
    by (auto simp: copyin_full_def services_ok_def quiet_kpi_def)
  have T: "threads payload_example 7 = Some (new_thread)" by (simp add: payload_example_def)
  have P: "procs payload_example (g_proc ?G) = procs arena_example 1" by (simp add: payload_example_def)
  have "\<exists>x s1. binder_buffer_alloc quiet_kpi 1 20 8 0 False payload_example = Some (Some x, s1)"
    by (simp add: binder_buffer_alloc_def payload_example_def arena_example_def initial_state_def Let_def buffer_need_def BINDER_ALIGN_def fresh_proc_def
        first_fit_def new_buffer_def BINDER_MIN_SPLIT_def binder_alloc_mem_def quiet_kpi_def
        binder_next_debug_id_def upd_proc_def)
  then show ?thesis
    using payload_exact [OF inv K(1) T, unfolded P, OF example_procs, of payload_request 0] K(2)
    by (auto simp: payload_request_def fresh_proc_def buffer_need_def BINDER_ALIGN_def BINDER_MAX_TRANSACTION_SIZE_def)
qed

section \<open>The identity of the sender\<close>

abbreviation forged :: "u64 \<Rightarrow> u32 \<Rightarrow> u32 \<Rightarrow> binder_transaction_data \<Rightarrow> binder_transaction_data" where
  "forged cookie pid euid tr \<equiv> tr\<lparr>tr_cookie := cookie, tr_sender_pid := pid, tr_sender_euid := euid\<rparr>"

lemma forged_fields:
  "tr_target (forged c i e tr) = tr_target tr" "tr_code (forged c i e tr) = tr_code tr" "tr_flags (forged c i e tr) = tr_flags tr"
  "tr_data_size (forged c i e tr) = tr_data_size tr" "tr_offsets_size (forged c i e tr) = tr_offsets_size tr"
  "tr_buffer (forged c i e tr) = tr_buffer tr" "tr_offsets (forged c i e tr) = tr_offsets tr"
  by simp_all

lemma translate_object_forged:
  "translate_object K p t G b (forged c i e tr) ex j sg s = translate_object K p t G b tr ex j sg s"
  by (simp add: translate_object_def)

lemma translate_loop_forged:
  "translate_loop K p t G b (forged c i e tr) ex is sg s = translate_loop K p t G b tr ex is sg s"
proof (induction "is" arbitrary: sg s)
  case (Cons j js)
  show ?case unfolding translate_loop.simps translate_object_forged Cons.IH ..
qed simp

lemma txn_send_forged: "txn_send K p t G (forged c i e tr) ex reply s = txn_send K p t G tr ex reply s"
proof -
  have "txn_payload K t G (forged c i e tr) ex s = txn_payload K t G tr ex s" for s
    unfolding txn_payload_def forged_fields ..
  moreover have "txn_fill K p t G (forged c i e tr) reply b x d s = txn_fill K p t G tr reply b x d s" for b x d s
    unfolding txn_fill_def forged_fields ..
  ultimately show ?thesis unfolding txn_send_def translate_loop_forged forged_fields by (simp only:)
qed

definition sender_example :: binder_state where
  "sender_example = initial_state\<lparr>procs := Map.empty(1 \<mapsto> fresh_proc\<lparr>p_pid := 77, p_buffers := [new_buffer 2]\<rparr>),
     txns := Map.empty(9 \<mapsto> new_transaction), completes := Map.empty(8 \<mapsto> new_work)\<rparr>"

text \<open>C17: the sender cannot choose who it is. What it writes into the cookie and the two identity fields of its
  command makes no difference to anything the driver does. The transaction carries the pid the process had
  when it opened the device and the caller's effective uid, and these are what the receiver is told.\<close>

theorem sender_unforgeable:
  "binder_transaction K p t (forged cookie pid euid tr) bsize reply sg s = binder_transaction K p t tr bsize reply sg s \<and>
   (procs s p = Some P \<longrightarrow> txn_fill K p t G tr reply b x c s = Some s' \<longrightarrow>
     (\<exists>X. txns s' x = Some X \<and> tr_sender_pid (delivery_data target X B uaddr) = p_pid P \<and>
       tr_sender_euid (delivery_data target X B uaddr) = kauth_uid K))"
proof
  show "binder_transaction K p t (forged cookie pid euid tr) bsize reply sg s = binder_transaction K p t tr bsize reply sg s"
    unfolding binder_transaction_def tr_handle_def txn_send_forged forged_fields ..
  show "procs s p = Some P \<longrightarrow> txn_fill K p t G tr reply b x c s = Some s' \<longrightarrow>
     (\<exists>X. txns s' x = Some X \<and> tr_sender_pid (delivery_data target X B uaddr) = p_pid P \<and>
       tr_sender_euid (delivery_data target X B uaddr) = kauth_uid K)"
    by (auto simp: txn_fill_def binder_next_debug_id_def upd_txn_def upd_buffer_def upd_proc_def upd_complete_def
        delivery_data_def bind_eq_Some_conv)
qed

theorem sender_unforgeable_witness:
  "\<exists>X. txns (the (txn_fill quiet_kpi 1 5 \<lparr>g_in_reply_to = None, g_proc = 1, g_thread = None, g_node = None, g_oneway = False\<rparr>
      payload_request False 2 9 8 sender_example)) 9 = Some X \<and>
    tr_sender_pid (delivery_data None X (new_buffer 2) 0) = 77 \<and> tr_sender_euid (delivery_data None X (new_buffer 2) 0) = 501"
proof -
  let ?G = "\<lparr>g_in_reply_to = None, g_proc = 1, g_thread = None, g_node = None, g_oneway = False\<rparr>"
  have P: "procs sender_example 1 = Some (fresh_proc\<lparr>p_pid := 77, p_buffers := [new_buffer 2]\<rparr>)"
    by (simp add: sender_example_def)
  have "\<exists>s'. txn_fill quiet_kpi 1 5 ?G payload_request False 2 9 8 sender_example = Some s'"
    by (simp add: txn_fill_def sender_example_def initial_state_def binder_next_debug_id_def upd_txn_def upd_buffer_def
        get_buffer_def new_buffer_def upd_proc_def upd_complete_def)
  then obtain s' where s': "txn_fill quiet_kpi 1 5 ?G payload_request False 2 9 8 sender_example = Some s'" by blast
  from conjunct2 [OF sender_unforgeable, rule_format, OF P s', where target = None and B = "new_buffer 2" and uaddr = 0]
  show ?thesis unfolding s' by (simp add: quiet_kpi_def)
qed

section \<open>The walk to a waiting thread\<close>

text \<open>The transactions a thread is in the middle of, innermost first.\<close>

fun stack_chain :: "binder_state \<Rightarrow> addr option \<Rightarrow> addr list \<Rightarrow> bool" where
  "stack_chain s None [] \<longleftrightarrow> True"
| "stack_chain s (Some x) (y # ys) \<longleftrightarrow> x = y \<and> (case txns s x of
       None \<Rightarrow> False
     | Some X \<Rightarrow> (case x_from X of None \<Rightarrow> True | Some f \<Rightarrow> threads s f \<noteq> None) \<and> stack_chain s (x_from_parent X) ys)"
| "stack_chain s _ _ \<longleftrightarrow> False"

definition sent_from :: "binder_state \<Rightarrow> addr \<Rightarrow> addr \<Rightarrow> addr \<Rightarrow> bool" where
  "sent_from s tp x f \<longleftrightarrow> (\<exists>X F. txns s x = Some X \<and> x_from X = Some f \<and> threads s f = Some F \<and> t_proc F = Some tp)"

lemma target_thread_loop_chain:
  "stack_chain s tmp xs \<Longrightarrow> \<exists>r. target_thread_loop tp s tmp = Some r \<and>
    (case r of
       None \<Rightarrow> \<forall>x f. x \<in> set xs \<longrightarrow> \<not> sent_from s tp x f
     | Some f \<Rightarrow> \<exists>pre x post. xs = pre @ x # post \<and> sent_from s tp x f \<and> (\<forall>y g. y \<in> set pre \<longrightarrow> \<not> sent_from s tp y g))"
proof (induction s tmp xs rule: stack_chain.induct)
  case (1 s)
  then show ?case by (simp add: target_thread_loop.simps)
next
  case (2 s x y ys)
  then obtain X where X: "txns s x = Some X" "x = y" "stack_chain s (x_from_parent X) ys"
      "\<And>f. x_from X = Some f \<Longrightarrow> threads s f \<noteq> None" by (auto split: option.splits)
  show ?case
  proof (cases "\<exists>f. sent_from s tp x f")
    case True
    then obtain f where f: "sent_from s tp x f" by blast
    then have "target_thread_loop tp s (Some x) = Some (Some f)"
      using X(1) by (auto simp: target_thread_loop.simps [of tp s "Some x"] sent_from_def)
    then show ?thesis using f X(2) by (auto intro!: exI [of _ "[]"])
  next
    case False
    then have step: "target_thread_loop tp s (Some x) = target_thread_loop tp s (x_from_parent X)"
      using X(1,4) by (subst target_thread_loop.simps) (auto simp: sent_from_def split: option.splits)
    obtain r where r: "target_thread_loop tp s (x_from_parent X) = Some r"
        "case r of None \<Rightarrow> \<forall>x f. x \<in> set ys \<longrightarrow> \<not> sent_from s tp x f
         | Some f \<Rightarrow> \<exists>pre x post. ys = pre @ x # post \<and> sent_from s tp x f \<and> (\<forall>y g. y \<in> set pre \<longrightarrow> \<not> sent_from s tp y g)"
      using 2(1) [OF X(1,3)] by blast
    show ?thesis
    proof (cases r)
      case None
      then show ?thesis using r step False X(2) by auto
    next
      case (Some f)
      then obtain pre z post where "ys = pre @ z # post" "sent_from s tp z f" "\<forall>y g. y \<in> set pre \<longrightarrow> \<not> sent_from s tp y g"
        using r(2) by auto
      then have "\<exists>pre z post. y # ys = pre @ z # post \<and> sent_from s tp z f \<and> (\<forall>w g. w \<in> set pre \<longrightarrow> \<not> sent_from s tp w g)"
        using False X(2) by (intro exI [of _ "y # pre"] exI [of _ z] exI [of _ post]) auto
      then show ?thesis using r(1) step Some by simp
    qed
  qed
qed auto

text \<open>Thread 6 of process 2 called thread 5, which has since called itself.\<close>

definition stack_example :: binder_state where
  "stack_example = initial_state\<lparr>
     threads := Map.empty(5 \<mapsto> new_thread\<lparr>t_transaction_stack := Some 9\<rparr>, 6 \<mapsto> new_thread\<lparr>t_proc := Some 2\<rparr>),
     txns := Map.empty(9 \<mapsto> new_transaction\<lparr>x_from := Some 5, x_from_parent := Some 8\<rparr>,
       8 \<mapsto> new_transaction\<lparr>x_from := Some 6\<rparr>)\<rparr>"

text \<open>C25: looking for a thread of the target that already waits on the sender ends on every stack that ends, and finds the
  right one: the thread of the target process whose call is innermost on the sender's stack, or none exactly when no call
  on the stack came from the target.\<close>

theorem target_thread_found:
  assumes "threads s t = Some T" and "stack_chain s (t_transaction_stack T) xs"
  shows "\<exists>r. binder_target_thread_for t tp s = Some r \<and>
    (case r of
       None \<Rightarrow> \<forall>x f. x \<in> set xs \<longrightarrow> \<not> sent_from s tp x f
     | Some f \<Rightarrow> \<exists>pre x post. xs = pre @ x # post \<and> sent_from s tp x f \<and> (\<forall>y g. y \<in> set pre \<longrightarrow> \<not> sent_from s tp y g))"
  using target_thread_loop_chain [OF assms(2), of tp] assms(1) by (simp add: binder_target_thread_for_def)

theorem target_thread_found_witness:
  "\<exists>r. binder_target_thread_for 5 2 stack_example = Some r \<and> r = Some 6"
proof -
  have c: "stack_chain stack_example (Some 9) [9, 8]" "threads stack_example 5 = Some (new_thread\<lparr>t_transaction_stack := Some 9\<rparr>)"
    by (simp_all add: stack_example_def new_transaction_def)
  have f: "\<not> sent_from stack_example 2 9 f" "sent_from stack_example 2 8 f \<longleftrightarrow> f = 6" for f
    by (auto simp: sent_from_def stack_example_def new_transaction_def new_thread_def)
  show ?thesis
    using target_thread_found [OF c(2), of "[9, 8]" 2] c(1) f
    by (auto simp: new_thread_def append_eq_Cons_conv Cons_eq_append_conv split: option.splits)
qed

end
