(* ===== verification/Binder_Objects.thy ===== *)
theory Binder_Objects
  imports Binder_Teardown Binder_Parcel
begin

text \<open>
  Objects in transit (\<^verbatim>\<open>binder_node_new\<close> of \<^verbatim>\<open>kext/binder_node.c\<close>; \<^verbatim>\<open>binder_translate_binder\<close> and \<^verbatim>\<open>binder_translate_handle\<close> of
  \<^verbatim>\<open>kext/binder_txn.c\<close>): creating an object,
  and what becomes of an object or a handle inside a parcel. The lemmas show that the invariant of
  the reference graph is kept and that the object a receiver can reach through
  a translated parcel is the one the sender named.
\<close>

section \<open>A new object\<close>

lemma node_find_loop_spec:
  assumes "\<And>n. n \<in> set ns \<Longrightarrow> nodes s n \<noteq> None"
  shows "\<exists>found. node_find_loop ptr ns s = Some found \<and>
    (case found of
       None \<Rightarrow> \<forall>n N. n \<in> set ns \<longrightarrow> nodes s n = Some N \<longrightarrow> n_ptr N \<noteq> ptr
     | Some n \<Rightarrow> n \<in> set ns \<and> (\<exists>N. nodes s n = Some N \<and> n_ptr N = ptr))"
  using assms
proof (induction ns)
  case (Cons n ns)
  then obtain N where N: "nodes s n = Some N" by (metis list.set_intros(1) not_None_eq)
  show ?case
  proof (cases "n_ptr N = ptr")
    case False
    with Cons N show ?thesis by (fastforce split: option.splits)
  qed (use N in auto)
qed simp

lemma proc_nodes_exist:
  assumes "graph_off d s" and "procs s p = Some P"
  shows "n \<in> set (p_nodes P) \<longleftrightarrow> (\<exists>N. nodes s n = Some N \<and> n_proc N = Some p)"
  using graph_offD(1) [OF assms] by (auto simp: proc_graph_ok_def owner_of_def bind_eq_Some_conv)

lemma node_find_spec:
  assumes g: "graph_off d s" and P: "procs s p = Some P"
  shows "\<exists>found. binder_node_find p ptr s = Some found \<and>
    (case found of None \<Rightarrow> \<forall>n N. nodes s n = Some N \<longrightarrow> n_proc N = Some p \<longrightarrow> n_ptr N \<noteq> ptr
     | Some n \<Rightarrow> \<exists>N. nodes s n = Some N \<and> n_proc N = Some p \<and> n_ptr N = ptr)"
proof -
  note e = proc_nodes_exist [OF g P]
  obtain found where f: "node_find_loop ptr (p_nodes P) s = Some found"
      "case found of None \<Rightarrow> \<forall>n N. n \<in> set (p_nodes P) \<longrightarrow> nodes s n = Some N \<longrightarrow> n_ptr N \<noteq> ptr
       | Some n \<Rightarrow> n \<in> set (p_nodes P) \<and> (\<exists>N. nodes s n = Some N \<and> n_ptr N = ptr)"
    using node_find_loop_spec [of "p_nodes P" s ptr] e by fastforce
  then show ?thesis using P e by (cases found) (auto simp: binder_node_find_def)
qed

lemma graph_off_add_node:
  assumes g: "graph_off d s" and n: "nodes s n = None" and d: "d n = 0" and P: "procs s p = Some P"
    and N: "n_proc N = Some p" "n_refs N = []" "n_internal_strong_refs N = 0"
      "0 \<le> n_local_strong_refs N" "0 \<le> n_local_weak_refs N"
    and s': "procs s' = (procs s)(p \<mapsto> p_nodes_update (\<lambda>ns. n # ns) P)"
      "nodes s' = (nodes s)(n \<mapsto> N)" "refs s' = refs s"
  shows "graph_off d s'"
proof -
  have own: "owner_of s' m = (if m = n then Some p else owner_of s m)" "owner_of s n = None" for m
    using N n by (auto simp: owner_of_def s')
  have eq: "holder_of s' = holder_of s" "target_of s' = target_of s" "holds_strong s' = holds_strong s"
    by (auto simp: holder_of_def target_of_def holds_strong_def fun_eq_iff s')
  have dom: "procs s' q = None \<longleftrightarrow> procs s q = None" for q using P by (auto simp: s')
  have nt: "target_of s r \<noteq> Some n" for r
    using graph_offD(3) [OF g, of r] n by (auto simp: target_of_def ref_graph_ok_def bind_eq_Some_conv)
  show ?thesis
    unfolding graph_off_def
  proof (intro conjI allI impI)
    fix q Q assume Q: "procs s' q = Some Q"
    show "proc_graph_ok s' q Q"
    proof (cases "q = p")
      case True
      then show ?thesis using Q graph_offD(1) [OF g P] own(2) by (auto simp: proc_graph_ok_def own(1) eq s')
    next
      case False
      then show ?thesis using Q graph_offD(1) [OF g, of q Q] own(2) by (auto simp: proc_graph_ok_def own(1) eq s')
    qed
  next
    fix m M assume M: "nodes s' m = Some M"
    show "node_graph_ok s' (d m) m M"
    proof (cases "m = n")
      case True
      then show ?thesis using M N P d nt by (auto simp: node_graph_ok_def eq s')
    next
      case False
      then show ?thesis using M graph_offD(2) [OF g, of m M] by (auto simp: node_graph_ok_def eq dom s'(2))
    qed
  next
    fix r R assume "refs s' r = Some R"
    then have R: "refs s r = Some R" by (simp add: s')
    show "ref_graph_ok s' R"
      by (rule ref_graph_ok_dom [OF graph_offD(3) [OF g R]]) (simp_all add: dom s'(2) split: if_splits)
  qed
qed

lemma add_node_work:
  assumes q: "queues_ok s" "async_ok s" and n: "nodes s n = None" and P: "procs s p = Some P"
    and N: "w_queue (n_work N) = None" "n_async_todo N = []"
    and s': "procs s' = (procs s)(p \<mapsto> p_nodes_update f P)" "nodes s' = (nodes s)(n \<mapsto> N)"
      "threads s' = threads s" "deaths s' = deaths s" "txns s' = txns s" "completes s' = completes s"
  shows "queues_ok s'" "async_ok s'"
proof -
  have pl: "place s' = (place s)(NodeWork n := Some None)"
  proof
    fix w show "place s' w = ((place s)(NodeWork n := Some None)) w"
      using N by (cases w) (auto simp: place_def get_work_def s')
  qed
  have it: "items s' = (items s)(AsyncTodo n := Some [])"
  proof
    fix h show "items s' h = ((items s)(AsyncTodo n := Some [])) h"
      using N P by (cases h) (auto simp: items_def get_queue_def s')
  qed
  have "items s (AsyncTodo n) = None" "place s (NodeWork n) = None"
    using n by (simp_all add: items_def get_queue_def place_def get_work_def)
  then have "held (items s') h = held (items s) h" "place s' w = Some (Some h) \<longleftrightarrow> place s w = Some (Some h)" for h w
    unfolding it pl by (auto simp: held_def)
  then show "queues_ok s'" by (intro queues_ok_same_held [OF q(1)]) (auto simp: it split: if_splits)
  have "get_buffer q b s' = get_buffer q b s" for q b using P by (simp add: get_buffer_def s')
  then have item: "async_item_ok s' w = async_item_ok s w" for w by (simp add: async_item_ok_def s')
  show "async_ok s'"
    unfolding async_ok_def
  proof (intro allI impI)
    fix m ws w assume a: "items s' (AsyncTodo m) = Some ws" "w \<in> set ws"
    then have "items s (AsyncTodo m) = Some ws" unfolding it by (auto split: if_splits)
    then show "async_item_ok s' w" using q(2) a(2) item by (simp add: async_ok_def)
  qed
qed

section \<open>Operations on objects leave the parcels alone\<close>

definition parcels :: "binder_state \<Rightarrow> addr \<Rightarrow> (addr \<times> byte list option) list option" where
  "parcels s p = map_option (\<lambda>P. map (\<lambda>B. (b_id B, b_kdata B)) (p_buffers P)) (procs s p)"

lemma find_parcel:
  "map (\<lambda>B. (b_id B, b_kdata B)) bs' = map (\<lambda>B. (b_id B, b_kdata B)) bs \<Longrightarrow>
    Option.bind (find (\<lambda>B. b_id B = b) bs') b_kdata = Option.bind (find (\<lambda>B. b_id B = b) bs) b_kdata"
  by (induction bs' arbitrary: bs) (auto simp: Cons_eq_map_conv)

lemma get_kdata_parcels:
  assumes "parcels s' = parcels s"
  shows "get_kdata p b s' = get_kdata p b s"
proof -
  have e: "parcels s' p = parcels s p" using assms by simp
  show ?thesis
  proof (cases "procs s p")
    case None
    then show ?thesis using e by (simp add: parcels_def get_kdata_def get_buffer_def)
  next
    case (Some P)
    then obtain P' where "procs s' p = Some P'"
        "map (\<lambda>B. (b_id B, b_kdata B)) (p_buffers P') = map (\<lambda>B. (b_id B, b_kdata B)) (p_buffers P)"
      using e by (auto simp: parcels_def)
    then show ?thesis using Some find_parcel [of "p_buffers P'" "p_buffers P" b]
      by (simp add: get_kdata_def get_buffer_def)
  qed
qed

lemma parcels_procs [simp]:
  "procs s p = Some P \<Longrightarrow> p_buffers P' = p_buffers P \<Longrightarrow> parcels (s\<lparr>procs := (procs s)(p \<mapsto> P')\<rparr>) = parcels s"
  by (auto simp: parcels_def fun_eq_iff)

lemma parcels_frame [simp]:
  "parcels (s\<lparr>nodes := a\<rparr>) = parcels s" "parcels (s\<lparr>refs := b\<rparr>) = parcels s" "parcels (s\<lparr>deaths := c\<rparr>) = parcels s"
  "parcels (s\<lparr>contexts := e\<rparr>) = parcels s" "parcels (s\<lparr>stat_nodes := i\<rparr>) = parcels s"
  "parcels (s\<lparr>stat_refs := i\<rparr>) = parcels s" "parcels (s\<lparr>clock := k\<rparr>) = parcels s"
  by (simp_all add: parcels_def fun_eq_iff)

lemma parcels_core:
  assumes "core s' = core s"
  shows "parcels s' = parcels s"
proof
  fix p
  have "map_option (\<lambda>P. map (\<lambda>B. (b_id B, b_kdata B)) (p_buffers (proc_core P))) (procs s' p) =
      map_option (\<lambda>P. map (\<lambda>B. (b_id B, b_kdata B)) (p_buffers (proc_core P))) (procs s p)"
    using core_fields(4) [OF assms, of p] by (cases "procs s p"; cases "procs s' p") simp_all
  then show "parcels s' p = parcels s p" by (simp add: parcels_def proc_core_def comp_def)
qed

lemma parcels_unlink [simp]: "parcels (unlink_node n N s) = parcels s"
  by (auto simp: parcels_def fun_eq_iff unlink_node_frame option.map_comp comp_def split: option.split)

lemma parcels_update_refs:
  assumes inv: "refs_inv d s" and op: "binder_node_update_refs n st inc itn th s = Some (e, s')"
    and th: "\<And>t. th = Some t \<Longrightarrow> threads s t \<noteq> None"
  shows "parcels s' = parcels s"
proof -
  obtain N N' where N: "nodes s n = Some N" "count_refs st inc itn N = Some (e, N')"
    using op by (auto simp: binder_node_update_refs_def bind_eq_Some_conv split: if_splits)
  have "s' = s \<or> core s' = core (s\<lparr>nodes := (nodes s)(n \<mapsto> N')\<rparr>) \<or>
      core s' = core (unlink_node n N' (s\<lparr>nodes := (nodes s)(n \<mapsto> N')\<rparr>))"
    using update_refs_ok [where th = th, OF inv N(1) th N(2)] op by (auto split: if_splits)
  then consider "s' = s" | "core s' = core (s\<lparr>nodes := (nodes s)(n \<mapsto> N')\<rparr>)"
    | "core s' = core (unlink_node n N' (s\<lparr>nodes := (nodes s)(n \<mapsto> N')\<rparr>))" by blast
  then show ?thesis
  proof cases
    case 1
    then show ?thesis by simp
  next
    case 2
    from parcels_core [OF this] show ?thesis by simp
  next
    case 3
    from parcels_core [OF this] show ?thesis by simp
  qed
qed

lemma parcels_increment:
  assumes inv: "refs_inv d s" and op: "binder_ref_update r strong True th s = Some (e, s')"
    and R: "refs s r = Some R" "0 \<le> r_strong R" "0 \<le> r_weak R"
    and th: "\<And>t. th = Some t \<Longrightarrow> threads s t \<noteq> None"
  shows "parcels s' = parcels s"
proof (cases "strong \<and> r_strong R = 0")
  case True
  then obtain n e1 s1 where n: "r_node R = Some n" "binder_node_update_refs n True True True th s = Some (e1, s1)"
    using op R by (auto simp: binder_ref_update_def bind_eq_Some_conv)
  have p: "parcels s1 = parcels s" by (rule parcels_update_refs [OF inv n(2) th])
  obtain R1 where "e1 \<noteq> OK \<and> s' = s1 \<or> e1 = OK \<and> refs s1 r = Some R1 \<and>
      s' = s1\<lparr>refs := (refs s1)(r \<mapsto> R1\<lparr>r_strong := 1\<rparr>)\<rparr>"
    using op R True n by (auto simp: binder_ref_update_def upd_ref_def int_inc_def bind_eq_Some_conv split: if_splits)
  then show ?thesis using p by auto
next
  case False
  then show ?thesis
    using op R by (auto simp: binder_ref_update_def upd_ref_def int_inc_def bind_eq_Some_conv split: if_splits)
qed

lemma get_for_node_frame:
  assumes op: "binder_ref_get_for_node K p n s = Some (found, s')"
  shows "parcels s' = parcels s" "map_option node_id (nodes s' m) = map_option node_id (nodes s m)"
    "contexts s' = contexts s"
  using op
  by (auto simp: binder_ref_get_for_node_def binder_alloc_mem_def binder_next_debug_id_def upd_proc_def upd_node_def
      node_id_def parcels_def fun_eq_iff Let_def bind_eq_Some_conv split: if_splits option.splits)

text \<open>What a new object adds.\<close>

definition node_for ::
    "addr \<Rightarrow> u64 \<Rightarrow> u64 \<Rightarrow> u32 \<Rightarrow> binder_state \<Rightarrow> addr \<Rightarrow> binder_node \<Rightarrow> binder_state \<Rightarrow> bool" where
  "node_for p ptr cookie flags s n N s' \<longleftrightarrow>
     nodes s' n = Some N \<and> n_proc N = Some p \<and> n_ptr N = ptr \<and>
     (s' = s \<or>
      nodes s n = None \<and> nodes s' = (nodes s)(n \<mapsto> N) \<and> n_cookie N = cookie \<and> n_flags N = flags \<and>
      \<not> n_is_dead N \<and> n_refs N = [] \<and> n_local_strong_refs N = 0 \<and> n_local_weak_refs N = 0 \<and>
      (\<forall>m M. nodes s m = Some M \<longrightarrow> n_proc M = Some p \<longrightarrow> n_ptr M \<noteq> ptr))"

lemma new_node_inv:
  assumes inv: "driver_inv s" and P: "procs s p = Some P"
    and N: "n_proc N = Some p" "n_refs N = []" "n_internal_strong_refs N = 0" "n_local_strong_refs N = 0"
      "n_local_weak_refs N = 0" "w_queue (n_work N) = None" "n_async_todo N = []"
    and s': "procs s' = (procs s)(p \<mapsto> p_nodes_update (\<lambda>ns. clock s # ns) P)"
      "nodes s' = (nodes s)(clock s \<mapsto> N)" "refs s' = refs s" "clock s' = Suc (clock s)" "contexts s' = contexts s"
      "threads s' = threads s" "deaths s' = deaths s" "txns s' = txns s" "completes s' = completes s"
  shows "driver_inv s'" "actors s' = actors s"
proof -
  note D = driver_invD [OF inv]
  note i = refs_invD [OF D(1)]
  have n: "nodes s (clock s) = None" using D(4) by (simp add: fresh_def)
  show act: "actors s' = actors s" using P by (auto simp: actors_def fun_eq_iff s')
  have "graph_off (\<lambda>_. 0) s'"
    by (rule graph_off_add_node [OF i(1) n refl P N(1-3) _ _ s'(1-3)]) (simp_all add: N)
  moreover have "queues_ok s'" "async_ok s'" using add_node_work [OF i(2,3) n P N(6,7) s'(1,2,6-9)] by auto
  moreover have "deaths_ok s'" by (rule deaths_ok_frame [OF i(4) s'(3,7)])
  moreover have "mgr_ok s'"
  proof -
    have "owner_of s' m = Some q" if "owner_of s m = Some q" for m q
      using that n by (auto simp: owner_of_def s' bind_eq_Some_conv)
    then show ?thesis
      using D(2) context_of_actors [OF act] unfolding mgr_ok_def s'(5) by metis
  qed
  moreover have "handles_ok s'" using D(3) unfolding handles_ok_def s'(3) .
  moreover have "fresh s'" using D(4) by (auto simp: fresh_def s')
  ultimately show "driver_inv s'" by (simp add: driver_inv_def refs_inv_def)
qed

lemma node_new_ok:
  assumes inv: "driver_inv s" and P: "procs s p = Some P"
  shows "\<exists>found s'. binder_node_new K p ptr cookie flags s = Some (found, s') \<and> driver_inv s' \<and>
    actors s' = actors s \<and> refs s' = refs s \<and> contexts s' = contexts s \<and> parcels s' = parcels s \<and>
    (\<forall>q. map_option p_refs (procs s' q) = map_option p_refs (procs s q)) \<and>
    (case found of
       None \<Rightarrow> s' = s\<lparr>clock := Suc (clock s)\<rparr>
     | Some n \<Rightarrow> \<exists>N. node_for p ptr cookie flags s n N s')"
proof -
  obtain found where f: "binder_node_find p ptr s = Some found"
      "case found of None \<Rightarrow> \<forall>n N. nodes s n = Some N \<longrightarrow> n_proc N = Some p \<longrightarrow> n_ptr N \<noteq> ptr
       | Some n \<Rightarrow> \<exists>N. nodes s n = Some N \<and> n_proc N = Some p \<and> n_ptr N = ptr"
    using node_find_spec [OF refs_invD(1) [OF driver_invD(1) [OF inv]] P] by blast
  consider n where "found = Some n" | "found = None" "\<not> osmalloc K (clock s) (Sizeof ''binder_node'')"
    | "found = None" "osmalloc K (clock s) (Sizeof ''binder_node'')" by (cases found) auto
  then show ?thesis
  proof cases
    case (1 n)
    then show ?thesis using inv f by (auto simp: binder_node_new_def node_for_def)
  next
    case 2
    then show ?thesis using f driver_inv_clock [OF inv] by (simp add: binder_node_new_def binder_alloc_mem_def)
  next
    case 3
    let ?N = "new_node\<lparr>n_proc := Some p, n_ptr := ptr, n_cookie := cookie, n_flags := flags,
        n_accept_fds := (flags AND FLAT_BINDER_FLAG_ACCEPTS_FDS \<noteq> 0),
        n_work := new_work\<lparr>w_type := BINDER_WORK_NODE\<rparr>, n_debug_id := last_debug_id s + 1\<rparr>"
    obtain s' where s': "binder_node_new K p ptr cookie flags s = Some (Some (clock s), s')"
        "procs s' = (procs s)(p \<mapsto> p_nodes_update (\<lambda>ns. clock s # ns) P)" "nodes s' = (nodes s)(clock s \<mapsto> ?N)"
        "refs s' = refs s" "clock s' = Suc (clock s)" "contexts s' = contexts s" "threads s' = threads s"
        "deaths s' = deaths s" "txns s' = txns s" "completes s' = completes s"
      using 3 f P by (simp add: binder_node_new_def binder_alloc_mem_def binder_next_debug_id_def upd_proc_def Let_def)
    have N: "n_proc ?N = Some p" "n_refs ?N = []" "n_internal_strong_refs ?N = 0" "n_local_strong_refs ?N = 0"
      "n_local_weak_refs ?N = 0" "w_queue (n_work ?N) = None" "n_async_todo ?N = []"
      by (simp_all add: new_node_def new_work_def)
    note inv' = new_node_inv [OF inv P N s'(2-10)]
    have "node_for p ptr cookie flags s (clock s) ?N s'"
      using f(2) 3 s'(3) driver_invD(4) [OF inv] by (simp add: node_for_def fresh_def new_node_def)
    moreover have "parcels s' = parcels s" "\<forall>q. map_option p_refs (procs s' q) = map_option p_refs (procs s q)"
      using P by (auto simp: parcels_def fun_eq_iff s'(2))
    ultimately show ?thesis using s'(1,4,6) inv' by auto
  qed
qed

section \<open>Writing into a parcel\<close>

lemma graph_off_procs:
  assumes g: "graph_off d s" and s': "nodes s' = nodes s" "refs s' = refs s"
    and pr: "\<And>q. map_option (\<lambda>P. (p_nodes P, p_refs P)) (procs s' q) = map_option (\<lambda>P. (p_nodes P, p_refs P)) (procs s q)"
  shows "graph_off d s'"
proof -
  have eq: "owner_of s' = owner_of s" "holder_of s' = holder_of s" "target_of s' = target_of s"
    "holds_strong s' = holds_strong s"
    by (auto simp: owner_of_def holder_of_def target_of_def holds_strong_def fun_eq_iff s')
  have dom: "procs s' q = None \<longleftrightarrow> procs s q = None" for q
    using pr [of q] by (cases "procs s q"; cases "procs s' q") simp_all
  show ?thesis
    unfolding graph_off_def
  proof (intro conjI allI impI)
    fix q Q assume Q: "procs s' q = Some Q"
    then obtain Q0 where Q0: "procs s q = Some Q0" "p_nodes Q = p_nodes Q0" "p_refs Q = p_refs Q0"
      using pr [of q] by (cases "procs s q") auto
    then show "proc_graph_ok s' q Q" using graph_offD(1) [OF g Q0(1)] by (simp add: proc_graph_ok_def eq)
  next
    fix m M assume "nodes s' m = Some M"
    then show "node_graph_ok s' (d m) m M"
      using graph_offD(2) [OF g, of m M] by (simp add: node_graph_ok_def eq dom s')
  next
    fix r R assume "refs s' r = Some R"
    then show "ref_graph_ok s' R" using graph_offD(3) [OF g, of r R] by (simp add: ref_graph_ok_def dom s')
  qed
qed

lemma driver_inv_buffers:
  assumes inv: "driver_inv s" and P: "procs s p = Some P" and f: "\<And>B. b_id (f B) = b_id B"
    and s': "s' = s\<lparr>procs := (procs s)(p \<mapsto> p_buffers_update (map f) P)\<rparr>"
  shows "driver_inv s'"
proof -
  note D = driver_invD [OF inv]
  note i = refs_invD [OF D(1)]
  have fr: "nodes s' = nodes s" "refs s' = refs s" "contexts s' = contexts s" "deaths s' = deaths s"
    "txns s' = txns s" "threads s' = threads s" "completes s' = completes s" "clock s' = clock s" by (simp_all add: s')
  have "graph_off (\<lambda>_. 0) s'" by (rule graph_off_procs [OF i(1) fr(1,2)]) (simp add: s' P)
  moreover have w: "items s' = items s" "place s' = place s"
  proof -
    show "items s' = items s"
    proof
      fix h show "items s' h = items s h" using P by (cases h) (auto simp: items_def get_queue_def s')
    qed
    show "place s' = place s"
    proof
      fix w show "place s' w = place s w" using P by (cases w) (auto simp: place_def get_work_def s')
    qed
  qed
  have "get_buffer q b s' = None \<longleftrightarrow> get_buffer q b s = None" for q b
    using P f by (auto simp: get_buffer_None s' image_iff)
  from work_frame [OF w fr(5) this i(2,3)] have "queues_ok s'" "async_ok s'" by auto
  moreover have "deaths_ok s'" by (rule deaths_ok_frame [OF i(4) fr(2,4)])
  moreover have "actors s' = actors s" using P by (auto simp: s' actors_def fun_eq_iff)
  then have "mgr_ok s'" by (rule mgr_ok_frame [OF D(2) fr(3)]) (simp add: owner_of_def fr)
  moreover have "handles_ok s'" using D(3) unfolding handles_ok_def fr(2) .
  moreover have "fresh s'" using D(4) by (simp add: fresh_def fr)
  ultimately show ?thesis by (simp add: driver_inv_def refs_inv_def)
qed

lemma put_kdata_ok:
  assumes inv: "driver_inv s" and kd: "get_kdata p b s = Some kd"
  shows "\<exists>s'. put_kdata p b kd' s = Some s' \<and> driver_inv s' \<and> get_kdata p b s' = Some kd' \<and>
    nodes s' = nodes s \<and> refs s' = refs s \<and> contexts s' = contexts s \<and>
    (\<forall>q. map_option p_refs (procs s' q) = map_option p_refs (procs s q))"
proof -
  obtain B where B: "get_buffer p b s = Some B" using kd by (auto simp: get_kdata_def bind_eq_Some_conv)
  obtain P where P: "procs s p = Some P" using B by (auto simp: get_buffer_def bind_eq_Some_conv)
  let ?f = "b_kdata_update (\<lambda>_. Some kd')"
  obtain s' where s': "upd_buffer p b ?f s = Some s'" "get_buffer p b s' = Some (?f B)"
    using get_buffer_upd [OF B, of ?f] by auto
  have e: "s' = s\<lparr>procs := (procs s)(p \<mapsto> p_buffers_update (map (\<lambda>B. if b_id B = b then ?f B else B)) P)\<rparr>"
    using s'(1) B P by (simp add: upd_buffer_def upd_proc_def)
  have "driver_inv s'" by (rule driver_inv_buffers [OF inv P _ e]) simp
  then show ?thesis using s' P by (auto simp: put_kdata_def get_kdata_def e)
qed

lemma put_bytes_take: "a \<le> off \<Longrightarrow> off + length xs \<le> length bs \<Longrightarrow> take a (put_bytes off xs bs) = take a bs"
  by (simp add: put_bytes_def min_def)

lemma put_bytes_drop: "off + length xs \<le> z \<Longrightarrow> z \<le> length bs \<Longrightarrow> drop z (put_bytes off xs bs) = drop z bs"
  by (simp add: put_bytes_def)

lemma put_zero_high: "off + 8 \<le> length bs \<Longrightarrow> get_u32 (off + 4) (put_u64 off 0 bs) = 0"
proof -
  assume "off + 8 \<le> length bs"
  then have "get_bytes (off + 4) 4 (put_u64 off 0 bs) = replicate 4 0"
    by (simp add: get_bytes_def put_u64_def put_bytes_def numeral_eq_Suc)
  then show ?thesis by (simp add: get_u32_def numeral_eq_Suc)
qed

text \<open>The four stores that turn an object into a handle.\<close>

definition as_handle :: "nat \<Rightarrow> u32 \<Rightarrow> u32 \<Rightarrow> byte list \<Rightarrow> byte list" where
  "as_handle fp type desc kd =
     put_u64 (fp + o_cookie) 0 (put_u32 (fp + o_handle) desc (put_u64 (fp + o_binder) 0 (put_u32 (fp + o_type) type kd)))"

lemma as_handle_bytes:
  assumes "fp + 24 \<le> length kd"
  shows "length (as_handle fp type desc kd) = length kd" "get_u32 fp (as_handle fp type desc kd) = type"
    "get_u32 (fp + 8) (as_handle fp type desc kd) = desc" "get_u32 (fp + 12) (as_handle fp type desc kd) = 0"
    "get_u64 (fp + 16) (as_handle fp type desc kd) = 0"
    "get_u32 (fp + 4) (as_handle fp type desc kd) = get_u32 (fp + 4) kd"
    "take fp (as_handle fp type desc kd) = take fp kd" "drop (fp + 24) (as_handle fp type desc kd) = drop (fp + 24) kd"
proof -
  have "get_u32 (fp + 8 + 4) (put_u64 (fp + 8) 0 (put_u32 fp type kd)) = 0"
    by (rule put_zero_high) (use assms in simp)
  then show "get_u32 (fp + 12) (as_handle fp type desc kd) = 0" using assms by (simp add: as_handle_def add.commute)
qed (use assms in \<open>simp_all add: as_handle_def\<close>,
    use assms in \<open>simp_all add: put_u64_def put_u32_def put_bytes_take put_bytes_drop\<close>)

lemma as_handle_writes:
  assumes "fp + 24 \<le> length kd"
  shows "do { kd \<leftarrow> wr_u32 (fp + o_type) type kd; kd \<leftarrow> wr_u64 (fp + o_binder) 0 kd;
      kd \<leftarrow> wr_u32 (fp + o_handle) desc kd; kd \<leftarrow> wr_u64 (fp + o_cookie) 0 kd; f kd } = f (as_handle fp type desc kd)"
  using assms by (simp add: as_handle_def wr_u32_def wr_u64_def wr_bytes_def put_u32_def put_u64_def)

section \<open>Granting a handle\<close>

lemma grant_ok:
  assumes inv: "driver_inv s" and TP: "procs s tp = Some TP" "length (p_refs TP) < 2 ^ 32 - 1"
    and N: "nodes s n = Some N" and t: "threads s t \<noteq> None" and ub: "counts_below s"
    and get: "binder_ref_get_for_node K tp n s = Some (Some r, s1)"
  shows "\<exists>s2 R N2. binder_ref_update r strong True (Some t) s1 = Some (OK, s2) \<and> driver_inv s2 \<and>
    parcels s2 = parcels s \<and> refs s2 r = Some R \<and> r_proc R = tp \<and> r_node R = Some n \<and>
    nodes s2 n = Some N2 \<and> node_id N2 = node_id N \<and> (if strong then 0 < r_strong R else 0 < r_weak R)"
proof -
  obtain R where h: "driver_inv s1" "actors s1 = actors s" "handle_for tp n s r R s1"
      "\<forall>m. map_option n_internal_strong_refs (nodes s1 m) = map_option n_internal_strong_refs (nodes s m)"
    using get_for_node_inv [OF inv TP(1) N TP(2), of K] get by auto
  note fr = get_for_node_frame [OF get]
  have R: "refs s1 r = Some R" "r_proc R = tp" "r_node R = Some n" using h(3) by (auto simp: handle_for_def)
  obtain N1 where N1: "nodes s1 n = Some N1" "node_id N1 = node_id N" using fr(2) [of n] N by auto
  have small: "r_strong R < int_max" "r_weak R < int_max"
    using h(3) ub by (auto simp: handle_for_def counts_below_def int_max_def)
  have "n_internal_strong_refs N1 = n_internal_strong_refs N" using h(4) N N1 by (metis option.inject option.map(2))
  then have small': "n_internal_strong_refs N1 < int_max" using ub N by (simp add: counts_below_def)
  have t1: "threads s1 t \<noteq> None" using actors_thread [OF h(2) t] .
  note d = refs_invD [OF driver_invD(1) [OF h(1)]]
  have pos: "0 \<le> r_strong R" "0 \<le> r_weak R" using graph_offD(3) [OF d(1) R(1)] by (simp_all add: ref_graph_ok_def)
  have upd: "\<exists>e s2. binder_ref_update r strong True (Some t) s1 = Some (e, s2) \<and> refs_inv (\<lambda>_. 0) s2 \<and> shrinks s1 s2 \<and>
      (if \<not> True \<and> (if strong then r_strong R else r_weak R) = 0 then e = EINVAL \<and> s2 = s1
       else e = OK \<and> refs s2 = (refs s1)(r := ref_after strong True R))"
    by (rule ref_update_ok [OF driver_invD(1) [OF h(1)] R(1)]) (use small small' R(3) N1(1) t1 in auto)
  obtain s2 where s2: "binder_ref_update r strong True (Some t) s1 = Some (OK, s2)" "refs_inv (\<lambda>_. 0) s2"
      "shrinks s1 s2" "refs s2 = (refs s1)(r := ref_after strong True R)"
    using upd by auto
  let ?R = "if strong then R\<lparr>r_strong := r_strong R + 1\<rparr> else R\<lparr>r_weak := r_weak R + 1\<rparr>"
  have r2: "refs s2 r = Some ?R" using s2(4) pos by (auto simp: ref_after_def Let_def)
  have R2: "r_proc ?R = tp" "r_node ?R = Some n" using R by simp_all
  obtain N2 where N2: "nodes s2 n = Some N2"
    using graph_offD(3) [OF refs_invD(1) [OF s2(2)] r2] R2(2) by (auto simp: ref_graph_ok_def)
  have "node_id N2 = node_id N" using shrinksD(5) [OF s2(3) N2] N1 by auto
  moreover have "parcels s2 = parcels s"
    using parcels_increment [OF driver_invD(1) [OF h(1)] s2(1) R(1) pos] t1 fr(1) by simp
  ultimately show ?thesis
    using s2(1) driver_inv_shrinks [OF h(1) s2(3,2)] r2 R2 N2 pos by (intro exI conjI) (assumption+, auto)
qed

section \<open>An object leaves its owner\<close>

lemma sender_node_eq:
  "do { found \<leftarrow> binder_node_find p ptr s;
        (node, s) \<leftarrow> (case found of Some n \<Rightarrow> Some (Some n, s) | None \<Rightarrow> binder_node_new K p ptr cookie flags s);
        f node s } = do { (node, s) \<leftarrow> binder_node_new K p ptr cookie flags s; f node s }"
  by (cases "binder_node_find p ptr s") (auto simp: binder_node_new_def split: option.split)

text \<open>The last part of \<open>binder_translate_binder\<close>: count the handle and put it in the object's place.\<close>

definition hand_over :: "addr \<Rightarrow> nat \<Rightarrow> byte list \<Rightarrow> addr \<Rightarrow> addr \<Rightarrow> addr \<Rightarrow> binder_state \<Rightarrow> (errno \<times> binder_state) option" where
  "hand_over b fp kd t tp r s = do {
     (e, s) \<leftarrow> binder_ref_update r (get_u32 fp kd = BINDER_TYPE_BINDER) True (Some t) s;
     if e \<noteq> OK then Some (e, s)
     else do {
       R \<leftarrow> refs s r;
       kd' \<leftarrow> get_kdata tp b s;
       kd' \<leftarrow> wr_u32 (fp + o_type) (if get_u32 fp kd = BINDER_TYPE_BINDER then BINDER_TYPE_HANDLE
         else BINDER_TYPE_WEAK_HANDLE) kd';
       kd' \<leftarrow> wr_u64 (fp + o_binder) 0 kd';
       kd' \<leftarrow> wr_u32 (fp + o_handle) (r_desc R) kd';
       kd' \<leftarrow> wr_u64 (fp + o_cookie) 0 kd';
       s \<leftarrow> put_kdata tp b kd' s;
       Some (OK, s) } }"

lemma translate_binder_eq:
  assumes kd: "get_kdata tp b s = Some kd" and len: "fp + 24 \<le> length kd"
  shows "binder_translate_binder K b fp p t tp s = do {
     (node, s) \<leftarrow> binder_node_new K p (get_u64 (fp + 8) kd) (get_u64 (fp + 16) kd) (get_u32 (fp + 4) kd) s;
     (case node of
        None \<Rightarrow> Some (ENOMEM, s)
      | Some n \<Rightarrow> do {
          N \<leftarrow> nodes s n;
          if get_u64 (fp + 16) kd \<noteq> n_cookie N then Some (EINVAL, s)
          else do {
            (ref, s) \<leftarrow> binder_ref_get_for_node K tp n s;
            (case ref of
               None \<Rightarrow> Some (ENOMEM, s)
             | Some r \<Rightarrow> hand_over b fp kd t tp r s) } }) }"
  using len unfolding hand_over_def by (simp add: binder_translate_binder_def kd rd_u32_def rd_u64_def sender_node_eq)

lemma node_for_counts:
  assumes "counts_below s" and "node_for p ptr cookie flags s n N s'" and "refs s' = refs s" and "driver_inv s'"
  shows "counts_below s'"
proof -
  have "n_internal_strong_refs N = 0" if "n_refs N = []"
    using graph_offD(2) [OF refs_invD(1) [OF driver_invD(1) [OF assms(4)]], of n N] assms(2) that
    by (simp add: node_for_def node_graph_ok_def)
  then show ?thesis
    using assms(1-3) by (auto simp: node_for_def counts_below_def int_max_def split: if_splits)
qed

lemma node_new_memory:
  "binder_node_new K p ptr cookie flags s = Some (None, s') \<Longrightarrow> \<exists>c z. \<not> osmalloc K c z"
  by (auto simp: binder_node_new_def binder_alloc_mem_def binder_next_debug_id_def Let_def bind_eq_Some_conv
      split: option.splits if_splits)

lemma get_for_node_memory:
  "binder_ref_get_for_node K p n s = Some (None, s') \<Longrightarrow> \<exists>c z. \<not> osmalloc K c z"
  by (auto simp: binder_ref_get_for_node_def binder_alloc_mem_def binder_next_debug_id_def Let_def bind_eq_Some_conv
      split: option.splits if_splits)

text \<open>What the receiver finds at an object's place after the translation.\<close>

definition arrived_as_handle ::
    "addr \<Rightarrow> addr \<Rightarrow> nat \<Rightarrow> byte list \<Rightarrow> addr \<Rightarrow> binder_state \<Rightarrow> bool" where
  "arrived_as_handle p b fp kd tp s \<longleftrightarrow> (\<exists>kd' n N r R.
     get_kdata tp b s = Some kd' \<and>
     nodes s n = Some N \<and> n_proc N = Some p \<and> n_ptr N = get_u64 (fp + 8) kd \<and> n_cookie N = get_u64 (fp + 16) kd \<and>
     refs s r = Some R \<and> r_proc R = tp \<and> r_node R = Some n \<and> get_u32 (fp + 8) kd' = r_desc R \<and>
     (if get_u32 fp kd = BINDER_TYPE_BINDER then 0 < r_strong R \<and> get_u32 fp kd' = BINDER_TYPE_HANDLE
      else 0 < r_weak R \<and> get_u32 fp kd' = BINDER_TYPE_WEAK_HANDLE) \<and>
     get_u32 (fp + 12) kd' = 0 \<and> get_u64 (fp + 16) kd' = 0 \<and> get_u32 (fp + 4) kd' = get_u32 (fp + 4) kd \<and>
     take fp kd' = take fp kd \<and> drop (fp + 24) kd' = drop (fp + 24) kd)"

lemma translate_granted:
  assumes inv: "driver_inv s" and TP: "procs s tp = Some TP" "length (p_refs TP) < 2 ^ 32 - 1"
    and N: "nodes s n = Some N" and t: "threads s t \<noteq> None" and ub: "counts_below s"
    and kd: "get_kdata tp b s = Some kd" and len: "fp + 24 \<le> length kd"
    and id: "n_proc N = Some p" "n_ptr N = get_u64 (fp + 8) kd" "n_cookie N = get_u64 (fp + 16) kd"
    and get: "binder_ref_get_for_node K tp n s = Some (Some r, s1)"
  shows "\<exists>s'. hand_over b fp kd t tp r s1 = Some (OK, s') \<and> driver_inv s' \<and> arrived_as_handle p b fp kd tp s'"
proof -
  let ?strong = "get_u32 fp kd = BINDER_TYPE_BINDER"
  let ?type = "if ?strong then BINDER_TYPE_HANDLE else BINDER_TYPE_WEAK_HANDLE"
  obtain s2 R N2 where g: "binder_ref_update r ?strong True (Some t) s1 = Some (OK, s2)" "driver_inv s2"
      "parcels s2 = parcels s" "refs s2 r = Some R" "r_proc R = tp" "r_node R = Some n" "nodes s2 n = Some N2"
      "node_id N2 = node_id N" "if ?strong then 0 < r_strong R else 0 < r_weak R"
    using grant_ok [OF inv TP N t ub get] by blast
  have kd2: "get_kdata tp b s2 = Some kd" using kd get_kdata_parcels [OF g(3)] by simp
  obtain s' where s': "put_kdata tp b (as_handle fp ?type (r_desc R) kd) s2 = Some s'" "driver_inv s'"
      "get_kdata tp b s' = Some (as_handle fp ?type (r_desc R) kd)" "nodes s' = nodes s2" "refs s' = refs s2"
    using put_kdata_ok [OF g(2) kd2] by blast
  have id2: "n_proc N2 = Some p" "n_ptr N2 = get_u64 (fp + 8) kd" "n_cookie N2 = get_u64 (fp + 16) kd"
    using g(8) id by (simp_all add: node_id_def)
  have "arrived_as_handle p b fp kd tp s'"
    unfolding arrived_as_handle_def
    by (rule exI [of _ "as_handle fp ?type (r_desc R) kd"], rule exI [of _ n], rule exI [of _ N2],
        rule exI [of _ r], rule exI [of _ R])
      (use id2 s'(3-5) g(4-7,9) in \<open>simp add: as_handle_bytes [OF len]\<close>)
  then show ?thesis
    using s'(1,2) by (auto simp: hand_over_def g(1,4) kd2 as_handle_writes [OF len, simplified])
qed

lemma translate_binder_ok:
  assumes "driver_inv s" and "procs s p = Some P" and "procs s tp = Some TP" and "length (p_refs TP) < 2 ^ 32 - 1"
    and "threads s t \<noteq> None" and "counts_below s" and "get_kdata tp b s = Some kd" and "fp + 24 \<le> length kd"
  shows "\<exists>e s'. binder_translate_binder K b fp p t tp s = Some (e, s') \<and> driver_inv s' \<and>
    (if e = OK then arrived_as_handle p b fp kd tp s'
     else e = ENOMEM \<and> (\<exists>c z. \<not> osmalloc K c z) \<or>
       e = EINVAL \<and> (\<exists>n N. nodes s n = Some N \<and> n_proc N = Some p \<and> n_ptr N = get_u64 (fp + 8) kd \<and>
         n_cookie N \<noteq> get_u64 (fp + 16) kd))"
proof -
  let ?new = "binder_node_new K p (get_u64 (fp + 8) kd) (get_u64 (fp + 16) kd) (get_u32 (fp + 4) kd) s"
  note eq = translate_binder_eq [OF assms(7,8)]
  obtain found s1 where f: "?new = Some (found, s1)" "driver_inv s1" "actors s1 = actors s" "refs s1 = refs s"
      "parcels s1 = parcels s" "\<forall>q. map_option p_refs (procs s1 q) = map_option p_refs (procs s q)"
      "case found of None \<Rightarrow> s1 = s\<lparr>clock := Suc (clock s)\<rparr>
       | Some n \<Rightarrow> \<exists>N. node_for p (get_u64 (fp + 8) kd) (get_u64 (fp + 16) kd) (get_u32 (fp + 4) kd) s n N s1"
    using node_new_ok [OF assms(1,2)] by meson
  show ?thesis
  proof (cases found)
    case None
    then show ?thesis using f(1,2) node_new_memory [OF f(1) [unfolded None]] by (simp add: eq)
  next
    case (Some n)
    then obtain N where N: "node_for p (get_u64 (fp + 8) kd) (get_u64 (fp + 16) kd) (get_u32 (fp + 4) kd) s n N s1"
      using f(7) by auto
    then have n: "nodes s1 n = Some N" "n_proc N = Some p" "n_ptr N = get_u64 (fp + 8) kd"
      by (simp_all add: node_for_def)
    show ?thesis
    proof (cases "n_cookie N = get_u64 (fp + 16) kd")
      case False
      then have "nodes s n = Some N" using N by (auto simp: node_for_def)
      then show ?thesis using f(1,2) Some n False by (auto simp: eq)
    next
      case True
      obtain TP1 where TP1: "procs s1 tp = Some TP1" "length (p_refs TP1) < 2 ^ 32 - 1"
        using f(6) [THEN spec, of tp] assms(3,4) by auto
      note t1 = actors_thread [OF f(3) assms(5)] and ub1 = node_for_counts [OF assms(6) N f(4,2)]
      have kd1: "get_kdata tp b s1 = Some kd" using assms(7) get_kdata_parcels [OF f(5)] by simp
      obtain ref s2 where g: "binder_ref_get_for_node K tp n s1 = Some (ref, s2)" "driver_inv s2"
        using get_for_node_inv [OF f(2) TP1(1) n(1) TP1(2), of K] by blast
      show ?thesis
      proof (cases ref)
        case None
        then show ?thesis using f(1) Some n(1) True g get_for_node_memory [OF g(1) [unfolded None]] by (simp add: eq)
      next
        case (Some r)
        then show ?thesis
          using translate_granted [OF f(2) TP1 n(1) t1 ub1 kd1 assms(8) n(2,3) True g(1) [unfolded Some]]
            f(1) \<open>found = Some n\<close> n(1) True g(1) by (auto simp: eq)
      qed
    qed
  qed
qed

section \<open>A handle is passed on\<close>

definition locals_below :: "binder_state \<Rightarrow> bool" where
  "locals_below s \<longleftrightarrow> (\<forall>n N. nodes s n = Some N \<longrightarrow> n_local_strong_refs N < int_max \<and> n_local_weak_refs N < int_max)"

text \<open>The object came back to the process that owns it.\<close>

definition came_home :: "addr \<Rightarrow> nat \<Rightarrow> byte list \<Rightarrow> addr \<Rightarrow> addr \<Rightarrow> binder_node \<Rightarrow> binder_state \<Rightarrow> bool" where
  "came_home b fp kd tp n N s \<longleftrightarrow> (\<exists>kd' N'. get_kdata tp b s = Some kd' \<and> nodes s n = Some N' \<and> node_id N' = node_id N \<and>
     get_u64 (fp + 8) kd' = n_ptr N \<and> get_u64 (fp + 16) kd' = n_cookie N \<and>
     (if get_u32 fp kd = BINDER_TYPE_HANDLE
      then get_u32 fp kd' = BINDER_TYPE_BINDER \<and> n_local_strong_refs N' = n_local_strong_refs N + 1
      else get_u32 fp kd' = BINDER_TYPE_WEAK_BINDER \<and> n_local_weak_refs N' = n_local_weak_refs N + 1) \<and>
     get_u32 (fp + 4) kd' = get_u32 (fp + 4) kd \<and>
     take fp kd' = take fp kd \<and> drop (fp + 24) kd' = drop (fp + 24) kd)"

text \<open>The receiver got a handle of its own.\<close>

definition passed_on :: "addr \<Rightarrow> nat \<Rightarrow> byte list \<Rightarrow> addr \<Rightarrow> addr \<Rightarrow> binder_state \<Rightarrow> bool" where
  "passed_on b fp kd tp n s \<longleftrightarrow> (\<exists>kd' r R. get_kdata tp b s = Some kd' \<and>
     refs s r = Some R \<and> r_proc R = tp \<and> r_node R = Some n \<and> kd' = put_u32 (fp + 8) (r_desc R) kd \<and>
     (if get_u32 fp kd = BINDER_TYPE_HANDLE then 0 < r_strong R else 0 < r_weak R))"

definition as_object :: "nat \<Rightarrow> u32 \<Rightarrow> u64 \<Rightarrow> u64 \<Rightarrow> byte list \<Rightarrow> byte list" where
  "as_object fp type ptr cookie kd =
     put_u64 (fp + o_cookie) cookie (put_u64 (fp + o_binder) ptr (put_u32 (fp + o_type) type kd))"

lemma as_object_bytes:
  assumes "fp + 24 \<le> length kd"
  shows "get_u32 fp (as_object fp type ptr cookie kd) = type" "get_u64 (fp + 8) (as_object fp type ptr cookie kd) = ptr"
    "get_u64 (fp + 16) (as_object fp type ptr cookie kd) = cookie"
    "get_u32 (fp + 4) (as_object fp type ptr cookie kd) = get_u32 (fp + 4) kd"
    "take fp (as_object fp type ptr cookie kd) = take fp kd"
    "drop (fp + 24) (as_object fp type ptr cookie kd) = drop (fp + 24) kd"
  using assms
  by (simp_all add: as_object_def)
    (simp_all add: put_u64_def put_u32_def put_bytes_take put_bytes_drop)

lemma hold_locally:
  assumes inv: "driver_inv s" and N: "nodes s n = Some N" and t: "threads s t \<noteq> None"
    and ub: "n_local_strong_refs N < int_max" "n_local_weak_refs N < int_max"
  shows "\<exists>s' N'. binder_node_update_refs n strong True False (Some t) s = Some (OK, s') \<and> driver_inv s' \<and>
    parcels s' = parcels s \<and> nodes s' n = Some N' \<and> node_id N' = node_id N \<and>
    (if strong then n_local_strong_refs N' = n_local_strong_refs N + 1
     else n_local_weak_refs N' = n_local_weak_refs N + 1)"
proof -
  note d = driver_invD(1) [OF inv]
  have pos: "0 \<le> n_local_strong_refs N" "0 \<le> n_local_weak_refs N"
    using graph_offD(2) [OF refs_invD(1) [OF d] N] by (simp_all add: node_graph_ok_def)
  let ?N = "if strong then N\<lparr>n_local_strong_refs := n_local_strong_refs N + 1\<rparr>
    else N\<lparr>n_local_weak_refs := n_local_weak_refs N + 1\<rparr>"
  have c: "count_refs strong True False N = Some (OK, ?N)"
    using ub pos by (simp add: count_refs_def int_inc_def)
  have z: "(\<lambda>_. 0 :: int)(n := 0) = (\<lambda>_. 0)" by auto
  have w: "binder_node_has_weak ?N" using pos by (auto simp: binder_node_has_weak_def binder_node_has_strong_def)
  obtain s' where s': "binder_node_update_refs n strong True False (Some t) s = Some (OK, s')"
      "refs_inv (\<lambda>_. 0) s'" "core s' = core (s\<lparr>nodes := (nodes s)(n \<mapsto> ?N)\<rparr>)"
    using update_refs_ok [where th = "Some t", OF d N _ c] t w by (auto simp: strong_delta_def z)
  have sh: "shrinks s s'"
    by (rule update_refs_shrinks [OF N _ disjI1 [OF s'(3)]]) (simp add: node_id_def)
  obtain N' where N': "nodes s' n = Some N'" "node_core N' = node_core ?N"
    using core_fields(5) [OF s'(3), of n] by auto
  have "parcels s' = parcels s" using parcels_core [OF s'(3)] by simp
  then show ?thesis
    using s'(1) driver_inv_shrinks [OF inv sh s'(2)] N' node_coreD [OF N'(2)] by (auto simp: node_id_def)
qed

text \<open>The two ways \<open>binder_translate_handle\<close> ends: at the owner, and at someone else.\<close>

definition bring_home :: "addr \<Rightarrow> nat \<Rightarrow> byte list \<Rightarrow> addr \<Rightarrow> addr \<Rightarrow> addr \<Rightarrow> binder_state \<Rightarrow> (errno \<times> binder_state) option" where
  "bring_home b fp kd t tp n s = do {
      (e, s) \<leftarrow> binder_node_update_refs n (get_u32 fp kd = BINDER_TYPE_HANDLE) True False (Some t) s;
      if e \<noteq> OK then Some (e, s)
      else do {
        N \<leftarrow> nodes s n;
        kd \<leftarrow> wr_u32 (fp + o_type) (if get_u32 fp kd = BINDER_TYPE_HANDLE then BINDER_TYPE_BINDER else BINDER_TYPE_WEAK_BINDER) kd;
        kd \<leftarrow> wr_u64 (fp + o_binder) (n_ptr N) kd;
        kd \<leftarrow> wr_u64 (fp + o_cookie) (n_cookie N) kd;
        s \<leftarrow> put_kdata tp b kd s;
        Some (OK, s) } }"

definition forward_handle :: "addr \<Rightarrow> nat \<Rightarrow> byte list \<Rightarrow> addr \<Rightarrow> addr \<Rightarrow> addr \<Rightarrow> binder_state \<Rightarrow> (errno \<times> binder_state) option" where
  "forward_handle b fp kd t tp r s = do {
      (e, s) \<leftarrow> binder_ref_update r (get_u32 fp kd = BINDER_TYPE_HANDLE) True (Some t) s;
      if e \<noteq> OK then Some (e, s)
      else do {
        R' \<leftarrow> refs s r;
        kd \<leftarrow> wr_u32 (fp + o_handle) (r_desc R') kd;
        s \<leftarrow> put_kdata tp b kd s;
        Some (OK, s) } }"

lemma translate_handle_eq:
  assumes kd: "get_kdata tp b s = Some kd" and len: "fp + 24 \<le> length kd"
  shows "binder_translate_handle K b fp p t tp s = do {
     found \<leftarrow> binder_ref_find_by_desc p (get_u32 (fp + 8) kd) s;
     (case found of
        None \<Rightarrow> Some (EINVAL, s)
      | Some r \<Rightarrow> do {
          R \<leftarrow> refs s r;
          (case r_node R of
             None \<Rightarrow> Some (EINVAL, s)
           | Some n \<Rightarrow> do {
               N \<leftarrow> nodes s n;
               if n_proc N = Some tp then bring_home b fp kd t tp n s
               else do {
                 (ref, s) \<leftarrow> binder_ref_get_for_node K tp n s;
                 (case ref of None \<Rightarrow> Some (ENOMEM, s) | Some r' \<Rightarrow> forward_handle b fp kd t tp r' s) } }) }) }"
  using len unfolding bring_home_def forward_handle_def
  by (simp add: binder_translate_handle_def kd rd_u32_def Let_def)

lemma translate_home:
  assumes inv: "driver_inv s" and N: "nodes s n = Some N" and t: "threads s t \<noteq> None" and ub: "locals_below s"
    and kd: "get_kdata tp b s = Some kd" and len: "fp + 24 \<le> length kd"
  shows "\<exists>s'. bring_home b fp kd t tp n s = Some (OK, s') \<and> driver_inv s' \<and> came_home b fp kd tp n N s'"
proof -
  define strong where "strong = (get_u32 fp kd = BINDER_TYPE_HANDLE)"
  let ?type = "if strong then BINDER_TYPE_BINDER else BINDER_TYPE_WEAK_BINDER"
  obtain s1 N1 where g: "binder_node_update_refs n strong True False (Some t) s = Some (OK, s1)" "driver_inv s1"
      "parcels s1 = parcels s" "nodes s1 n = Some N1" "node_id N1 = node_id N"
      "if strong then n_local_strong_refs N1 = n_local_strong_refs N + 1 else n_local_weak_refs N1 = n_local_weak_refs N + 1"
    using hold_locally [OF inv N t, of strong] ub N by (auto simp: locals_below_def)
  have kd1: "get_kdata tp b s1 = Some kd" using kd get_kdata_parcels [OF g(3)] by simp
  have id: "n_ptr N1 = n_ptr N" "n_cookie N1 = n_cookie N" using g(5) by (simp_all add: node_id_def)
  let ?kd = "as_object fp ?type (n_ptr N) (n_cookie N) kd"
  obtain s' where s': "put_kdata tp b ?kd s1 = Some s'" "driver_inv s'" "get_kdata tp b s' = Some ?kd" "nodes s' = nodes s1"
    using put_kdata_ok [OF g(2) kd1] by blast
  have "came_home b fp kd tp n N s'"
    unfolding came_home_def
    by (rule exI [of _ ?kd], rule exI [of _ N1])
      (use s'(3,4) g(4-6) in \<open>simp add: as_object_bytes [OF len] flip: strong_def\<close>)
  then show ?thesis
    using s'(1,2) g(1,4) id len
    by (auto simp: bring_home_def strong_def as_object_def wr_u32_def wr_u64_def wr_bytes_def put_u32_def put_u64_def)
qed

lemma translate_forward:
  assumes inv: "driver_inv s" and TP: "procs s tp = Some TP" "length (p_refs TP) < 2 ^ 32 - 1"
    and N: "nodes s n = Some N" and t: "threads s t \<noteq> None" and ub: "counts_below s"
    and kd: "get_kdata tp b s = Some kd" and len: "fp + 24 \<le> length kd"
    and get: "binder_ref_get_for_node K tp n s = Some (Some r, s1)"
  shows "\<exists>s'. forward_handle b fp kd t tp r s1 = Some (OK, s') \<and> driver_inv s' \<and> passed_on b fp kd tp n s'"
proof -
  define strong where "strong = (get_u32 fp kd = BINDER_TYPE_HANDLE)"
  obtain s2 R N2 where g: "binder_ref_update r strong True (Some t) s1 = Some (OK, s2)" "driver_inv s2"
      "parcels s2 = parcels s" "refs s2 r = Some R" "r_proc R = tp" "r_node R = Some n"
      "if strong then 0 < r_strong R else 0 < r_weak R"
    using grant_ok [OF inv TP N t ub get] by blast
  have kd2: "get_kdata tp b s2 = Some kd" using kd get_kdata_parcels [OF g(3)] by simp
  let ?kd = "put_u32 (fp + 8) (r_desc R) kd"
  obtain s' where s': "put_kdata tp b ?kd s2 = Some s'" "driver_inv s'" "get_kdata tp b s' = Some ?kd" "refs s' = refs s2"
    using put_kdata_ok [OF g(2) kd2] by blast
  have "passed_on b fp kd tp n s'"
    unfolding passed_on_def strong_def [symmetric]
    by (rule exI [of _ ?kd], rule exI [of _ r], rule exI [of _ R]) (use s'(3,4) g(4-7) in simp)
  then show ?thesis
    using s'(1,2) g(1,4) len by (auto simp: forward_handle_def strong_def wr_u32_def wr_bytes_def put_u32_def)
qed

definition handle_delivered ::
    "addr \<Rightarrow> addr \<Rightarrow> nat \<Rightarrow> byte list \<Rightarrow> addr \<Rightarrow> binder_state \<Rightarrow> binder_state \<Rightarrow> bool" where
  "handle_delivered p b fp kd tp s s' \<longleftrightarrow> (\<exists>r R n N. refs s r = Some R \<and> r_proc R = p \<and>
     r_desc R = get_u32 (fp + 8) kd \<and> r_node R = Some n \<and> nodes s n = Some N \<and>
     (if n_proc N = Some tp then came_home b fp kd tp n N s' else passed_on b fp kd tp n s'))"

lemma handle_deliveredI:
  "refs s r = Some R \<Longrightarrow> r_proc R = p \<Longrightarrow> r_desc R = get_u32 (fp + 8) kd \<Longrightarrow> r_node R = Some n \<Longrightarrow> nodes s n = Some N \<Longrightarrow>
    if n_proc N = Some tp then came_home b fp kd tp n N s' else passed_on b fp kd tp n s' \<Longrightarrow>
    handle_delivered p b fp kd tp s s'"
  unfolding handle_delivered_def by blast

lemma translate_handle_ok:
  assumes "driver_inv s" and "procs s p = Some P" and "procs s tp = Some TP" and "length (p_refs TP) < 2 ^ 32 - 1"
    and "threads s t \<noteq> None" and "counts_below s" and "locals_below s"
    and "get_kdata tp b s = Some kd" and "fp + 24 \<le> length kd"
  shows "\<exists>e s'. binder_translate_handle K b fp p t tp s = Some (e, s') \<and> driver_inv s' \<and>
    (if e = OK then handle_delivered p b fp kd tp s s'
     else e = ENOMEM \<and> (\<exists>c z. \<not> osmalloc K c z) \<or> e = EINVAL \<and> \<not> desc_used s p (get_u32 (fp + 8) kd))"
proof -
  note g = refs_invD(1) [OF driver_invD(1) [OF assms(1)]]
  note run = translate_handle_eq [OF assms(8,9)]
  obtain found where f: "binder_ref_find_by_desc p (get_u32 (fp + 8) kd) s = Some found"
      "case found of None \<Rightarrow> \<not> desc_used s p (get_u32 (fp + 8) kd)
       | Some r \<Rightarrow> \<exists>R. refs s r = Some R \<and> r_proc R = p \<and> r_desc R = get_u32 (fp + 8) kd"
    using find_by_desc_spec [OF g assms(2)] by blast
  show ?thesis
  proof (cases found)
    case None
    then show ?thesis using f assms(1) by (simp add: run)
  next
    case (Some r)
    then obtain R where R: "refs s r = Some R" "r_proc R = p" "r_desc R = get_u32 (fp + 8) kd" using f(2) by auto
    obtain n N where n: "r_node R = Some n" "nodes s n = Some N"
      using graph_offD(3) [OF g R(1)] by (auto simp: ref_graph_ok_def)
    show ?thesis
    proof (cases "n_proc N = Some tp")
      case True
      obtain s' where s': "bring_home b fp kd t tp n s = Some (OK, s')" "driver_inv s'" "came_home b fp kd tp n N s'"
        using translate_home [OF assms(1) n(2) assms(5,7,8,9)] by blast
      have "handle_delivered p b fp kd tp s s'" by (rule handle_deliveredI [OF R n]) (use True s' in simp)
      then show ?thesis using True f(1) Some R(1) n s' by (simp add: run)
    next
      case False
      obtain ref s1 where get: "binder_ref_get_for_node K tp n s = Some (ref, s1)" "driver_inv s1"
        using get_for_node_inv [OF assms(1,3) n(2) assms(4), of K] by blast
      show ?thesis
      proof (cases ref)
        case None
        then show ?thesis
          using get f(1) Some R n False get_for_node_memory [OF get(1) [unfolded None]] by (simp add: run)
      next
        case r': (Some r')
        obtain s' where s': "forward_handle b fp kd t tp r' s1 = Some (OK, s')" "driver_inv s'" "passed_on b fp kd tp n s'"
          using translate_forward [OF assms(1,3,4) n(2) assms(5,6,8,9) get(1) [unfolded r']] by blast
        have "handle_delivered p b fp kd tp s s'" by (rule handle_deliveredI [OF R n]) (use False s' in simp)
        then show ?thesis using False f(1) Some R(1) n s' get(1) r' by (simp add: run)
      qed
    qed
  qed
qed

lemma translate_back:
  assumes inv: "driver_inv s" and arr: "arrived_as_handle p b fp kd tp s" and kd1: "get_kdata tp b s = Some kd1"
    and kd2: "get_kdata p b2 s = Some kd2" "fp2 + 24 \<le> length kd2"
    and same: "get_u32 fp2 kd2 = get_u32 fp kd1" "get_u32 (fp2 + 8) kd2 = get_u32 (fp + 8) kd1" "get_u32 (fp + 8) kd1 \<noteq> 0"
    and t: "threads s t \<noteq> None" and ub: "locals_below s"
  shows "\<exists>s' n N. binder_translate_handle K b2 fp2 tp t p s = Some (OK, s') \<and> driver_inv s' \<and>
    n_ptr N = get_u64 (fp + 8) kd \<and> n_cookie N = get_u64 (fp + 16) kd \<and> came_home b2 fp2 kd2 p n N s' \<and>
    (get_u32 fp2 kd2 = BINDER_TYPE_HANDLE \<longleftrightarrow> get_u32 fp kd = BINDER_TYPE_BINDER)"
proof -
  obtain n N r R where a: "nodes s n = Some N" "n_proc N = Some p" "n_ptr N = get_u64 (fp + 8) kd"
      "n_cookie N = get_u64 (fp + 16) kd" "refs s r = Some R" "r_proc R = tp" "r_node R = Some n"
      "get_u32 (fp + 8) kd1 = r_desc R"
      "get_u32 fp kd1 = (if get_u32 fp kd = BINDER_TYPE_BINDER then BINDER_TYPE_HANDLE else BINDER_TYPE_WEAK_HANDLE)"
    using arr kd1 by (auto simp: arrived_as_handle_def split: if_splits)
  note g = refs_invD(1) [OF driver_invD(1) [OF inv]]
  obtain TP where TP: "procs s tp = Some TP" using graph_offD(3) [OF g a(5)] a(6) by (auto simp: ref_graph_ok_def)
  have used: "desc_used s tp (get_u32 (fp2 + 8) kd2)" using a same by (auto simp: desc_used_def)
  obtain r' R' where f: "binder_ref_find_by_desc tp (get_u32 (fp2 + 8) kd2) s = Some (Some r')"
      "refs s r' = Some R'" "r_proc R' = tp" "r_desc R' = get_u32 (fp2 + 8) kd2"
    using find_by_desc_spec [OF g TP, of "get_u32 (fp2 + 8) kd2"] used by (auto split: option.splits)
  have "r' = r" by (rule handles_okD [OF driver_invD(3) [OF inv] f(2) a(5)]) (use f a same in auto)
  moreover obtain s' where "bring_home b2 fp2 kd2 t p n s = Some (OK, s')" "driver_inv s'" "came_home b2 fp2 kd2 p n N s'"
    using translate_home [OF inv a(1) t ub kd2] by blast
  moreover have "BINDER_TYPE_HANDLE \<noteq> BINDER_TYPE_WEAK_HANDLE" by (simp add: abi_defs B_PACK_CHARS_def)
  ultimately show ?thesis
    using f a same by (auto simp: translate_handle_eq [OF kd2])
qed

section \<open>An example\<close>

text \<open>Process 1 owns object 3, process 2 has handle 1 for it. A parcel for process 2 holds the
  object, a parcel for process 1 the handle.\<close>

definition object_bytes :: "byte list" where
  "object_bytes = put_u64 8 0x1000 (put_u32 0 BINDER_TYPE_BINDER (replicate 24 0))"

definition handle_bytes :: "byte list" where
  "handle_bytes = put_u32 8 1 (put_u32 0 BINDER_TYPE_HANDLE (replicate 24 0))"

definition transit_example :: binder_state where
  "transit_example = handle_example\<lparr>procs := Map.empty(
     1 \<mapsto> fresh_proc\<lparr>p_nodes := [3], p_threads := [5], p_buffers := [(new_buffer 6)\<lparr>b_size := 64, b_kdata := Some handle_bytes\<rparr>]\<rparr>,
     2 \<mapsto> fresh_proc\<lparr>p_refs := [4], p_buffers := [(new_buffer 7)\<lparr>b_size := 64, b_kdata := Some object_bytes\<rparr>]\<rparr>)\<rparr>"

lemmas transit_defs = transit_example_def handle_example_defs

lemma transit_example_inv: "driver_inv transit_example"
proof -
  have "graph_off (\<lambda>_. 0) transit_example"
    by (rule graph_off_procs [OF refs_invD(1) [OF driver_invD(1) [OF handle_example_inv]]])
      (auto simp: transit_defs)
  moreover have "queues_ok transit_example"
    by (auto simp: queues_ok_def queues_ok_on_def held_def place_def items_def get_work_def
        get_queue_def transit_defs split: work_ptr.splits work_head.splits if_splits)
  moreover have "async_ok transit_example"
    by (auto simp: async_ok_def items_def get_queue_def transit_defs split: if_splits)
  moreover have "deaths_ok transit_example"
    by (auto simp: deaths_ok_def transit_defs split: if_splits)
  moreover have "mgr_ok transit_example" by (simp add: mgr_ok_def transit_defs)
  moreover have "handles_ok transit_example" by (auto simp: handles_ok_def transit_defs split: if_splits)
  moreover have "fresh transit_example" by (auto simp: fresh_def transit_defs)
  ultimately show ?thesis by (simp add: driver_inv_def refs_inv_def)
qed

lemma transit_facts:
  "\<exists>P. procs transit_example 1 = Some P \<and> length (p_refs P) < 2 ^ 32 - 1"
  "\<exists>P. procs transit_example 2 = Some P \<and> length (p_refs P) < 2 ^ 32 - 1"
  "threads transit_example 5 \<noteq> None" "counts_below transit_example" "locals_below transit_example"
  "get_kdata 2 7 transit_example = Some object_bytes" "get_kdata 1 6 transit_example = Some handle_bytes"
  by (auto simp: transit_defs counts_below_def locals_below_def int_max_def get_kdata_def get_buffer_def new_buffer_def
      split: if_splits)

lemma transit_bytes:
  "length object_bytes = 24" "get_u32 0 object_bytes = BINDER_TYPE_BINDER" "get_u64 8 object_bytes = 0x1000"
  "get_u64 16 object_bytes = 0" "length handle_bytes = 24" "get_u32 0 handle_bytes = BINDER_TYPE_HANDLE"
  "get_u32 8 handle_bytes = 1"
proof -
  have "get_bytes 16 8 (replicate 24 (0 :: byte)) = replicate 8 0" by (simp add: get_bytes_def)
  then have "get_u64 16 (replicate 24 0) = 0" by (simp add: get_u64_def numeral_eq_Suc)
  then show "get_u64 16 object_bytes = 0" by (simp add: object_bytes_def)
qed (simp_all add: object_bytes_def handle_bytes_def)

section \<open>Properties\<close>

text \<open>C3: an object that leaves its owner in a parcel. The translation runs without undefined behaviour and keeps the
  invariant of the reference graph. When it succeeds, the place of the object holds a handle of the receiver
  that names exactly the sender's object (the one with that pointer and that cookie), counted strongly or weakly as
  sent, and the receiver learns neither the pointer nor the cookie; flags and
  the rest of the parcel are as they were. It fails only for a cookie that contradicts the object's, or without memory.\<close>

theorem object_sent:
  assumes "driver_inv s" and "procs s p = Some P" and "procs s tp = Some TP" and "length (p_refs TP) < 2 ^ 32 - 1"
    and "threads s t \<noteq> None" and "counts_below s" and "get_kdata tp b s = Some kd" and "fp + 24 \<le> length kd"
  shows "\<exists>e s'. binder_translate_binder K b fp p t tp s = Some (e, s') \<and> driver_inv s' \<and>
    (if e = OK then arrived_as_handle p b fp kd tp s'
     else e = ENOMEM \<and> (\<exists>c z. \<not> osmalloc K c z) \<or>
       e = EINVAL \<and> (\<exists>n N. nodes s n = Some N \<and> n_proc N = Some p \<and> n_ptr N = get_u64 (fp + 8) kd \<and>
         n_cookie N \<noteq> get_u64 (fp + 16) kd))"
  using assms by (rule translate_binder_ok)

theorem object_sent_witness:
  "\<exists>s'. binder_translate_binder quiet_kpi 7 0 1 5 2 transit_example = Some (OK, s') \<and>
    arrived_as_handle 1 7 0 object_bytes 2 s'"
proof -
  obtain P where P: "procs transit_example 1 = Some P" using transit_facts(1) by blast
  obtain Q where Q: "procs transit_example 2 = Some Q" "length (p_refs Q) < 2 ^ 32 - 1" using transit_facts(2) by blast
  have c: "\<not> (nodes transit_example n = Some N \<and> n_proc N = Some 1 \<and> n_cookie N \<noteq> 0)" for n N
    by (auto simp: transit_defs split: if_splits)
  show ?thesis
    using object_sent [OF transit_example_inv P Q transit_facts(3,4,6), of 0 quiet_kpi] c
    by (auto simp: transit_bytes quiet_kpi_def split: if_splits)
qed

text \<open>C10: a handle in a parcel. The translation runs without undefined behaviour and keeps the invariant of the reference
  graph. When it succeeds, the number was a handle of the sender, and the receiver gets the same object: as
  itself, with its own pointer and cookie and one more local reference, when the receiver owns
  it; otherwise as a handle of the receiver that names it, counted as sent. It fails only when the
  sender has no such handle, or without memory.\<close>

theorem handle_sent:
  assumes "driver_inv s" and "procs s p = Some P" and "procs s tp = Some TP" and "length (p_refs TP) < 2 ^ 32 - 1"
    and "threads s t \<noteq> None" and "counts_below s" and "locals_below s"
    and "get_kdata tp b s = Some kd" and "fp + 24 \<le> length kd"
  shows "\<exists>e s'. binder_translate_handle K b fp p t tp s = Some (e, s') \<and> driver_inv s' \<and>
    (if e = OK then handle_delivered p b fp kd tp s s'
     else e = ENOMEM \<and> (\<exists>c z. \<not> osmalloc K c z) \<or> e = EINVAL \<and> \<not> desc_used s p (get_u32 (fp + 8) kd))"
  using assms by (rule translate_handle_ok)

theorem handle_sent_witness:
  "\<exists>s'. binder_translate_handle quiet_kpi 6 0 2 5 1 transit_example = Some (OK, s') \<and>
    handle_delivered 2 6 0 handle_bytes 1 transit_example s'"
proof -
  obtain P where P: "procs transit_example 1 = Some P" "length (p_refs P) < 2 ^ 32 - 1" using transit_facts(1) by blast
  obtain Q where Q: "procs transit_example 2 = Some Q" using transit_facts(2) by blast
  have d: "desc_used transit_example 2 1" by (auto simp: desc_used_def transit_defs)
  show ?thesis
    using handle_sent [OF transit_example_inv Q P transit_facts(3,4,5,7), of 0 quiet_kpi] d
    by (auto simp: transit_bytes quiet_kpi_def split: if_splits)
qed

text \<open>C16: there and back. When a process sends an object of its own and the receiver sends the handle it got back, the
  process finds at the place of that handle its own object: the pointer, the cookie and the
  strength it had sent. This holds of every handle whose number is not 0, the only number that may name two objects.\<close>

theorem object_returns:
  assumes "driver_inv s" and "procs s p = Some P" and "procs s tp = Some TP" and "length (p_refs TP) < 2 ^ 32 - 1"
    and "threads s t \<noteq> None" and "counts_below s" and "get_kdata tp b s = Some kd" and "fp + 24 \<le> length kd"
    and "binder_translate_binder K b fp p t tp s = Some (OK, s1)"
    and "get_kdata tp b s1 = Some kd1" and "get_kdata p b2 s1 = Some kd2" and "fp2 + 24 \<le> length kd2"
    and "get_u32 fp2 kd2 = get_u32 fp kd1" and "get_u32 (fp2 + 8) kd2 = get_u32 (fp + 8) kd1" and "get_u32 (fp + 8) kd1 \<noteq> 0"
    and "threads s1 u \<noteq> None" and "locals_below s1"
  shows "\<exists>s2 kd3. binder_translate_handle K' b2 fp2 tp u p s1 = Some (OK, s2) \<and> driver_inv s2 \<and>
    get_kdata p b2 s2 = Some kd3 \<and> get_u64 (fp2 + 8) kd3 = get_u64 (fp + 8) kd \<and>
    get_u64 (fp2 + 16) kd3 = get_u64 (fp + 16) kd \<and>
    (get_u32 fp2 kd3 = BINDER_TYPE_BINDER \<longleftrightarrow> get_u32 fp kd = BINDER_TYPE_BINDER)"
proof -
  have s1: "driver_inv s1" "arrived_as_handle p b fp kd tp s1"
    using translate_binder_ok [OF assms(1-8), of K] assms(9) by auto
  have "BINDER_TYPE_WEAK_BINDER \<noteq> BINDER_TYPE_BINDER" by (simp add: abi_defs B_PACK_CHARS_def)
  then show ?thesis
    using translate_back [OF s1 assms(10-17), of K'] by (auto simp: came_home_def split: if_splits)
qed

lemma transit_sent:
  "binder_translate_binder quiet_kpi 7 0 1 5 2 transit_example = Some (OK, transit_example\<lparr>
     refs := Map.empty(4 \<mapsto> \<lparr>r_proc = 2, r_node = Some 3, r_desc = 1, r_strong = 2, r_weak = 0, r_death = None, r_debug_id = 0\<rparr>),
     procs := (procs transit_example)(2 \<mapsto> fresh_proc\<lparr>p_refs := [4], p_buffers :=
       [(new_buffer 7)\<lparr>b_size := 64, b_kdata := Some (as_handle 0 BINDER_TYPE_HANDLE 1 object_bytes)\<rparr>]\<rparr>)\<rparr>)"
proof -
  have len: "0 + 24 \<le> length object_bytes" by (simp add: transit_bytes)
  note w = as_handle_writes [OF len, simplified]
  show ?thesis
    unfolding translate_binder_eq [OF transit_facts(6) len]
    by (simp add: transit_bytes binder_node_new_def binder_node_find_def binder_ref_get_for_node_def binder_ref_find_for_node_def
        hand_over_def binder_ref_update_def upd_ref_def int_inc_def int_max_def get_kdata_def put_kdata_def get_buffer_def
        upd_buffer_def upd_proc_def transit_defs new_buffer_def w fun_upd_twist)
qed

theorem object_returns_witness:
  "\<exists>s1 s2 kd3. binder_translate_binder quiet_kpi 7 0 1 5 2 transit_example = Some (OK, s1) \<and>
    binder_translate_handle quiet_kpi 6 0 2 5 1 s1 = Some (OK, s2) \<and>
    get_kdata 1 6 s2 = Some kd3 \<and> get_u64 8 kd3 = 0x1000 \<and> get_u32 0 kd3 = BINDER_TYPE_BINDER"
proof -
  obtain P where P: "procs transit_example 1 = Some P" using transit_facts(1) by blast
  obtain Q where Q: "procs transit_example 2 = Some Q" "length (p_refs Q) < 2 ^ 32 - 1" using transit_facts(2) by blast
  have len: "0 + 24 \<le> length object_bytes" "0 + 24 \<le> length handle_bytes" by (simp_all add: transit_bytes)
  have k: "get_u32 0 handle_bytes = get_u32 0 (as_handle 0 BINDER_TYPE_HANDLE 1 object_bytes)"
    "get_u32 (0 + 8) handle_bytes = get_u32 (0 + 8) (as_handle 0 BINDER_TYPE_HANDLE 1 object_bytes)"
    "get_u32 (0 + 8) (as_handle 0 BINDER_TYPE_HANDLE 1 object_bytes) \<noteq> 0"
    using as_handle_bytes [OF len(1), of BINDER_TYPE_HANDLE 1] by (simp_all add: transit_bytes)
  obtain s1 where s1: "binder_translate_binder quiet_kpi 7 0 1 5 2 transit_example = Some (OK, s1)"
      "get_kdata 2 7 s1 = Some (as_handle 0 BINDER_TYPE_HANDLE 1 object_bytes)" "get_kdata 1 6 s1 = Some handle_bytes"
      "threads s1 5 \<noteq> None" "locals_below s1"
    unfolding transit_sent
    by (simp add: get_kdata_def get_buffer_def transit_defs new_buffer_def locals_below_def int_max_def)
  show ?thesis
    using object_returns [OF transit_example_inv P Q transit_facts(3,4,6) len(1) s1(1-3) len(2) k s1(4,5), of quiet_kpi] s1(1)
    by (auto simp: transit_bytes)
qed

end
