(* ===== verification/Binder_Invariant.thy ===== *)
theory Binder_Invariant
  imports Binder_Objects
begin

text \<open>
  The invariant of the whole driver: the graph of objects and handles, the context managers, the
  numbers of the handles and the arenas of all processes. This theory shows that the operations on
  nodes, references (\<^verbatim>\<open>kext/binder_node.c\<close>), work queues and arenas (\<^verbatim>\<open>kext/binder_alloc.c\<close>) keep it
  whenever they are defined. Unlike the lemmas of \<^verbatim>\<open>Binder_Handles\<close> this asks nothing of the queues, the threads or
  the size of the counts, so it also holds in states in which some other operation would be undefined.
\<close>

section \<open>The invariant\<close>

definition young :: "binder_state \<Rightarrow> bool" where
  "young s \<longleftrightarrow> (\<forall>a \<ge> clock s. refs s a = None \<and> nodes s a = None \<and> procs s a = None)"

definition arenas_ok :: "binder_state \<Rightarrow> bool" where
  "arenas_ok s \<longleftrightarrow> (\<forall>p P. procs s p = Some P \<longrightarrow> proc_arena_ok P \<and> (\<forall>b \<in> set (p_buffers P). b_id b < clock s))"

text \<open>\<open>A\<close> gives each process the context it was opened on and nothing to an address that is not a
  process; no operation but the open and the close of a process changes it. \<open>d\<close> is as in \<open>graph_off\<close>.\<close>

definition kernel_off :: "(addr \<Rightarrow> nat option) \<Rightarrow> (addr \<Rightarrow> int) \<Rightarrow> binder_state \<Rightarrow> bool" where
  "kernel_off A d s \<longleftrightarrow> graph_off d s \<and> mgr_ok s \<and> handles_ok s \<and> young s \<and> arenas_ok s \<and> context_of s = A \<and>
     (\<forall>p. procs s p = None \<longleftrightarrow> A p = None)"

abbreviation kernel_inv :: "(addr \<Rightarrow> nat option) \<Rightarrow> binder_state \<Rightarrow> bool" where
  "kernel_inv A \<equiv> kernel_off A (\<lambda>_. 0)"

lemma kernel_offD:
  assumes "kernel_off A d s"
  shows "graph_off d s" "mgr_ok s" "handles_ok s" "young s" "arenas_ok s" "context_of s = A"
    "procs s p = None \<longleftrightarrow> A p = None"
  using assms by (auto simp: kernel_off_def)

section \<open>What the invariant reads\<close>

definition buffer_view :: "binder_buffer \<Rightarrow> addr \<times> u64 \<times> u64 \<times> bool \<times> u64 \<times> u64 \<times> u64" where
  "buffer_view B = (b_id B, b_offset B, b_size B, b_free B, b_data_size B, b_offsets_size B, b_extra_buffers_size B)"

definition proc_view :: "binder_proc \<Rightarrow> addr list \<times> addr list \<times> nat option \<times> u64 \<times> u64 \<times>
    (addr \<times> u64 \<times> u64 \<times> bool \<times> u64 \<times> u64 \<times> u64) list" where
  "proc_view P = (p_nodes P, p_refs P, p_context P, p_arena_addr P, p_arena_size P, map buffer_view (p_buffers P))"

definition node_view :: "binder_node \<Rightarrow> addr option \<times> addr list \<times> int \<times> int \<times> int" where
  "node_view N = (n_proc N, n_refs N, n_internal_strong_refs N, n_local_strong_refs N, n_local_weak_refs N)"

definition ref_view :: "binder_ref \<Rightarrow> addr \<times> addr option \<times> u32 \<times> int \<times> int" where
  "ref_view R = (r_proc R, r_node R, r_desc R, r_strong R, r_weak R)"

definition same :: "binder_state \<Rightarrow> binder_state \<Rightarrow> bool" where
  "same s s' \<longleftrightarrow> (\<forall>p. map_option proc_view (procs s' p) = map_option proc_view (procs s p)) \<and>
     (\<forall>n. map_option node_view (nodes s' n) = map_option node_view (nodes s n)) \<and>
     (\<forall>r. map_option ref_view (refs s' r) = map_option ref_view (refs s r)) \<and>
     (\<forall>c. c_mgr_node (contexts s' c) = c_mgr_node (contexts s c)) \<and> clock s \<le> clock s'"

lemmas view_defs = buffer_view_def proc_view_def node_view_def ref_view_def

lemma arena_ok_view:
  assumes "map buffer_view bs' = map buffer_view bs"
  shows "arena_ok sz bs' = arena_ok sz bs"
proof -
  have l: "list_all2 (\<lambda>x y. buffer_view x = buffer_view y) bs' bs"
    using assms by (simp add: list_all2_conv_all_nth list_eq_iff_nth_eq)
  have t: "tiles o' bs' = tiles o' bs" for o'
    using l by (induction arbitrary: o' rule: list_all2_induct) (auto simp: buffer_view_def)
  have eqs: "total_size bs' = total_size bs" "map b_id bs' = map b_id bs" "map b_free bs' = map b_free bs"
    using l by (induction rule: list_all2_induct) (auto simp: buffer_view_def)
  have fits: "list_all (\<lambda>b. 8 dvd unat (b_size b)) bs' = list_all (\<lambda>b. 8 dvd unat (b_size b)) bs"
      "list_all buffer_fits bs' = list_all buffer_fits bs" "bs' = [] \<longleftrightarrow> bs = []"
    using l by (induction rule: list_all2_induct) (auto simp: buffer_view_def buffer_fits_def)
  have "coalesced bs' = coalesced bs"
    unfolding coalesced_def successively_map [of "\<lambda>x y. \<not> (x \<and> y)" b_free, symmetric] eqs ..
  then show ?thesis using t eqs fits by (simp add: arena_ok_def)
qed

lemma sameD:
  assumes "same s s'"
  shows "procs s' p = Some P' \<Longrightarrow> \<exists>P. procs s p = Some P \<and> proc_view P' = proc_view P"
    "procs s' p = None \<longleftrightarrow> procs s p = None"
    "nodes s' n = Some N' \<Longrightarrow> \<exists>N. nodes s n = Some N \<and> node_view N' = node_view N"
    "nodes s' n = None \<longleftrightarrow> nodes s n = None"
    "refs s' r = Some R' \<Longrightarrow> \<exists>R. refs s r = Some R \<and> ref_view R' = ref_view R"
    "refs s' r = None \<longleftrightarrow> refs s r = None"
    "c_mgr_node (contexts s' c) = c_mgr_node (contexts s c)" "clock s \<le> clock s'"
proof -
  have m: "map_option proc_view (procs s' p) = map_option proc_view (procs s p)"
    "map_option node_view (nodes s' n) = map_option node_view (nodes s n)"
    "map_option ref_view (refs s' r) = map_option ref_view (refs s r)"
    "c_mgr_node (contexts s' c) = c_mgr_node (contexts s c)" "clock s \<le> clock s'"
    using assms by (simp_all add: same_def)
  show "procs s' p = None \<longleftrightarrow> procs s p = None" using m(1) by (cases "procs s p") auto
  show "nodes s' n = None \<longleftrightarrow> nodes s n = None" using m(2) by (cases "nodes s n") auto
  show "refs s' r = None \<longleftrightarrow> refs s r = None" using m(3) by (cases "refs s r") auto
  show "\<exists>P. procs s p = Some P \<and> proc_view P' = proc_view P" if "procs s' p = Some P'"
    using m(1) that by (cases "procs s p") auto
  show "\<exists>N. nodes s n = Some N \<and> node_view N' = node_view N" if "nodes s' n = Some N'"
    using m(2) that by (cases "nodes s n") auto
  show "\<exists>R. refs s r = Some R \<and> ref_view R' = ref_view R" if "refs s' r = Some R'"
    using m(3) that by (cases "refs s r") auto
qed (use assms in \<open>simp_all add: same_def\<close>)

lemma same_refs:
  assumes "same s s'"
  shows "owner_of s' = owner_of s" "holder_of s' = holder_of s" "target_of s' = target_of s" "holds_strong s' = holds_strong s"
    "context_of s' = context_of s"
proof -
  have n: "map_option node_view (nodes s' n) = map_option node_view (nodes s n)" for n using assms by (simp add: same_def)
  have r: "map_option ref_view (refs s' r) = map_option ref_view (refs s r)" for r using assms by (simp add: same_def)
  have p: "map_option proc_view (procs s' p) = map_option proc_view (procs s p)" for p using assms by (simp add: same_def)
  show "owner_of s' = owner_of s"
  proof
    fix x show "owner_of s' x = owner_of s x"
      using n [of x] by (cases "nodes s' x"; cases "nodes s x") (auto simp: owner_of_def node_view_def)
  qed
  have "holder_of s' x = holder_of s x \<and> target_of s' x = target_of s x \<and> holds_strong s' x = holds_strong s x" for x
    using r [of x] by (cases "refs s' x"; cases "refs s x") (auto simp: holder_of_def target_of_def holds_strong_def ref_view_def)
  then show "holder_of s' = holder_of s" "target_of s' = target_of s" "holds_strong s' = holds_strong s" by (simp_all add: fun_eq_iff)
  show "context_of s' = context_of s"
  proof
    fix x show "context_of s' x = context_of s x"
      using p [of x] by (cases "procs s' x"; cases "procs s x") (auto simp: context_of_def proc_view_def)
  qed
qed

lemma handles_ok_sub:
  assumes ok: "handles_ok s" and sub: "\<And>r R'. refs s' r = Some R' \<Longrightarrow> \<exists>R. refs s r = Some R \<and> ref_id R' = ref_id R"
  shows "handles_ok s'"
  unfolding handles_ok_def
proof (intro allI impI)
  fix a A' b B' assume a: "refs s' a = Some A'" "refs s' b = Some B'" "r_proc A' = r_proc B'"
    "r_node A' = r_node B' \<or> r_desc A' = r_desc B' \<and> r_desc A' \<noteq> 0"
  obtain A where A: "refs s a = Some A" "ref_id A' = ref_id A" using sub [OF a(1)] by blast
  obtain B where B: "refs s b = Some B" "ref_id B' = ref_id B" using sub [OF a(2)] by blast
  have "r_proc A = r_proc B" "r_node A = r_node B \<or> r_desc A = r_desc B \<and> r_desc A \<noteq> 0"
    using a(3,4) A(2) B(2) by (simp_all add: ref_id_def)
  with ok A(1) B(1) show "a = b" by (rule handles_okD)
qed

lemma kernel_same:
  assumes s: "same s s'" and inv: "kernel_off A d s"
  shows "kernel_off A d s'"
proof -
  note D = kernel_offD [OF inv] and v = sameD [OF s] and r = same_refs [OF s]
  have "graph_off d s'"
    unfolding graph_off_def
  proof (intro conjI allI impI)
    fix p P' assume "procs s' p = Some P'"
    then obtain P where "procs s p = Some P" "proc_view P' = proc_view P" using v(1) by blast
    then show "proc_graph_ok s' p P'" using graph_offD(1) [OF D(1)] r by (simp add: proc_graph_ok_def proc_view_def)
  next
    fix n N' assume "nodes s' n = Some N'"
    then obtain N where "nodes s n = Some N" "node_view N' = node_view N" using v(3) by blast
    then show "node_graph_ok s' (d n) n N'" using graph_offD(2) [OF D(1)] r v(2) by (simp add: node_graph_ok_def node_view_def)
  next
    fix x R' assume "refs s' x = Some R'"
    then obtain R where "refs s x = Some R" "ref_view R' = ref_view R" using v(5) by blast
    then show "ref_graph_ok s' R'" using graph_offD(3) [OF D(1)] v(2,4) by (simp add: ref_graph_ok_def ref_view_def)
  qed
  moreover have "mgr_ok s'" using D(2) by (simp add: mgr_ok_def r v(7))
  moreover have "handles_ok s'"
  proof (rule handles_ok_sub [OF D(3)])
    fix a A' assume "refs s' a = Some A'"
    then show "\<exists>A. refs s a = Some A \<and> ref_id A' = ref_id A" using v(5) by (auto simp: ref_view_def ref_id_def)
  qed
  moreover have "young s'" using D(4) v(8) by (simp add: young_def v(2,4,6))
  moreover have "arenas_ok s'" unfolding arenas_ok_def
  proof (intro allI impI)
    fix p P' assume "procs s' p = Some P'"
    then obtain P where P: "procs s p = Some P" "proc_view P' = proc_view P" using v(1) by blast
    then have m: "map buffer_view (p_buffers P') = map buffer_view (p_buffers P)" by (simp add: proc_view_def)
    have "map b_id (p_buffers P') = map b_id (p_buffers P)"
      using arg_cong [OF m, of "map fst"] by (simp add: comp_def buffer_view_def)
    then have "b_id ` set (p_buffers P') = b_id ` set (p_buffers P)" by (metis list.set_map)
    moreover have "\<forall>x \<in> b_id ` set (p_buffers P). x < clock s'" using D(5) P(1) v(8) by (fastforce simp: arenas_ok_def)
    ultimately have "\<forall>b \<in> set (p_buffers P'). b_id b < clock s'" by blast
    moreover have "proc_arena_ok P'"
      using D(5) P m by (simp add: arenas_ok_def proc_arena_ok_def proc_view_def arena_ok_view [OF m])
    ultimately show "proc_arena_ok P' \<and> (\<forall>b \<in> set (p_buffers P'). b_id b < clock s')" by simp
  qed
  moreover have "\<forall>p. procs s' p = None \<longleftrightarrow> A p = None" using kernel_offD(7) [OF inv] v(2) by simp
  ultimately show ?thesis using r(5) D(6) by (simp add: kernel_off_def)
qed

section \<open>What does not touch it\<close>

lemma buffer_view_fields [simp]:
  "buffer_view (b_transaction_update f1 B) = buffer_view B" "buffer_view (b_allow_user_free_update f2 B) = buffer_view B"
  "buffer_view (b_target_node_update f3 B) = buffer_view B" "buffer_view (b_kdata_update f4 B) = buffer_view B"
  "buffer_view (b_kdata_size_update f5 B) = buffer_view B"
  by (simp_all add: buffer_view_def)

named_theorems keeps \<open>an operation keeps the invariant\<close>

lemma core_same: "core s' = core s \<Longrightarrow> same s s'"
proof -
  assume c: "core s' = core s"
  note f = core_fields [OF c]
  have "map_option proc_view (procs s' p) = map_option proc_view (procs s p)" for p
  proof -
    have pv: "proc_view P' = proc_view P" if "proc_core P' = proc_core P" for P P'
    proof -
      have "p_buffers (proc_core P') = p_buffers (proc_core P)" using that by simp
      from arg_cong [OF this, of "map buffer_view"] have "map buffer_view (p_buffers P') = map buffer_view (p_buffers P)"
        by (simp add: proc_core_def comp_def)
      then show ?thesis using proc_coreD [OF that] by (simp add: proc_view_def)
    qed
    show ?thesis using f(4) [of p] by (cases "procs s' p"; cases "procs s p") (auto intro: pv)
  qed
  moreover have "map_option node_view (nodes s' n) = map_option node_view (nodes s n)" for n
    using f(5) [of n] by (cases "nodes s' n"; cases "nodes s n") (auto simp: node_view_def intro: node_coreD)
  ultimately show "same s s'" using f(1-3) by (simp add: same_def)
qed

lemma same_refl [simp]: "same s s"
  by (simp add: same_def)

lemma same_trans: "same s s1 \<Longrightarrow> same s1 s2 \<Longrightarrow> same s s2"
  by (auto simp: same_def)

lemma same_upd_death: "upd_death e f s = Some s' \<Longrightarrow> same s s'"
  by (auto simp: upd_death_def same_def bind_eq_Some_conv)

lemma same_upd_ref: "upd_ref r (r_death_update f) (s\<lparr>deaths := ds\<rparr>) = Some s' \<Longrightarrow> same s s'"
  by (auto simp: upd_ref_def same_def ref_view_def bind_eq_Some_conv)

lemma kernel_core: "core s' = core s \<Longrightarrow> kernel_off A d s \<Longrightarrow> kernel_off A d s'"
  by (rule kernel_same [OF core_same])

lemma kernel_frame [simp]:
  "kernel_off A d (s\<lparr>threads := a1\<rparr>) = kernel_off A d s" "kernel_off A d (s\<lparr>deaths := a2\<rparr>) = kernel_off A d s"
  "kernel_off A d (s\<lparr>txns := a3\<rparr>) = kernel_off A d s" "kernel_off A d (s\<lparr>completes := a4\<rparr>) = kernel_off A d s"
  "kernel_off A d (s\<lparr>trace := a5\<rparr>) = kernel_off A d s" "kernel_off A d (s\<lparr>last_debug_id := a6\<rparr>) = kernel_off A d s"
  "kernel_off A d (s\<lparr>stat_procs := i\<rparr>) = kernel_off A d s" "kernel_off A d (s\<lparr>stat_threads := i\<rparr>) = kernel_off A d s"
  "kernel_off A d (s\<lparr>stat_nodes := i\<rparr>) = kernel_off A d s" "kernel_off A d (s\<lparr>stat_refs := i\<rparr>) = kernel_off A d s"
  "kernel_off A d (s\<lparr>stat_transactions := i\<rparr>) = kernel_off A d s" "kernel_off A d (s\<lparr>stat_arena_bytes := i\<rparr>) = kernel_off A d s"
  "kernel_off A d (s\<lparr>stat_kdata_bytes := i\<rparr>) = kernel_off A d s" "kernel_off A d (s\<lparr>stat_failed_transactions := i\<rparr>) = kernel_off A d s"
  "kernel_off A d (emit e s) = kernel_off A d s" "kernel_off A d (binder_wake ch s) = kernel_off A d s"
  by (rule iffI; erule kernel_same [rotated]; simp add: same_def emit_def binder_wake_def)+

lemma kernel_clock [simp]: "kernel_off A d s \<Longrightarrow> kernel_off A d (s\<lparr>clock := Suc (clock s)\<rparr>)"
  by (erule kernel_same [rotated]) (simp add: same_def)

lemma kernel_context:
  "kernel_off A d s \<Longrightarrow> (\<And>C. c_mgr_node (f C) = c_mgr_node C) \<Longrightarrow> kernel_off A d (upd_context c f s)"
  by (erule kernel_same [rotated]) (simp add: same_def upd_context_def)

lemma kernel_upd [keeps]:
  "upd_thread t f1 s = Some s' \<Longrightarrow> kernel_off A d s \<Longrightarrow> kernel_off A d s'"
  "upd_txn x f2 s = Some s' \<Longrightarrow> kernel_off A d s \<Longrightarrow> kernel_off A d s'"
  "upd_death e f3 s = Some s' \<Longrightarrow> kernel_off A d s \<Longrightarrow> kernel_off A d s'"
  "upd_complete c f4 s = Some s' \<Longrightarrow> kernel_off A d s \<Longrightarrow> kernel_off A d s'"
  by (auto simp: upd_defs bind_eq_Some_conv)

lemma kernel_upd_proc:
  "upd_proc p f s = Some s' \<Longrightarrow> kernel_off A d s \<Longrightarrow> (\<And>P. proc_view (f P) = proc_view P) \<Longrightarrow> kernel_off A d s'"
  by (erule kernel_same [rotated]) (auto simp: same_def upd_proc_def bind_eq_Some_conv)

lemma kernel_upd_node:
  "upd_node n f s = Some s' \<Longrightarrow> kernel_off A d s \<Longrightarrow> (\<And>N. node_view (f N) = node_view N) \<Longrightarrow> kernel_off A d s'"
  by (erule kernel_same [rotated]) (auto simp: same_def upd_node_def bind_eq_Some_conv)

lemma kernel_upd_ref:
  "upd_ref r f s = Some s' \<Longrightarrow> kernel_off A d s \<Longrightarrow> (\<And>R. ref_view (f R) = ref_view R) \<Longrightarrow> kernel_off A d s'"
  by (erule kernel_same [rotated]) (auto simp: same_def upd_ref_def bind_eq_Some_conv)

lemma kernel_upd_buffer:
  assumes "upd_buffer p b f s = Some s'" and "kernel_off A d s" and "\<And>B. buffer_view (f B) = buffer_view B"
  shows "kernel_off A d s'"
proof -
  have "buffer_view \<circ> (\<lambda>B. if b_id B = b then f B else B) = buffer_view" using assms(3) by auto
  then show ?thesis
    using assms(1,2) by (auto simp: upd_buffer_def proc_view_def bind_eq_Some_conv elim!: kernel_upd_proc)
qed

lemma kernel_proc_fields [keeps]:
  "upd_proc p (p_threads_update f1) s = Some s' \<Longrightarrow> kernel_off A d s \<Longrightarrow> kernel_off A d s'"
  "upd_proc p (p_max_threads_update f2) s = Some s' \<Longrightarrow> kernel_off A d s \<Longrightarrow> kernel_off A d s'"
  "upd_proc p (p_requested_threads_update f3) s = Some s' \<Longrightarrow> kernel_off A d s \<Longrightarrow> kernel_off A d s'"
  "upd_proc p (p_ready_threads_update f4) s = Some s' \<Longrightarrow> kernel_off A d s \<Longrightarrow> kernel_off A d s'"
  "upd_proc p (p_is_dead_update f5) s = Some s' \<Longrightarrow> kernel_off A d s \<Longrightarrow> kernel_off A d s'"
  "upd_proc p (p_sel_recorded_update f6) s = Some s' \<Longrightarrow> kernel_off A d s \<Longrightarrow> kernel_off A d s'"
  "upd_proc p (p_oneway_spam_detection_update f7) s = Some s' \<Longrightarrow> kernel_off A d s \<Longrightarrow> kernel_off A d s'"
  "upd_proc p (p_last_error_update f8) s = Some s' \<Longrightarrow> kernel_off A d s \<Longrightarrow> kernel_off A d s'"
  "upd_proc p (\<lambda>P. P\<lparr>p_requested_threads := i, p_requested_threads_started := j\<rparr>) s = Some s' \<Longrightarrow> kernel_off A d s \<Longrightarrow> kernel_off A d s'"
  by (erule (1) kernel_upd_proc, simp add: proc_view_def)+

lemma kernel_node_fields [keeps]:
  "upd_node n (n_tmp_refs_update f1) s = Some s' \<Longrightarrow> kernel_off A d s \<Longrightarrow> kernel_off A d s'"
  "upd_node n (n_has_async_transaction_update f2) s = Some s' \<Longrightarrow> kernel_off A d s \<Longrightarrow> kernel_off A d s'"
  "upd_node n (n_pending_strong_ref_update f3) s = Some s' \<Longrightarrow> kernel_off A d s \<Longrightarrow> kernel_off A d s'"
  "upd_node n (n_pending_weak_ref_update f4) s = Some s' \<Longrightarrow> kernel_off A d s \<Longrightarrow> kernel_off A d s'"
  "upd_node n (record_news cmd) s = Some s' \<Longrightarrow> kernel_off A d s \<Longrightarrow> kernel_off A d s'"
  "upd_ref r (r_death_update f5) s = Some s' \<Longrightarrow> kernel_off A d s \<Longrightarrow> kernel_off A d s'"
  by ((erule (1) kernel_upd_node kernel_upd_ref, simp add: node_view_def ref_view_def record_news_def)+)

lemma kernel_work [keeps]:
  "binder_queue_insert q w h s = Some s' \<Longrightarrow> kernel_off A d s \<Longrightarrow> kernel_off A d s'"
  "binder_enqueue_work p w s = Some s' \<Longrightarrow> kernel_off A d s \<Longrightarrow> kernel_off A d s'"
  "binder_enqueue_thread_work t w s = Some s' \<Longrightarrow> kernel_off A d s \<Longrightarrow> kernel_off A d s'"
  "binder_dequeue_work w s = Some s' \<Longrightarrow> kernel_off A d s \<Longrightarrow> kernel_off A d s'"
  "binder_wakeup_proc p s = Some s' \<Longrightarrow> kernel_off A d s \<Longrightarrow> kernel_off A d s'"
  "binder_wakeup_thread t s = Some s' \<Longrightarrow> kernel_off A d s \<Longrightarrow> kernel_off A d s'"
  "pop_stack th x y s = Some s' \<Longrightarrow> kernel_off A d s \<Longrightarrow> kernel_off A d s'"
  "binder_free_transaction z s = Some s' \<Longrightarrow> kernel_off A d s \<Longrightarrow> kernel_off A d s'"
  "async_drain ws s = Some s' \<Longrightarrow> kernel_off A d s \<Longrightarrow> kernel_off A d s'"
  "binder_node_notify_owner n th s = Some s' \<Longrightarrow> kernel_off A d s \<Longrightarrow> kernel_off A d s'"
  "upd_queue q g s = Some s' \<Longrightarrow> kernel_off A d s \<Longrightarrow> kernel_off A d s'"
  "upd_work w (w_queue_update k) s = Some s' \<Longrightarrow> kernel_off A d s \<Longrightarrow> kernel_off A d s'"
  by (auto simp: binder_enqueue_work_def binder_enqueue_thread_work_def elim!: kernel_core [rotated]
      dest!: core_insert core_dequeue core_wakeup_proc core_wakeup_thread core_pop_stack core_free_transaction core_async_drain
        core_notify_owner core_upd_queue core_upd_work_queue)

lemma kernel_services [keeps]:
  "binder_alloc_mem K z s = (a, s') \<Longrightarrow> kernel_off A d s \<Longrightarrow> kernel_off A d s'"
  "binder_copyin K u n s = (bs, s') \<Longrightarrow> kernel_off A d s \<Longrightarrow> kernel_off A d s'"
  "binder_copyout K u out s = (ok, s') \<Longrightarrow> kernel_off A d s \<Longrightarrow> kernel_off A d s'"
  "binder_next_debug_id s = (i, s') \<Longrightarrow> kernel_off A d s \<Longrightarrow> kernel_off A d s'"
  by (auto simp: binder_alloc_mem_def binder_copyin_def binder_copyout_def binder_next_debug_id_def split: if_splits)

section \<open>Objects and handles\<close>

lemma young_less: "young s \<Longrightarrow> refs s a = Some R \<Longrightarrow> a < clock s" "young s \<Longrightarrow> nodes s a = Some N \<Longrightarrow> a < clock s"
  "young s \<Longrightarrow> procs s a = Some P \<Longrightarrow> a < clock s"
  by (auto simp: young_def linorder_not_le [symmetric])

lemma context_of_view:
  assumes "\<And>p. map_option (\<lambda>P. (p_context P, f P)) (procs s' p) = map_option (\<lambda>P. (p_context P, f P)) (procs s p)"
  shows "context_of s' = context_of s"
proof
  fix p
  show "context_of s' p = context_of s p"
    using assms [of p] by (cases "procs s p"; cases "procs s' p") (auto simp: context_of_def)
qed

lemma kernel_rest:
  assumes inv: "kernel_off A d s" and g: "graph_off d' s'" "mgr_ok s'" "handles_ok s'"
    and pr: "\<And>p. map_option (\<lambda>P. (p_context P, p_arena_addr P, p_arena_size P, p_buffers P)) (procs s' p) =
      map_option (\<lambda>P. (p_context P, p_arena_addr P, p_arena_size P, p_buffers P)) (procs s p)"
    and c: "clock s \<le> clock s'"
    and new: "\<And>a R. refs s' a = Some R \<Longrightarrow> a < clock s'" "\<And>a N. nodes s' a = Some N \<Longrightarrow> a < clock s'"
  shows "kernel_off A d' s'"
proof -
  have old: "\<exists>P. procs s p = Some P \<and> p_arena_addr P' = p_arena_addr P \<and> p_arena_size P' = p_arena_size P \<and>
      p_buffers P' = p_buffers P" if "procs s' p = Some P'" for p P'
    using pr [of p] that by (cases "procs s p") auto
  have "arenas_ok s'" unfolding arenas_ok_def
  proof (intro allI impI)
    fix p P' assume "procs s' p = Some P'"
    from old [OF this] obtain P where P: "procs s p = Some P" "p_arena_addr P' = p_arena_addr P" "p_arena_size P' = p_arena_size P"
      "p_buffers P' = p_buffers P" by blast
    then show "proc_arena_ok P' \<and> (\<forall>b \<in> set (p_buffers P'). b_id b < clock s')"
      using kernel_offD(5) [OF inv] c by (fastforce simp: arenas_ok_def proc_arena_ok_def)
  qed
  moreover have "procs s' a = None" if "clock s' \<le> a" for a
  proof -
    have "procs s a = None" using kernel_offD(4) [OF inv] that c by (simp add: young_def)
    then show ?thesis using pr [of a] by simp
  qed
  then have "young s'"
    unfolding young_def using new by (metis linorder_not_less not_None_eq)
  moreover have "context_of s' = A"
    using kernel_offD(6) [OF inv] context_of_view [OF pr] by simp
  moreover have "\<forall>p. procs s' p = None \<longleftrightarrow> A p = None"
  proof
    fix p
    show "procs s' p = None \<longleftrightarrow> A p = None" using kernel_offD(7) [OF inv, of p] pr [of p] by (cases "procs s p") auto
  qed
  ultimately show ?thesis using g by (simp add: kernel_off_def)
qed

lemma kernel_unlink:
  assumes inv: "kernel_off A d s" and N: "nodes s n = Some N" "n_refs N = []"
  shows "kernel_off A d (unlink_node n N s)"
proof (rule kernel_rest [OF inv])
  note D = kernel_offD [OF inv]
  show "graph_off d (unlink_node n N s)" by (rule graph_off_free_node [OF D(1) N]) (rule unlink_node_frame)+
  show "mgr_ok (unlink_node n N s)" using shrinksD(6) [OF unlink_shrinks [OF N(1)] D(2)] .
  show "handles_ok (unlink_node n N s)" by (rule handles_ok_frame [OF _ D(3)]) (simp add: unlink_node_frame)
  show "map_option (\<lambda>P. (p_context P, p_arena_addr P, p_arena_size P, p_buffers P)) (procs (unlink_node n N s) p) =
      map_option (\<lambda>P. (p_context P, p_arena_addr P, p_arena_size P, p_buffers P)) (procs s p)" for p
    by (auto simp: unlink_node_frame option.map_comp comp_def split: option.split)
  show "refs (unlink_node n N s) a = Some R \<Longrightarrow> a < clock (unlink_node n N s)" for a R
    using young_less(1) [OF D(4)] by (simp add: unlink_node_frame)
  show "nodes (unlink_node n N s) a = Some M \<Longrightarrow> a < clock (unlink_node n N s)" for a M
    using young_less(2) [OF D(4)] by (simp add: unlink_node_frame split: if_splits)
qed (simp add: unlink_node_frame)

lemma kernel_maybe_free [keeps]:
  assumes op: "binder_node_maybe_free n s = Some s'" and inv: "kernel_off A d s"
  shows "kernel_off A d s'"
proof -
  obtain N where N: "nodes s n = Some N" using op by (auto simp: binder_node_maybe_free_def bind_eq_Some_conv)
  have own: "procs s p \<noteq> None" if "n_proc N = Some p" for p
    using graph_offD(2) [OF kernel_offD(1) [OF inv] N] that by (auto simp: node_graph_ok_def)
  show ?thesis
  proof (cases "reclaimable N")
    case False
    then show ?thesis using op inv maybe_free_eq [OF N own] by simp
  next
    case True
    then obtain s1 where s1: "async_drain (n_async_todo N) s = Some s1" "s' = unlink_node n N s1"
      using op maybe_free_eq [OF N own] by auto
    have c: "core s1 = core s" by (rule core_async_drain [OF s1(1)])
    obtain M where M: "nodes s1 n = Some M" "node_core N = node_core M"
      using core_nodeD [OF c [symmetric] N] by blast
    have "n_refs N = []" using True by (auto simp: reclaimable_def binder_node_has_weak_def)
    then have "n_refs M = []" using node_coreD(1) [OF M(2)] by simp
    from kernel_unlink [OF kernel_core [OF c inv] M(1) this]
    show ?thesis using s1(2) unlink_node_cong [OF node_coreD(2) [OF M(2)]] by simp
  qed
qed

lemma kernel_node_put:
  assumes inv: "kernel_off A d s" and N: "nodes s n = Some N" "n_proc N' = n_proc N"
    and g: "graph_off d' (s\<lparr>nodes := (nodes s)(n \<mapsto> N')\<rparr>)"
  shows "kernel_off A d' (s\<lparr>nodes := (nodes s)(n \<mapsto> N')\<rparr>)"
proof (rule kernel_rest [OF inv g])
  note D = kernel_offD [OF inv]
  have "owner_of (s\<lparr>nodes := (nodes s)(n \<mapsto> N')\<rparr>) = owner_of s" using N by (auto simp: owner_of_def)
  then show "mgr_ok (s\<lparr>nodes := (nodes s)(n \<mapsto> N')\<rparr>)" using D(2) by (simp add: mgr_ok_def context_of_def)
  show "handles_ok (s\<lparr>nodes := (nodes s)(n \<mapsto> N')\<rparr>)" by (rule handles_ok_frame [OF _ D(3)]) simp
qed (use young_less [OF kernel_offD(4) [OF inv]] N(1) in \<open>auto split: if_splits\<close>)

lemma kernel_count:
  assumes inv: "kernel_off A d s" and N: "nodes s n = Some N" and c: "count_refs st inc itn N = Some (OK, N')"
  shows "kernel_off A (d(n := d n + strong_delta st inc itn)) (s\<lparr>nodes := (nodes s)(n \<mapsto> N')\<rparr>)"
proof -
  have ok: "node_graph_ok s (d n) n N" by (rule graph_offD(2) [OF kernel_offD(1) [OF inv] N])
  then have "0 \<le> n_local_strong_refs N" "0 \<le> n_local_weak_refs N" by (auto simp: node_graph_ok_def)
  note eff = count_refs_effect [OF c this]
  have id: "n_refs N' = n_refs N" "n_proc N' = n_proc N" by (subst eff(1), simp)+
  show ?thesis
    by (rule kernel_node_put [OF inv N id(2)])
      (rule graph_off_count [OF kernel_offD(1) [OF inv] N _ _ _ id eff(2-4)], simp_all)
qed

lemma kernel_update_refs:
  assumes op: "binder_node_update_refs n st inc itn th s = Some (e, s')" and inv: "kernel_off A d s"
  shows "if e = OK then kernel_off A (d(n := d n + strong_delta st inc itn)) s' else s' = s"
proof -
  obtain N N' where N: "nodes s n = Some N" "count_refs st inc itn N = Some (e, N')"
    using op by (auto simp: binder_node_update_refs_def bind_eq_Some_conv split: if_splits)
  show ?thesis
  proof (cases "e = OK")
    case False
    then show ?thesis using op N by (auto simp: binder_node_update_refs_def)
  next
    case True
    note k = kernel_count [OF inv N(1) N(2) [unfolded True]]
    show ?thesis using op N True k
      by (auto simp: binder_node_update_refs_def upd_node_def bind_eq_Some_conv split: if_splits elim!: keeps)
  qed
qed

lemma kernel_update_local [keeps]:
  assumes "binder_node_update_refs n st inc False th s = Some (e, s')" and "kernel_off A d s"
  shows "kernel_off A d s'"
  using kernel_update_refs [OF assms] assms(2) by (simp add: strong_delta_def split: if_splits)

lemma refs_maybe_free:
  assumes op: "binder_node_maybe_free n s = Some s'" and inv: "kernel_off A d s"
  shows "refs s' = refs s"
proof -
  obtain N where N: "nodes s n = Some N" using op by (auto simp: binder_node_maybe_free_def bind_eq_Some_conv)
  have "procs s p \<noteq> None" if "n_proc N = Some p" for p
    using graph_offD(2) [OF kernel_offD(1) [OF inv] N] that by (auto simp: node_graph_ok_def)
  then show ?thesis using op maybe_free_eq [OF N]
    by (auto simp: unlink_node_frame split: if_splits dest!: core_async_drain core_fields(1))
qed

lemma refs_update_refs:
  assumes op: "binder_node_update_refs n st inc itn th s = Some (e, s')" and inv: "kernel_off A d s"
  shows "refs s' = refs s"
proof (cases "e = OK")
  case False
  then show ?thesis using kernel_update_refs [OF op inv] by simp
next
  case True
  then obtain N N' s1 where N: "nodes s n = Some N" "count_refs st inc itn N = Some (OK, N')"
      "core s1 = core (s\<lparr>nodes := (nodes s)(n \<mapsto> N')\<rparr>)" "binder_node_maybe_free n s1 = Some s'"
    using op by (auto simp: binder_node_update_refs_def upd_node_def bind_eq_Some_conv split: if_splits dest!: core_notify_owner)
  show ?thesis
    using refs_maybe_free [OF N(4) kernel_core [OF N(3) kernel_count [OF inv N(1,2)]]] core_fields(1) [OF N(3)] by simp
qed

lemma held_strong:
  assumes "kernel_off A d s" and "nodes s n = Some N" and "0 < d n"
  shows "\<exists>N'. count_refs True False True N = Some (OK, N')"
proof -
  have "node_graph_ok s (d n) n N" by (rule graph_offD(2) [OF kernel_offD(1) [OF assms(1)] assms(2)])
  then have "0 < n_internal_strong_refs N" using assms(3) by (simp add: node_graph_ok_def)
  then show ?thesis by (simp add: count_refs_def int_dec_eq)
qed

lemma update_refs_lets_go:
  assumes op: "binder_node_update_refs n True False True th s = Some (e, s')" and inv: "kernel_off A d s" and d: "0 < d n"
  shows "kernel_off A (d(n := d n - 1)) s'"
proof -
  obtain N N' where N: "nodes s n = Some N" "count_refs True False True N = Some (e, N')"
    using op by (auto simp: binder_node_update_refs_def bind_eq_Some_conv split: if_splits)
  then have "e = OK" using held_strong [of A d s n N] inv d by auto
  then show ?thesis using kernel_update_refs [OF op inv] by (simp add: strong_delta_def)
qed

lemma ref_links:
  assumes inv: "kernel_off A d s" and R: "refs s r = Some R"
  obtains n N P where "r_node R = Some n" "nodes s n = Some N" "procs s (r_proc R) = Some P" "0 \<le> r_strong R" "0 \<le> r_weak R"
  using graph_offD(3) [OF kernel_offD(1) [OF inv] R] by (auto simp: ref_graph_ok_def)

lemma kernel_remove_ref:
  assumes inv: "kernel_off A d s" and R: "refs s r = Some R" "r_node R = Some n"
    and P: "procs s (r_proc R) = Some P" and N: "nodes s n = Some N"
    and s': "s' = s\<lparr>procs := (procs s)(r_proc R \<mapsto> p_refs_update (remove1 r) P),
       nodes := (nodes s)(n \<mapsto> n_refs_update (remove1 r) N),
       refs := (refs s)(r := None), stat_refs := k\<rparr>"
  shows "kernel_off A (d(n := d n + of_bool (0 < r_strong R))) s'"
proof (rule kernel_rest [OF inv])
  note D = kernel_offD [OF inv]
  show "graph_off (d(n := d n + of_bool (0 < r_strong R))) s'"
    by (rule graph_off_remove_ref [OF D(1) R P N]) (simp_all add: s')
  have "owner_of s' = owner_of s" "context_of s' = context_of s"
    using N P by (auto simp: owner_of_def context_of_def s')
  then show "mgr_ok s'" using D(2) by (simp add: mgr_ok_def s')
  show "handles_ok s'" by (rule handles_ok_sub [OF D(3)]) (simp add: s' split: if_splits)
qed (use young_less [OF kernel_offD(4) [OF inv]] P N in \<open>auto simp: s' split: if_splits\<close>)

lemma ref_delete_steps:
  assumes op: "binder_ref_delete r s = Some s'" and inv: "kernel_off A d s"
  obtains s1 s2 R1 n N P e where "same s s1" "refs s1 r = Some R1" "r_node R1 = Some n"
    "procs s1 (r_proc R1) = Some P" "nodes s1 n = Some N"
    "s2 = s1\<lparr>procs := (procs s1)(r_proc R1 \<mapsto> p_refs_update (remove1 r) P),
       nodes := (nodes s1)(n \<mapsto> n_refs_update (remove1 r) N),
       refs := (refs s1)(r := None), stat_refs := stat_refs s1 - 1\<rparr>"
    "kernel_off A (d(n := d n + of_bool (0 < r_strong R1))) s2"
    "binder_node_update_refs n (0 < r_strong R1) False True None s2 = Some (e, s')"
proof -
  obtain R where R: "refs s r = Some R" using op by (auto simp: binder_ref_delete_def bind_eq_Some_conv)
  obtain s1 where s1: "(case r_death R of
             None \<Rightarrow> Some s
           | Some d \<Rightarrow> do {
               s \<leftarrow> binder_dequeue_work (DeathWork d) s;
               upd_ref r (r_death_update (\<lambda>_. None)) (s\<lparr>deaths := (deaths s)(d := None)\<rparr>) }) = Some s1"
    using op R by (auto simp: binder_ref_delete_def bind_eq_Some_conv Let_def)
  have sm: "same s s1"
    using s1 by (auto simp: bind_eq_Some_conv split: option.splits dest!: core_dequeue [THEN core_same] same_upd_ref intro: same_trans)
  have k1: "kernel_off A d s1" by (rule kernel_same [OF sm inv])
  obtain R1 where R1: "refs s1 r = Some R1" "ref_view R1 = ref_view R"
    using s1 R by (auto simp: bind_eq_Some_conv upd_ref_def ref_view_def split: option.splits dest!: core_dequeue core_fields(1))
  obtain n N P where l: "r_node R1 = Some n" "nodes s1 n = Some N" "procs s1 (r_proc R1) = Some P"
    using ref_links [OF k1 R1(1)] by metis
  define s2 where "s2 = s1\<lparr>procs := (procs s1)(r_proc R1 \<mapsto> p_refs_update (remove1 r) P),
       nodes := (nodes s1)(n \<mapsto> n_refs_update (remove1 r) N),
       refs := (refs s1)(r := None), stat_refs := stat_refs s1 - 1\<rparr>"
  have k2: "kernel_off A (d(n := d n + of_bool (0 < r_strong R1))) s2" by (rule kernel_remove_ref [OF k1 R1(1) l(1,3,2) s2_def])
  have v: "r_proc R = r_proc R1" "r_node R = Some n" "r_strong R = r_strong R1" using R1(2) l(1) by (simp_all add: ref_view_def)
  obtain e where e: "binder_node_update_refs n (0 < r_strong R1) False True None s2 = Some (e, s')"
    using op R s1 l v by (auto simp: binder_ref_delete_def upd_proc_def upd_node_def s2_def Let_def bind_eq_Some_conv)
  show thesis by (rule that [OF sm R1(1) l(1,3,2) s2_def k2 e])
qed

lemma kernel_ref_delete:
  assumes op: "binder_ref_delete r s = Some s'" and inv: "kernel_off A d s" and d: "\<And>n. 0 \<le> d n"
  shows "kernel_off A d s'"
proof (rule ref_delete_steps [OF op inv])
  fix R1 n s2 e
  let ?d = "d(n := d n + of_bool (0 < r_strong R1))"
  assume k2: "kernel_off A ?d s2" and e: "binder_node_update_refs n (0 < r_strong R1) False True None s2 = Some (e, s')"
  show ?thesis
  proof (cases "0 < r_strong R1")
    case True
    have "0 < ?d n" using True d [of n] by simp
    from update_refs_lets_go [OF e [unfolded True [THEN eqTrueI]] k2 this]
    have "kernel_off A (?d(n := ?d n - 1)) s'" .
    moreover have "?d(n := ?d n - 1) = d" using True by (simp add: fun_eq_iff)
    ultimately show ?thesis by simp
  next
    case False
    then have f: "(0 < r_strong R1) = False" by simp
    then have "?d = d" by (simp add: fun_eq_iff)
    then show ?thesis using kernel_update_refs [OF e k2] k2 f by (simp add: strong_delta_def split: if_splits)
  qed
qed

lemma no_offset [simp]: "(\<lambda>_. 0)(n := 0) = (\<lambda>_. 0 :: int)"
  by auto

lemma kernel_ref_put:
  assumes inv: "kernel_off A d s" and R: "refs s r = Some R" "r_node R = Some n"
    and R': "ref_id R' = ref_id R" "0 \<le> r_strong R'" "0 \<le> r_weak R'"
    and d: "\<And>m. d' m = d m + (if m = n then of_bool (0 < r_strong R) - of_bool (0 < r_strong R') else 0)"
    and s': "s' = s\<lparr>refs := (refs s)(r \<mapsto> R')\<rparr>"
  shows "kernel_off A d' s'"
proof (rule kernel_rest [OF inv])
  note D = kernel_offD [OF inv]
  have "d' = d(n := d n + of_bool (0 < r_strong R) - of_bool (0 < r_strong R'))" using d by (simp add: fun_eq_iff)
  then show "graph_off d' s'"
    using graph_off_ref [OF D(1) R, of s' R'] R' by (simp add: s' ref_id_def)
  show "mgr_ok s'" using D(2) by (simp add: mgr_ok_def owner_of_def context_of_def s')
  show "handles_ok s'" by (rule handles_ok_sub [OF D(3)]) (use R R' in \<open>auto simp: s' split: if_splits\<close>)
qed (use young_less [OF kernel_offD(4) [OF inv]] R(1) in \<open>auto simp: s' split: if_splits\<close>)

lemma kernel_acquire:
  assumes inv: "kernel_inv A s" and R: "refs s r = Some R"
    and op: "(if r_strong R = 0 then do { n \<leftarrow> r_node R; binder_node_update_refs n True True True th s } else Some (OK, s)) = Some (e, s1)"
  shows "e \<noteq> OK \<Longrightarrow> s1 = s" "e = OK \<Longrightarrow> refs s1 r = Some R" "e = OK \<Longrightarrow> kernel_inv A (s1\<lparr>refs := (refs s1)(r \<mapsto> R\<lparr>r_strong := r_strong R + 1\<rparr>)\<rparr>)"
proof -
  obtain n where n: "r_node R = Some n" "0 \<le> r_strong R" "0 \<le> r_weak R" using ref_links [OF inv R] by metis
  have both: "(e \<noteq> OK \<longrightarrow> s1 = s) \<and> (e = OK \<longrightarrow> refs s1 r = Some R \<and>
      kernel_off A ((\<lambda>_. 0)(n := if r_strong R = 0 then 1 else 0)) s1)"
  proof (cases "r_strong R = 0")
    case True
    then have u: "binder_node_update_refs n True True True th s = Some (e, s1)" using op n by simp
    show ?thesis using kernel_update_refs [OF u inv] refs_update_refs [OF u inv] R True by (auto simp: strong_delta_def)
  next
    case False
    then show ?thesis using op R inv by auto
  qed
  then show "e \<noteq> OK \<Longrightarrow> s1 = s" by simp
  assume "e = OK"
  with both show k: "refs s1 r = Some R" by simp
  from \<open>e = OK\<close> both have k: "refs s1 r = Some R" "kernel_off A ((\<lambda>_. 0)(n := if r_strong R = 0 then 1 else 0)) s1" by auto
  show "kernel_inv A (s1\<lparr>refs := (refs s1)(r \<mapsto> R\<lparr>r_strong := r_strong R + 1\<rparr>)\<rparr>)"
    by (rule kernel_ref_put [OF k(2,1) n(1) _ _ _ _ refl]) (use n in \<open>auto simp: ref_id_def\<close>)
qed

lemma kernel_release:
  assumes inv: "kernel_inv A s" and R: "refs s r = Some R" "r_strong R \<noteq> 0"
    and op: "(if r_strong R - 1 = 0 then do { n \<leftarrow> r_node R; binder_node_update_refs n True False True th
        (s\<lparr>refs := (refs s)(r \<mapsto> R\<lparr>r_strong := r_strong R - 1\<rparr>)\<rparr>) }
      else Some (OK, s\<lparr>refs := (refs s)(r \<mapsto> R\<lparr>r_strong := r_strong R - 1\<rparr>)\<rparr>)) = Some (e, s1)"
  shows "kernel_inv A s1"
proof -
  obtain n where n: "r_node R = Some n" "0 \<le> r_strong R" "0 \<le> r_weak R" using ref_links [OF inv R(1)] by metis
  let ?s = "s\<lparr>refs := (refs s)(r \<mapsto> R\<lparr>r_strong := r_strong R - 1\<rparr>)\<rparr>"
  have k: "kernel_off A ((\<lambda>_. 0)(n := if r_strong R = 1 then 1 else 0)) ?s"
    by (rule kernel_ref_put [OF inv R(1) n(1) _ _ _ _ refl]) (use n R(2) in \<open>auto simp: ref_id_def\<close>)
  show ?thesis
  proof (cases "r_strong R = 1")
    case True
    then have u: "binder_node_update_refs n True False True th ?s = Some (e, s1)" using op n by simp
    have "kernel_off A ((\<lambda>_. 0)(n := 1)) ?s" using k True by simp
    from update_refs_lets_go [OF u this] show ?thesis by simp
  next
    case False
    then show ?thesis using op k by simp
  qed
qed

lemma kernel_ref_update [keeps]:
  assumes op: "binder_ref_update r strong inc th s = Some (e, s')" and inv: "kernel_inv A s"
  shows "kernel_inv A s'"
proof -
  obtain R where R: "refs s r = Some R" using op by (auto simp: binder_ref_update_def bind_eq_Some_conv)
  obtain n where n: "r_node R = Some n" "0 \<le> r_strong R" "0 \<le> r_weak R" using ref_links [OF inv R] by metis
  have weak: "kernel_inv A (s\<lparr>refs := (refs s)(r \<mapsto> R\<lparr>r_weak := i\<rparr>)\<rparr>)" if "0 \<le> i" for i
    by (rule kernel_ref_put [OF inv R n(1) _ _ _ _ refl]) (use n that in \<open>auto simp: ref_id_def\<close>)
  have "\<exists>s1. kernel_inv A s1 \<and> (s' = s1 \<or> (\<exists>r. binder_ref_delete r s1 = Some s'))"
  proof (cases strong)
    case False
    then show ?thesis
      using op R weak [of "r_weak R + 1"] weak [of "r_weak R - 1"] n inv
      by (cases inc) (auto simp: binder_ref_update_def upd_ref_def bind_eq_Some_conv split: if_splits)
  next
    case strong: True
    show ?thesis
    proof (cases inc)
      case True
      obtain e1 s1 where a: "(if r_strong R = 0 then do { n \<leftarrow> r_node R; binder_node_update_refs n True True True th s }
          else Some (OK, s)) = Some (e1, s1)"
        using op R strong True by (auto simp: binder_ref_update_def bind_eq_Some_conv)
      note k = kernel_acquire [OF inv R a]
      show ?thesis
      proof (cases "e1 = OK")
        case False
        then show ?thesis using op R strong True a k(1) inv by (auto simp: binder_ref_update_def)
      next
        case ok: True
        then show ?thesis using op R strong True a k(2,3)
          by (auto simp: binder_ref_update_def upd_ref_def bind_eq_Some_conv split: if_splits)
      qed
    next
      case False
      show ?thesis
      proof (cases "r_strong R = 0")
        case True
        then show ?thesis using op R strong False inv by (auto simp: binder_ref_update_def)
      next
        case pos: False
        then obtain e1 s1 where a: "(if r_strong R - 1 = 0 then do { n \<leftarrow> r_node R; binder_node_update_refs n True False True th
              (s\<lparr>refs := (refs s)(r \<mapsto> R\<lparr>r_strong := r_strong R - 1\<rparr>)\<rparr>) }
            else Some (OK, s\<lparr>refs := (refs s)(r \<mapsto> R\<lparr>r_strong := r_strong R - 1\<rparr>)\<rparr>)) = Some (e1, s1)"
          using op R strong False by (auto simp: binder_ref_update_def upd_ref_def bind_eq_Some_conv)
        show ?thesis using op R strong False pos a kernel_release [OF inv R pos a]
          by (auto simp: binder_ref_update_def upd_ref_def bind_eq_Some_conv split: if_splits)
      qed
    qed
  qed
  then show ?thesis using kernel_ref_delete by auto
qed

lemma next_desc_free:
  assumes g: "graph_off d s" and P: "procs s p = Some P"
  shows "next_desc_loop p desc s = Some x \<Longrightarrow> x = 0 \<or> \<not> desc_used s p x"
  using g P
proof (induction p desc s rule: next_desc_loop.induct)
  case (1 p desc s)
  obtain found where f: "binder_ref_find_by_desc p desc s = Some found"
      "case found of None \<Rightarrow> \<not> desc_used s p desc
       | Some r \<Rightarrow> \<exists>R. refs s r = Some R \<and> r_proc R = p \<and> r_desc R = desc"
    using find_by_desc_spec [OF 1(3,4)] by blast
  show ?case
  proof (cases "desc = 0 \<or> found = None")
    case True
    then show ?thesis using 1(2) f by (subst (asm) next_desc_loop.simps) (auto split: if_splits)
  next
    case False
    then have "next_desc_loop p (desc + 1) s = Some x" using 1(2) f by (subst (asm) next_desc_loop.simps) (auto split: if_splits)
    then show ?thesis using 1(1) [OF _ f(1)] False 1(3,4) by simp
  qed
qed

lemma kernel_get_for_node [keeps]:
  assumes op: "binder_ref_get_for_node K p n s = Some (found, s')" and inv: "kernel_inv A s"
  shows "kernel_inv A s'"
proof -
  note D = kernel_offD [OF inv]
  obtain P where P: "procs s p = Some P"
    using op by (auto simp: binder_ref_get_for_node_def binder_ref_find_for_node_def bind_eq_Some_conv)
  obtain old where f: "binder_ref_find_for_node p n s = Some old"
      "case old of None \<Rightarrow> \<forall>r R. refs s r = Some R \<longrightarrow> r_proc R = p \<longrightarrow> r_node R \<noteq> Some n
       | Some r \<Rightarrow> \<exists>R. refs s r = Some R \<and> r_proc R = p \<and> r_node R = Some n"
    using find_for_node_spec [OF D(1) P] by blast
  show ?thesis
  proof (cases "old = None \<and> osmalloc K (clock s) (Sizeof ''binder_ref'')")
    case False
    then show ?thesis using op f(1) inv by (auto simp: binder_ref_get_for_node_def binder_alloc_mem_def split: option.splits if_splits)
  next
    case True
    let ?c = "s\<lparr>clock := Suc (clock s)\<rparr>"
    obtain N where N: "nodes s n = Some N"
      using op f(1) True by (auto simp: binder_ref_get_for_node_def binder_alloc_mem_def binder_next_debug_id_def upd_proc_def
          upd_node_def bind_eq_Some_conv)
    obtain desc where desc: "binder_ref_next_desc p n ?c = Some desc"
      using op f(1) True by (auto simp: binder_ref_get_for_node_def binder_alloc_mem_def bind_eq_Some_conv)
    define R where "R = \<lparr>r_proc = p, r_node = Some n, r_desc = desc, r_strong = 0, r_weak = 0, r_death = None,
      r_debug_id = last_debug_id s + 1\<rparr>"
    define s1 where "s1 = s\<lparr>clock := Suc (clock s), last_debug_id := last_debug_id s + 1, refs := (refs s)(clock s \<mapsto> R),
      procs := (procs s)(p \<mapsto> p_refs_update (\<lambda>rs. clock s # rs) P), nodes := (nodes s)(n \<mapsto> n_refs_update (\<lambda>rs. clock s # rs) N)\<rparr>"
    have s': "s' = s1\<lparr>stat_refs := stat_refs s1 + 1\<rparr>"
      using op f(1) True desc P N
      by (simp add: binder_ref_get_for_node_def binder_alloc_mem_def binder_next_debug_id_def upd_proc_def upd_node_def R_def s1_def)
    have fresh: "desc = 0 \<or> \<not> desc_used s p desc"
    proof -
      have "graph_off (\<lambda>_. 0) ?c" "procs ?c p = Some P" using D(1) P by simp_all
      from next_desc_free [OF this, of 1 desc] desc P show ?thesis
        by (auto simp: binder_ref_next_desc_def bind_eq_Some_conv split: if_splits)
    qed
    have "kernel_inv A s1"
    proof (rule kernel_rest [OF inv])
      have r: "refs s (clock s) = None" using D(4) by (simp add: young_def)
      show "graph_off (\<lambda>_. 0) s1"
        by (rule graph_off_add_ref [OF D(1) r, of R n P N]) (use P N in \<open>simp_all add: R_def s1_def\<close>)
      have "owner_of s1 = owner_of s" "context_of s1 = context_of s" using N P by (auto simp: owner_of_def context_of_def s1_def)
      then show "mgr_ok s1" using D(2) by (simp add: mgr_ok_def s1_def)
      show "handles_ok s1"
        by (rule handles_ok_add [OF D(3), of _ "clock s" R])
          (use f(2) True fresh in \<open>auto simp: s1_def R_def desc_used_def\<close>)
      show "a < clock s1" if "refs s1 a = Some R'" for a R'
        using that young_less(1) [OF D(4), of a] by (auto simp: s1_def split: if_splits)
      show "a < clock s1" if "nodes s1 a = Some N'" for a N'
        using that young_less(2) [OF D(4), of a] N by (auto simp: s1_def split: if_splits)
    qed (use P in \<open>auto simp: s1_def\<close>)
    then show ?thesis by (simp add: s')
  qed
qed

lemma kernel_node_new [keeps]:
  assumes op: "binder_node_new K p ptr cookie flags s = Some (found, s')" and inv: "kernel_inv A s"
  shows "kernel_inv A s'"
proof -
  note D = kernel_offD [OF inv]
  obtain old where f: "binder_node_find p ptr s = Some old" using op by (auto simp: binder_node_new_def bind_eq_Some_conv)
  show ?thesis
  proof (cases "old = None \<and> osmalloc K (clock s) (Sizeof ''binder_node'')")
    case False
    then show ?thesis using op f inv by (auto simp: binder_node_new_def binder_alloc_mem_def split: option.splits if_splits)
  next
    case True
    obtain P where P: "procs s p = Some P" using f by (auto simp: binder_node_find_def bind_eq_Some_conv)
    define N where "N = new_node\<lparr>n_proc := Some p, n_ptr := ptr, n_cookie := cookie, n_flags := flags,
      n_accept_fds := (flags AND FLAT_BINDER_FLAG_ACCEPTS_FDS \<noteq> 0),
      n_work := new_work\<lparr>w_type := BINDER_WORK_NODE\<rparr>, n_debug_id := last_debug_id s + 1\<rparr>"
    define s1 where "s1 = s\<lparr>clock := Suc (clock s), last_debug_id := last_debug_id s + 1,
      nodes := (nodes s)(clock s \<mapsto> N), procs := (procs s)(p \<mapsto> p_nodes_update (\<lambda>ns. clock s # ns) P)\<rparr>"
    have s': "s' = s1\<lparr>stat_nodes := stat_nodes s1 + 1\<rparr>"
      using op f True P
      by (simp add: binder_node_new_def binder_alloc_mem_def binder_next_debug_id_def upd_proc_def N_def s1_def)
    have n: "nodes s (clock s) = None" using D(4) by (simp add: young_def)
    have "kernel_inv A s1"
    proof (rule kernel_rest [OF inv])
      show "graph_off (\<lambda>_. 0) s1"
        by (rule graph_off_add_node [OF D(1) n _ P, of N]) (simp_all add: N_def new_node_def s1_def)
      have "owner_of s1 m = Some q" if "owner_of s m = Some q" for m q using that n by (auto simp: owner_of_def s1_def)
      moreover have "context_of s1 = context_of s" using P by (auto simp: context_of_def s1_def)
      ultimately show "mgr_ok s1" using D(2) by (fastforce simp: mgr_ok_def s1_def)
      show "handles_ok s1" by (rule handles_ok_frame [OF _ D(3)]) (simp add: s1_def)
      show "a < clock s1" if "refs s1 a = Some R'" for a R'
        using that young_less(1) [OF D(4), of a] by (auto simp: s1_def)
      show "a < clock s1" if "nodes s1 a = Some N'" for a N'
        using that young_less(2) [OF D(4), of a] by (auto simp: s1_def split: if_splits)
    qed (use P in \<open>auto simp: s1_def\<close>)
    then show ?thesis by (simp add: s')
  qed
qed

section \<open>Arenas\<close>

lemma kernel_arena:
  assumes inv: "kernel_off A d s" and P: "procs s p = Some P"
    and s': "procs s' = (procs s)(p \<mapsto> P')" "nodes s' = nodes s" "refs s' = refs s" "contexts s' = contexts s" "clock s \<le> clock s'"
    and P': "p_nodes P' = p_nodes P" "p_refs P' = p_refs P" "p_context P' = p_context P"
    and a: "arena_inv p s'"
  shows "kernel_off A d s'"
proof -
  note D = kernel_offD [OF inv]
  have "graph_off d s'"
    by (rule graph_off_procs [OF D(1) s'(2,3)]) (use P in \<open>simp add: s'(1) P'\<close>)
  moreover have "owner_of s' = owner_of s" "context_of s' = context_of s"
    using P by (auto simp: owner_of_def context_of_def s' P')
  then have "mgr_ok s'" using D(2) by (simp add: mgr_ok_def s'(4))
  moreover have "handles_ok s'" by (rule handles_ok_frame [OF s'(3) D(3)])
  moreover have "young s'" using D(4) s'(5) P young_less(3) [OF D(4) P] by (auto simp: young_def s'(1-3))
  moreover have "arenas_ok s'" using D(5) s'(5) a by (fastforce simp: arenas_ok_def arena_inv_def s'(1))
  moreover have "context_of s' = context_of s" using P by (auto simp: context_of_def s' P')
  moreover have "\<forall>p. procs s' p = None \<longleftrightarrow> A p = None" using kernel_offD(7) [OF inv] kernel_offD(7) [OF inv, of p] P by (simp add: s'(1))
  ultimately show ?thesis using D(6) by (simp add: kernel_off_def)
qed

lemma kernel_arena_inv: "kernel_off A d s \<Longrightarrow> procs s p = Some P \<Longrightarrow> arena_inv p s"
  using kernel_offD(5) [of A d s] by (auto simp: arenas_ok_def arena_inv_def)

lemma kernel_buffer_alloc [keeps]:
  assumes op: "binder_buffer_alloc K p ds os es a s = Some (r, s')" and inv: "kernel_off A d s"
  shows "kernel_off A d s'"
proof -
  obtain P where P: "procs s p = Some P" using op by (auto simp: binder_buffer_alloc_def bind_eq_Some_conv)
  have a: "arena_inv p s'" by (rule binder_buffer_alloc_inv [OF op kernel_arena_inv [OF inv P]])
  have frame: "nodes s' = nodes s \<and> refs s' = refs s \<and> contexts s' = contexts s"
    using op by (auto simp: binder_buffer_alloc_def binder_alloc_mem_def binder_next_debug_id_def upd_proc_def Let_def bind_eq_Some_conv
        split: if_splits option.splits)
  from op P show ?thesis
  proof (cases rule: binder_buffer_alloc_cases)
    case fail
    then have "same s s'" using frame by (simp add: same_def)
    then show ?thesis using inv by (rule kernel_same)
  next
    case (whole pre buf post)
    show ?thesis by (rule kernel_arena [OF inv P whole(10) _ _ _ _ _ _ _ a]) (use frame whole in auto)
  next
    case (split pre buf post dbg)
    show ?thesis by (rule kernel_arena [OF inv P split(10) _ _ _ _ _ _ _ a]) (use frame split in auto)
  qed
qed

lemma kernel_buffer_free [keeps]:
  assumes op: "binder_buffer_free p b s = Some s'" and inv: "kernel_off A d s"
  shows "kernel_off A d s'"
proof -
  obtain P pre B post where P: "procs s p = Some P" "split_find (\<lambda>B. b_id B = b) (p_buffers P) = Some (pre, B, post)"
    using op by (auto simp: binder_buffer_free_def bind_eq_Some_conv)
  from split_find_Some [OF P(2)] have B: "p_buffers P = pre @ B # post" "b_id B = b" by auto
  show ?thesis
  proof (cases "b_free B")
    case True
    then show ?thesis using op P inv by (simp add: binder_buffer_free_def)
  next
    case False
    have ai: "arena_inv p s" by (rule kernel_arena_inv [OF inv P(1)])
    have "B \<in> arena_live p s" using P B False by (simp add: arena_live_def live_buffers_def)
    from binder_buffer_free_spec [OF ai this] have a: "arena_inv p s'" "clock s' = clock s" using op B by auto
    obtain P' where P': "procs s' = (procs s)(p \<mapsto> P')" "p_nodes P' = p_nodes P" "p_refs P' = p_refs P" "p_context P' = p_context P"
        "nodes s' = nodes s" "refs s' = refs s" "contexts s' = contexts s"
      using op P False by (auto simp: binder_buffer_free_def upd_proc_def Let_def bind_eq_Some_conv split: if_splits)
    show ?thesis by (rule kernel_arena [OF inv P(1) P'(1) _ _ _ _ _ _ _ a(1)]) (use P' a in auto)
  qed
qed

definition page_ok :: "kpi \<Rightarrow> bool" where
  "page_ok K \<longleftrightarrow> page_size K = 4096 \<or> page_size K = 16384"

lemma kernel_register [keeps]:
  assumes op: "binder_arena_register K p ua sz s = Some (r, s')" and inv: "kernel_off A d s" and K: "page_ok K"
  shows "kernel_off A d s'"
proof -
  obtain P where P: "procs s p = Some P" using op by (auto simp: binder_arena_register_def bind_eq_Some_conv)
  show ?thesis
  proof (cases "r = OK")
    case False
    then show ?thesis using op inv by (auto simp: binder_arena_register_def binder_alloc_mem_def Let_def binder_next_debug_id_def
        upd_proc_def bind_eq_Some_conv split: if_splits)
  next
    case True
    then have new: "p_arena_size P = 0" using op P by (auto simp: binder_arena_register_def split: if_splits)
    have a: "arena_inv p s'" using register_ok [OF P new K [unfolded page_ok_def] op] True by simp
    obtain P' where P': "procs s' = (procs s)(p \<mapsto> P')" "p_nodes P' = p_nodes P" "p_refs P' = p_refs P" "p_context P' = p_context P"
        "nodes s' = nodes s" "refs s' = refs s" "contexts s' = contexts s" "clock s \<le> clock s'"
      using op P True by (auto simp: binder_arena_register_def binder_alloc_mem_def Let_def binder_next_debug_id_def
        upd_proc_def bind_eq_Some_conv split: if_splits)
    show ?thesis by (rule kernel_arena [OF inv P P'(1) _ _ _ _ _ _ _ a]) (use P' in auto)
  qed
qed

lemma kernel_teardown [keeps]:
  assumes op: "binder_arena_teardown p s = Some s'" and inv: "kernel_off A d s"
  shows "kernel_off A d s'"
proof -
  obtain P where P: "procs s p = Some P" using op by (auto simp: binder_arena_teardown_def bind_eq_Some_conv)
  let ?P = "P\<lparr>p_buffers := [], p_arena_addr := 0, p_arena_size := 0, p_free_async_space := 0\<rparr>"
  have "procs s' = (procs s)(p \<mapsto> ?P) \<and> nodes s' = nodes s \<and> refs s' = refs s \<and> contexts s' = contexts s \<and> clock s' = clock s"
    using op P by (cases "p_arena_size P = 0") (auto simp: binder_arena_teardown_def upd_proc_def Let_def)
  then have s': "procs s' = (procs s)(p \<mapsto> ?P)" "nodes s' = nodes s" "refs s' = refs s" "contexts s' = contexts s" "clock s' = clock s"
    by auto
  have "arena_inv p s'" by (simp add: arena_inv_def s' proc_arena_ok_def arena_ok_def)
  then show ?thesis by (intro kernel_arena [OF inv P s'(1)]) (simp_all add: s')
qed

end
