(* ===== verification/Binder_Keeps.thy ===== *)
theory Binder_Keeps
  imports Binder_Invariant Binder_RW
begin

text \<open>
  The invariant of the whole driver through its clients' commands: transactions and their objects
  (\<^verbatim>\<open>kext/binder_txn.c\<close>), the write loop and the read loop, and the exit of a thread
  (\<^verbatim>\<open>kext/binder_proc.c\<close>). Each lemma says that one operation keeps the invariant whenever it is
  defined; \<open>runE\<close> takes a program of the option monad apart and the collection \<open>keeps\<close> discharges its calls.
\<close>

section \<open>Running a program of the option monad\<close>

lemma runE:
  "(m \<bind> f) = Some r \<Longrightarrow> (\<And>x. m = Some x \<Longrightarrow> f x = Some r \<Longrightarrow> P) \<Longrightarrow> P"
  "(if b then u else v) = Some r \<Longrightarrow> (b \<Longrightarrow> u = Some r \<Longrightarrow> P) \<Longrightarrow> (\<not> b \<Longrightarrow> v = Some r \<Longrightarrow> P) \<Longrightarrow> P"
  "(case o' of None \<Rightarrow> n | Some y \<Rightarrow> g y) = Some r \<Longrightarrow> (o' = None \<Longrightarrow> n = Some r \<Longrightarrow> P) \<Longrightarrow>
    (\<And>y. o' = Some y \<Longrightarrow> g y = Some r \<Longrightarrow> P) \<Longrightarrow> P"
  "(case q of (a, b) \<Rightarrow> h a b) = Some r \<Longrightarrow> (\<And>a b. q = (a, b) \<Longrightarrow> h a b = Some r \<Longrightarrow> P) \<Longrightarrow> P"
  "(case b of True \<Rightarrow> u | False \<Rightarrow> v) = Some r \<Longrightarrow> (b \<Longrightarrow> u = Some r \<Longrightarrow> P) \<Longrightarrow> (\<not> b \<Longrightarrow> v = Some r \<Longrightarrow> P) \<Longrightarrow> P"
  by (auto simp: bind_eq_Some_conv split: if_splits option.splits prod.splits bool.splits)

section \<open>Transactions\<close>

lemma kernel_errors [keeps]:
  "set_return_error t br s = Some s' \<Longrightarrow> kernel_off A d s \<Longrightarrow> kernel_off A d s'"
  "binder_txn_error t br s = Some s' \<Longrightarrow> kernel_off A d s \<Longrightarrow> kernel_off A d s'"
  "fail_sender f br s = Some s' \<Longrightarrow> kernel_off A d s \<Longrightarrow> kernel_off A d s'"
  by (auto simp: set_return_error_def binder_txn_error_def fail_sender_def bind_eq_Some_conv split: if_splits option.splits elim!: keeps)

lemma kernel_tmpref [keeps]:
  "binder_node_inc_tmpref n s = Some s' \<Longrightarrow> kernel_off A d s \<Longrightarrow> kernel_off A d s'"
  "binder_node_dec_tmpref n s = Some s' \<Longrightarrow> kernel_off A d s \<Longrightarrow> kernel_off A d s'"
  "binder_node_release n s = Some s' \<Longrightarrow> kernel_off A d s \<Longrightarrow> kernel_off A d s'"
  by (auto simp: binder_node_inc_tmpref_def binder_node_dec_tmpref_def binder_node_release_def bind_eq_Some_conv elim!: keeps)

lemma kernel_put_kdata [keeps]:
  "put_kdata p b kd s = Some s' \<Longrightarrow> kernel_off A d s \<Longrightarrow> kernel_off A d s'"
  by (auto simp: put_kdata_def elim: kernel_upd_buffer)

lemma kernel_targets [keeps]:
  "reply_target t s = Some (g, s') \<Longrightarrow> kernel_off A d s \<Longrightarrow> kernel_off A d s'"
  "call_node p t h s = Some (m, s') \<Longrightarrow> kernel_off A d s \<Longrightarrow> kernel_off A d s'"
  by (auto simp: reply_target_def call_node_def bind_eq_Some_conv split: if_splits option.splits elim!: keeps)

lemma kernel_call_target [keeps]:
  "call_target p t h oneway s = Some (g, s') \<Longrightarrow> kernel_off A d s \<Longrightarrow> kernel_off A d s'"
  by (auto simp: call_target_def bind_eq_Some_conv split: if_splits option.splits elim!: keeps)

lemma kernel_release_object [keeps]:
  "release_object p kd fp s = Some s' \<Longrightarrow> kernel_inv A s \<Longrightarrow> kernel_inv A s'"
  by (auto simp: release_object_def bind_eq_Some_conv split: if_splits option.splits elim!: keeps)

lemma kernel_release_loop [keeps]:
  "release_loop p kd ds off is s = Some s' \<Longrightarrow> kernel_inv A s \<Longrightarrow> kernel_inv A s'"
proof (induction "is" arbitrary: s)
  case (Cons i "is")
  from Cons.prems show ?case by (auto simp: bind_eq_Some_conv split: option.splits elim!: keeps Cons.IH)
qed simp

lemma kernel_buffer_release [keeps]:
  "binder_transaction_buffer_release p b s = Some s' \<Longrightarrow> kernel_inv A s \<Longrightarrow> kernel_inv A s'"
  by (auto simp: binder_transaction_buffer_release_def bind_eq_Some_conv split: option.splits elim!: keeps)

lemma kernel_drop_buffer [keeps]:
  "drop_buffer p b s = Some s' \<Longrightarrow> kernel_inv A s \<Longrightarrow> kernel_inv A s'"
  by (auto simp: drop_buffer_def bind_eq_Some_conv split: option.splits elim!: keeps)

lemma kernel_translate_binder [keeps]:
  "binder_translate_binder K b fp p t tp s = Some (e, s') \<Longrightarrow> kernel_inv A s \<Longrightarrow> kernel_inv A s'"
  by (auto simp: binder_translate_binder_def bind_eq_Some_conv split: if_splits option.splits elim!: keeps)

lemma kernel_translate_handle [keeps]:
  "binder_translate_handle K b fp p t tp s = Some (e, s') \<Longrightarrow> kernel_inv A s \<Longrightarrow> kernel_inv A s'"
  by (auto simp: binder_translate_handle_def Let_def bind_eq_Some_conv split: if_splits option.splits elim!: keeps)

lemma kernel_translate_fd [keeps]:
  "binder_translate_fd b fp p n tp s = Some (e, s') \<Longrightarrow> kernel_inv A s \<Longrightarrow> kernel_inv A s'"
  by (auto simp: binder_translate_fd_def bind_eq_Some_conv split: if_splits option.splits elim!: keeps)

lemma kernel_translate_ptr [keeps]:
  "binder_translate_ptr K b bp tp es oa sa cnt u s = Some (e, u', s') \<Longrightarrow> kernel_inv A s \<Longrightarrow> kernel_inv A s'"
  by (auto simp: binder_translate_ptr_def Let_def bind_eq_Some_conv binder_copyin_def split: if_splits option.splits elim!: keeps)

lemma kernel_translate_object [keeps]:
  "translate_object K p t G b tr es i u s = Some (e, u', s') \<Longrightarrow> kernel_inv A s \<Longrightarrow> kernel_inv A s'"
  by (auto simp: translate_object_def Let_def bind_eq_Some_conv split: if_splits option.splits elim!: keeps)

lemma kernel_translate_loop [keeps]:
  "translate_loop K p t G b tr es is u s = Some (ok, s') \<Longrightarrow> kernel_inv A s \<Longrightarrow> kernel_inv A s'"
proof (induction "is" arbitrary: u s)
  case (Cons i "is")
  from Cons.prems show ?case by (auto simp: bind_eq_Some_conv split: if_splits elim!: keeps Cons.IH)
qed simp

lemma kernel_payload [keeps]:
  "txn_payload K t G tr es s = Some (b, ok, s') \<Longrightarrow> kernel_inv A s \<Longrightarrow> kernel_inv A s'"
  unfolding txn_payload_def Let_def by (elim runE) (auto elim!: keeps kernel_upd_buffer)

lemma kernel_fill [keeps]:
  "txn_fill K p t G tr reply b x c s = Some s' \<Longrightarrow> kernel_inv A s \<Longrightarrow> kernel_inv A s'"
  by (auto simp: txn_fill_def binder_next_debug_id_def bind_eq_Some_conv elim!: keeps kernel_upd_buffer)

lemma kernel_txn_enqueue [keeps]:
  "txn_enqueue t G reply x c s = Some s' \<Longrightarrow> kernel_inv A s \<Longrightarrow> kernel_inv A s'"
  by (auto simp: txn_enqueue_def bind_eq_Some_conv split: if_splits option.splits elim!: keeps)

lemma kernel_txn_out [keeps]:
  "txn_out t G x c b r s = Some s' \<Longrightarrow> kernel_inv A s \<Longrightarrow> kernel_inv A s'"
  by (auto simp: txn_out_def Let_def bind_eq_Some_conv split: option.splits elim!: keeps)

lemma kernel_txn_send [keeps]:
  "txn_send K p t G tr es reply s = Some s' \<Longrightarrow> kernel_inv A s \<Longrightarrow> kernel_inv A s'"
  unfolding txn_send_def Let_def by (elim runE) (auto elim!: keeps split: option.split)

lemma kernel_transaction [keeps]:
  "binder_transaction K p t tr bs reply sg s = Some s' \<Longrightarrow> kernel_inv A s \<Longrightarrow> kernel_inv A s'"
  by (auto simp: binder_transaction_def Let_def bind_eq_Some_conv split: if_splits option.splits elim!: keeps)

section \<open>The write loop\<close>

lemma kernel_death [keeps]:
  "binder_death_request K p t h c s = Some (e, s') \<Longrightarrow> kernel_inv A s \<Longrightarrow> kernel_inv A s'"
  "binder_death_clear p t h c s = Some (e, s') \<Longrightarrow> kernel_inv A s \<Longrightarrow> kernel_inv A s'"
  unfolding binder_death_request_def binder_death_clear_def Let_def by (elim runE; auto elim!: keeps)+

lemma kernel_write_ref_cmd [keeps]:
  "binder_write_ref_cmd K p t cmd desc s = Some (e, s') \<Longrightarrow> kernel_inv A s \<Longrightarrow> kernel_inv A s'"
  unfolding binder_write_ref_cmd_def Let_def by (elim runE) (auto elim!: keeps)

lemma kernel_async_next [keeps]:
  "async_next p n s = Some s' \<Longrightarrow> kernel_inv A s \<Longrightarrow> kernel_inv A s'"
  by (auto simp: async_next_def bind_eq_Some_conv split: option.splits if_splits list.splits elim!: keeps)

lemma kernel_free_cmd [keeps]:
  "binder_write_free_buffer p u s = Some (e, s') \<Longrightarrow> kernel_inv A s \<Longrightarrow> kernel_inv A s'"
  unfolding binder_write_free_buffer_def Let_def by (elim runE) (auto elim!: keeps kernel_upd_buffer)

lemma kernel_small_cmds [keeps]:
  "write_ref_done p cmd u s = Some (e, s') \<Longrightarrow> kernel_inv A s \<Longrightarrow> kernel_inv A s'"
  "write_looper p t cmd s = Some s' \<Longrightarrow> kernel_inv A s \<Longrightarrow> kernel_inv A s'"
  unfolding write_ref_done_def write_looper_def by (elim runE; auto elim!: keeps)+

lemma kernel_cmd_run [keeps]:
  "write_cmd_run K p t cmd arg s = Some (e, s') \<Longrightarrow> kernel_inv A s \<Longrightarrow> kernel_inv A s'"
  unfolding write_cmd_run_def by (elim runE) (auto elim!: keeps)

lemma kernel_write_cmd [keeps]:
  "write_cmd K p t buffer consumed s = Some (e, c, s') \<Longrightarrow> kernel_inv A s \<Longrightarrow> kernel_inv A s'"
  unfolding write_cmd_def Let_def binder_get_user_def by (elim runE) (auto elim!: keeps split: prod.splits option.splits)

lemma kernel_thread_write [keeps]:
  assumes "binder_thread_write K p t buffer sz consumed s = Some (e, c, s')" and "kernel_inv A s"
  shows "kernel_inv A s'"
proof -
  let ?P = "\<lambda>K p t buffer sz consumed s r. kernel_inv A s \<longrightarrow> kernel_inv A (snd (snd r))"
  have "?P K p t buffer sz consumed s (e, c, s')"
  proof (rule binder_thread_write.raw_induct [of ?P, OF _ assms(1)])
    fix loop K p t buffer sz consumed s r
    assume IH: "\<And>K p t buffer sz consumed s r. loop K p t buffer sz consumed s = Some r \<Longrightarrow> ?P K p t buffer sz consumed s r"
      and body: "(if consumed + 4 \<le> sz then do {
        r \<leftarrow> write_cmd K p t buffer consumed s;
        (if fst r \<noteq> OK then Some r
         else loop K p t buffer sz (fst (snd r)) (snd (snd r))) }
      else Some (OK, consumed, s)) = Some r"
    show "?P K p t buffer sz consumed s r"
      using body by (auto simp: bind_eq_Some_conv split: if_splits dest!: IH dest: kernel_write_cmd)
  qed
  then show ?thesis using assms(2) by simp
qed

section \<open>The read loop\<close>

lemma kernel_put [keeps]:
  "binder_put_cmd K buffer sz consumed cmd s = (e, c, s') \<Longrightarrow> kernel_off A d s \<Longrightarrow> kernel_off A d s'"
  "binder_put_cmd_data K buffer sz consumed cmd bs s = (e, c, s') \<Longrightarrow> kernel_off A d s \<Longrightarrow> kernel_off A d s'"
  by (auto simp: binder_put_cmd_def binder_put_cmd_data_def Let_def split: if_splits prod.splits bool.splits elim!: keeps)

lemma kernel_put_delivery [keeps]:
  "put_delivery K buffer sz consumed cmd tr s = (e, c, s') \<Longrightarrow> kernel_off A d s \<Longrightarrow> kernel_off A d s'"
  by (auto simp: put_delivery_def Let_def split: if_splits prod.splits bool.splits elim!: keeps)

lemma kernel_emit_news [keeps]:
  "emit_news K n buffer sz pc cmds consumed s = Some (e, c, s') \<Longrightarrow> kernel_off A d s \<Longrightarrow> kernel_off A d s'"
proof (induction cmds arbitrary: consumed s)
  case (Cons cmd cmds)
  from Cons.prems show ?case unfolding emit_news.simps
    by (elim runE) (auto elim!: keeps intro: Cons.IH)
qed simp

lemma kernel_read_node_work [keeps]:
  "binder_read_node_work K n buffer sz consumed s = Some (e, c, s') \<Longrightarrow> kernel_off A d s \<Longrightarrow> kernel_off A d s'"
  unfolding binder_read_node_work_def Let_def by (elim runE) (auto elim!: keeps)

lemma kernel_copy_payload:
  "(case kd of None \<Rightarrow> (True, s) | Some bs \<Rightarrow> binder_copyout K u (f bs) s) = (ok, s') \<Longrightarrow> kernel_off A d s \<Longrightarrow> kernel_off A d s'"
  by (auto split: option.splits elim!: keeps)

lemma kernel_read_transaction [keeps]:
  "binder_read_transaction K p t x buffer sz consumed s = Some (e, c, s') \<Longrightarrow> kernel_inv A s \<Longrightarrow> kernel_inv A s'"
  unfolding binder_read_transaction_def Let_def by (elim runE) (auto elim!: runE keeps kernel_upd_buffer kernel_copy_payload)

lemma kernel_read_error [keeps]:
  "read_error K w buffer sz consumed s = Some (e, c, s') \<Longrightarrow> kernel_inv A s \<Longrightarrow> kernel_inv A s'"
  by (cases w) (auto simp: read_error_def elim!: runE keeps)

lemma kernel_read_death [keeps]:
  "read_death K t x buffer sz consumed s = Some (e, c, s') \<Longrightarrow> kernel_inv A s \<Longrightarrow> kernel_inv A s'"
  unfolding read_death_def Let_def by (elim runE) (auto elim!: keeps)

lemma kernel_read_item [keeps]:
  assumes op: "read_item K p t w buffer sz consumed s = Some (e, c, s')" and inv: "kernel_inv A s"
  shows "kernel_inv A s'"
proof -
  obtain W where W: "get_work w s = Some W" using op by (auto simp: read_item_def bind_eq_Some_conv)
  obtain e1 c1 s1 where put: "binder_put_cmd K buffer sz consumed BR_TRANSACTION_COMPLETE s = (e1, c1, s1)" by (metis prod_cases3)
  show ?thesis
    using op W inv put kernel_put(1) [OF put inv]
    by (cases "w_type W"; cases w) (auto simp: read_item_def split: if_splits elim!: keeps)
qed

lemma kernel_read_select [keeps]:
  "read_select p t s = Some (sel, s') \<Longrightarrow> kernel_off A d s \<Longrightarrow> kernel_off A d s'"
  unfolding read_select_def by (elim runE) (auto elim!: keeps)

lemma kernel_read_sleep [keeps]:
  "read_sleep p t consumed s = Some (out, s') \<Longrightarrow> kernel_off A d s \<Longrightarrow> kernel_off A d s'"
  unfolding read_sleep_def by (elim runE) (auto elim!: keeps)

lemma kernel_spawn [keeps]:
  "spawn_looper K p t f buffer sz consumed s = Some (c, s') \<Longrightarrow> kernel_off A d s \<Longrightarrow> kernel_off A d s'"
  unfolding spawn_looper_def by (elim runE) (auto elim!: keeps)

lemma kernel_read_round [keeps]:
  "read_round K p t buffer sz nb wrote consumed s = Some (out, c, s') \<Longrightarrow> kernel_inv A s \<Longrightarrow> kernel_inv A s'"
  unfolding read_round_def by (elim runE) (auto elim!: keeps)

lemma kernel_read_loop [keeps]:
  assumes "read_loop K p t buffer sz nb wrote consumed s = Some (out, s')" and "kernel_inv A s"
  shows "kernel_inv A s'"
proof -
  let ?P = "\<lambda>K p t buffer sz nb wrote consumed s r. kernel_inv A s \<longrightarrow> kernel_inv A (snd r)"
  have "?P K p t buffer sz nb wrote consumed s (out, s')"
  proof (rule read_loop.raw_induct [of ?P, OF _ assms(1)])
    fix loop K p t buffer sz nb wrote consumed s r
    assume IH: "\<And>K p t buffer sz nb wrote consumed s r.
        loop K p t buffer sz nb wrote consumed s = Some r \<Longrightarrow> ?P K p t buffer sz nb wrote consumed s r"
      and body: "(do { r \<leftarrow> read_round K p t buffer sz nb wrote consumed s;
        (case fst r of Some out \<Rightarrow> Some (out, snd (snd r))
         | None \<Rightarrow> loop K p t buffer sz nb True (fst (snd r)) (snd (snd r))) }) = Some r"
    show "?P K p t buffer sz nb wrote consumed s r"
    proof
      assume inv: "kernel_inv A s"
      from body obtain o1 c s1 where rd: "read_round K p t buffer sz nb wrote consumed s = Some (o1, c, s1)"
          "(case o1 of Some out \<Rightarrow> Some (out, s1) | None \<Rightarrow> loop K p t buffer sz nb True c s1) = Some r"
        by (elim runE) auto
      have "kernel_inv A s1" by (rule kernel_read_round [OF rd(1) inv])
      then show "kernel_inv A (snd r)" using rd(2) by (auto split: option.splits dest: IH)
    qed
  qed
  then show ?thesis using assms(2) by simp
qed

lemma kernel_thread_read [keeps]:
  "binder_thread_read K p t buffer sz consumed nb s = Some (out, s') \<Longrightarrow> kernel_inv A s \<Longrightarrow> kernel_inv A s'"
  unfolding binder_thread_read_def by (elim runE) (auto elim!: keeps)

lemma kernel_read_wakeup [keeps]:
  "binder_read_wakeup K p t buffer sz nb ch consumed ret s = Some (out, s') \<Longrightarrow> kernel_inv A s \<Longrightarrow> kernel_inv A s'"
  unfolding binder_read_wakeup_def
  by (elim runE) (auto split: channel.splits simp: bind_eq_Some_conv elim!: keeps)

lemma kernel_finish [keeps]:
  "write_read_finish p bwr (out, s) = Some (r, s') \<Longrightarrow> kernel_inv A s \<Longrightarrow> kernel_inv A s'"
  by (cases out) (auto simp: write_read_finish_def elim!: runE keeps)

lemma kernel_write_read [keeps]:
  "binder_ioctl_write_read K p t bwr s = Some (r, s') \<Longrightarrow> kernel_inv A s \<Longrightarrow> kernel_inv A s'"
  unfolding binder_ioctl_write_read_def by (elim runE) (auto elim!: runE keeps)

lemma kernel_write_read_wakeup [keeps]:
  "binder_write_read_wakeup K p t ch bwr ret s = Some (r, s') \<Longrightarrow> kernel_inv A s \<Longrightarrow> kernel_inv A s'"
  unfolding binder_write_read_wakeup_def by (elim runE) (auto elim!: keeps)

section \<open>Threads\<close>

lemma kernel_thread_get [keeps]:
  "binder_thread_get K p s = Some (th, s') \<Longrightarrow> kernel_off A d s \<Longrightarrow> kernel_off A d s'"
  unfolding binder_thread_get_def Let_def by (elim runE) (auto elim!: keeps)

lemma kernel_release_stack [keeps]:
  assumes "release_stack p t tx s = Some s'" and "kernel_inv A s"
  shows "kernel_inv A s'"
proof -
  let ?P = "\<lambda>p t tx s s'. kernel_inv A s \<longrightarrow> kernel_inv A s'"
  have "?P p t tx s s'"
  proof (rule release_stack.raw_induct [of ?P, OF _ assms(1)])
    fix loop p t tx s s'
    assume IH: "\<And>p t tx s s'. loop p t tx s = Some s' \<Longrightarrow> ?P p t tx s s'"
      and body: "(case tx of None \<Rightarrow> Some s
       | Some x \<Rightarrow> do {
         X \<leftarrow> txns s x;
         if x_from X = Some t then do {
           s \<leftarrow> upd_txn x (x_from_update (\<lambda>_. None)) s;
           loop p t (x_from_parent X) s }
         else if x_to_thread X = Some t then do {
           s \<leftarrow> upd_txn x (x_to_thread_update (\<lambda>_. None)) s;
           s \<leftarrow> drop_buffer p (x_buffer X) s;
           s \<leftarrow> upd_txn x (x_buffer_update (\<lambda>_. None)) s;
           s \<leftarrow> fail_sender (x_from X) BR_DEAD_REPLY s;
           loop p t (x_to_parent X) s }
         else Some s }) = Some s'"
    have go: "kernel_inv A s'" if "loop p t tx s = Some s'" "kernel_inv A s" for p t tx s s' using IH that by blast
    show "?P p t tx s s'" using body by (elim runE) (auto elim!: keeps go)
  qed
  then show ?thesis using assms(2) by simp
qed

lemma kernel_thread_todo [keeps]:
  "release_thread_todo p ws s = Some s' \<Longrightarrow> kernel_inv A s \<Longrightarrow> kernel_inv A s'"
proof (induction ws arbitrary: s)
  case (Cons w ws)
  from Cons.prems show ?case unfolding release_thread_todo.simps
    by (elim runE) (auto split: work_ptr.splits elim!: runE keeps intro: Cons.IH)
qed simp

lemma kernel_thread_release [keeps]:
  "binder_thread_release p t s = Some (e, s') \<Longrightarrow> kernel_inv A s \<Longrightarrow> kernel_inv A s'"
  unfolding binder_thread_release_def by (elim runE) (auto elim!: keeps)

end
