(* ===== verification/Binder_Dev.thy ===== *)
theory Binder_Dev
  imports Binder_RW
begin

text \<open>
  The device nodes and the character-device switch behind them
  (\<^verbatim>\<open>kext/binder_dev.c\<close>): the table of cloned minors, open and close, binderfs's
  control device, the ioctl dispatcher, \<open>select\<close>, and publication of the nodes.

  A device number is its minor; the major is \<open>g_binder_major\<close>. What devfs does with
  a node is a parameter (\<open>make_node\<close>); the nodes that are published are part of the
  state. Every handler here takes and drops the driver lock, so a handler is one
  step.
\<close>

section \<open>State\<close>

definition BINDER_CTL_MINOR :: nat where [abi_defs]: "BINDER_CTL_MINOR = 63"

definition BINDER_CLONE_BASE :: nat where [abi_defs]: "BINDER_CLONE_BASE = 64"

definition BINDER_MAX_OPENS :: nat where [abi_defs]: "BINDER_MAX_OPENS = 448"

record binder_open_slot =
  l_cloned :: bool
  l_opened :: bool
  l_lookup_pid :: u32
  l_context :: "nat option"
  l_proc :: "addr option"
  l_sequence :: u64

definition empty_slot :: binder_open_slot where
  "empty_slot = \<lparr>l_cloned = False, l_opened = False, l_lookup_pid = 0, l_context = None,
     l_proc = None, l_sequence = 0\<rparr>"

text \<open>A node of devfs: its handle, major, minor and path.\<close>

type_synonym devfs_node = "nat \<times> int \<times> nat \<times> string"

record binder_dev =
  drv :: binder_state
  g_slots :: "nat \<Rightarrow> binder_open_slot"
  g_slot_sequence :: u64
  g_binder_major :: int
  published :: "devfs_node list"

text \<open>What the devices ask of the kernel besides \<open>kpi\<close>: whether a node can be
  published.\<close>

record dev_kpi =
  kern :: kpi
  make_node :: "nat \<Rightarrow> string \<Rightarrow> bool"

definition devfs_publish ::
    "dev_kpi \<Rightarrow> int \<Rightarrow> nat \<Rightarrow> string \<Rightarrow> binder_dev \<Rightarrow> nat option \<times> binder_dev" where
  "devfs_publish K major m path d =
     (let s = drv d; h = clock s; d = d\<lparr>drv := s\<lparr>clock := Suc (clock s)\<rparr>\<rparr> in
      if make_node K h path then (Some h, d\<lparr>published := (h, major, m, path) # published d\<rparr>)
      else (None, d))"

definition devfs_remove :: "nat \<Rightarrow> binder_dev \<Rightarrow> binder_dev" where
  "devfs_remove h d = d\<lparr>published := filter (\<lambda>x. fst x \<noteq> h) (published d)\<rparr>"

section \<open>Minors\<close>

definition binder_context_for_minor :: "nat \<Rightarrow> binder_dev \<Rightarrow> nat option" where
  "binder_context_for_minor m d =
     (if BINDER_MAX_CONTEXTS \<le> m then None
      else if c_in_use (contexts (drv d) m) then Some m else None)"

definition binder_slot_for_dev :: "nat \<Rightarrow> nat option" where
  "binder_slot_for_dev m =
     (if m < BINDER_CLONE_BASE \<or> BINDER_CLONE_BASE + BINDER_MAX_OPENS \<le> m then None
      else Some (m - BINDER_CLONE_BASE))"

section \<open>Cloning\<close>

text \<open>A process's outstanding lookup of a context.\<close>

definition slot_waits_for :: "u32 \<Rightarrow> nat \<Rightarrow> binder_open_slot \<Rightarrow> bool" where
  "slot_waits_for pid c l \<longleftrightarrow>
     l_cloned l \<and> \<not> l_opened l \<and> l_lookup_pid l = pid \<and> l_context l = Some c"

text \<open>The scan for the longest-standing clone that was never opened.\<close>

primrec oldest_loop ::
    "(nat \<Rightarrow> binder_open_slot) \<Rightarrow> nat list \<Rightarrow> nat option \<times> u64 \<Rightarrow> nat option \<times> u64" where
  "oldest_loop sl [] best = best"
| "oldest_loop sl (i # is) best =
     oldest_loop sl is
       (if \<not> l_opened (sl i) \<and> l_sequence (sl i) < snd best then (Some i, l_sequence (sl i)) else best)"

definition pick_slot :: "(nat \<Rightarrow> binder_open_slot) \<Rightarrow> nat option" where
  "pick_slot sl =
     (case find (\<lambda>i. \<not> l_cloned (sl i)) [0..<BINDER_MAX_OPENS] of
        Some i \<Rightarrow> Some i
      | None \<Rightarrow> fst (oldest_loop sl [0..<BINDER_MAX_OPENS] (None, - 1)))"

text \<open>The result is the minor, \<open>None\<close> for \<open>-1\<close>. Any other action than
  \<open>DEVFS_CLONE_ALLOC\<close> answers 0.\<close>

definition binder_clone :: "dev_kpi \<Rightarrow> nat \<Rightarrow> bool \<Rightarrow> binder_dev \<Rightarrow> nat option \<times> binder_dev" where
  "binder_clone K m alloc d =
     (if \<not> alloc then (Some 0, d)
      else (case binder_context_for_minor m d of
          None \<Rightarrow> (None, d)
        | Some c \<Rightarrow>
            let pid = proc_selfpid (kern K); q = g_slot_sequence d + 1 in
            (case find (\<lambda>i. slot_waits_for pid c (g_slots d i)) [0..<BINDER_MAX_OPENS] of
               Some i \<Rightarrow>
                 (Some (BINDER_CLONE_BASE + i),
                  d\<lparr>g_slot_sequence := q,
                    g_slots := (g_slots d)(i := (g_slots d i)\<lparr>l_sequence := q\<rparr>)\<rparr>)
             | None \<Rightarrow>
                 (case pick_slot (g_slots d) of
                    None \<Rightarrow> (None, d)
                  | Some i \<Rightarrow>
                      (Some (BINDER_CLONE_BASE + i),
                       d\<lparr>g_slot_sequence := q,
                         g_slots := (g_slots d)(i := \<lparr>l_cloned = True, l_opened = False,
                           l_lookup_pid = pid, l_context = Some c, l_proc = None,
                           l_sequence = q\<rparr>)\<rparr>)))))"

section \<open>Open and close\<close>

definition binder_dev_open :: "dev_kpi \<Rightarrow> nat \<Rightarrow> binder_dev \<Rightarrow> errno \<times> binder_dev" where
  "binder_dev_open K m d =
     (case binder_slot_for_dev m of
        None \<Rightarrow> (if m = BINDER_CTL_MINOR then OK else ENXIO, d)
      | Some i \<Rightarrow>
          let l = g_slots d i in
          if \<not> l_cloned l \<or> l_context l = None then (ENXIO, d)
          else if l_opened l then (EBUSY, d)
          else (case l_context l of
              None \<Rightarrow> (ENXIO, d)
            | Some c \<Rightarrow>
                (case binder_proc_new (kern K) c (drv d) of
                   (None, s) \<Rightarrow> (ENOMEM, d\<lparr>drv := s\<rparr>)
                 | (Some p, s) \<Rightarrow>
                     (OK, d\<lparr>drv := s, g_slots := (g_slots d)(i :=
                       l\<lparr>l_proc := Some p, l_opened := True, l_lookup_pid := 0\<rparr>)\<rparr>))))"

definition binder_dev_close :: "nat \<Rightarrow> binder_dev \<Rightarrow> binder_dev option" where
  "binder_dev_close m d =
     (case binder_slot_for_dev m of
        None \<Rightarrow> Some d
      | Some i \<Rightarrow> do {
          s \<leftarrow> (case l_proc (g_slots d i) of
                  None \<Rightarrow> Some (drv d)
                | Some p \<Rightarrow> binder_proc_release p (drv d));
          Some (d\<lparr>drv := s, g_slots := (g_slots d)(i := (g_slots d i)\<lparr>l_proc := None,
            l_cloned := False, l_opened := False, l_lookup_pid := 0, l_context := None\<rparr>)\<rparr>) })"

section \<open>binderfs\<close>

text \<open>The client's name as a C string: the bytes up to the first zero, at most
  \<open>BINDERFS_MAX_NAME\<close> of them.\<close>

definition c_string :: "byte list \<Rightarrow> string" where
  "c_string bs = map (\<lambda>b. char_of (unat b)) (takeWhile (\<lambda>b. b \<noteq> 0) (take BINDERFS_MAX_NAME bs))"

definition binder_ctl_add ::
    "dev_kpi \<Rightarrow> byte list \<Rightarrow> binder_dev \<Rightarrow> errno \<times> byte list \<times> binder_dev" where
  "binder_ctl_add K req d =
     (let name = c_string req; s = drv d in
      if name = [] \<or> CHR ''/'' \<in> set name then (EINVAL, req, d)
      else if find (\<lambda>i. c_in_use (contexts s i) \<and> c_name (contexts s i) = name)
                [0..<BINDER_MAX_CONTEXTS] \<noteq> None
      then (EEXIST, req, d)
      else (case find (\<lambda>i. \<not> c_in_use (contexts s i)) [0..<BINDER_MAX_CONTEXTS] of
          None \<Rightarrow> (ENOSPC, req, d)
        | Some i \<Rightarrow>
            let d = d\<lparr>drv := upd_context i (\<lambda>C. C\<lparr>c_name := name, c_minor := int i, c_in_use := True,
                  c_procs := []\<rparr>) s\<rparr> in
            (case devfs_publish K (g_binder_major d) i (''binderfs/'' @ name) d of
               (None, d) \<Rightarrow>
                 (ENOMEM, req, d\<lparr>drv := upd_context i (c_in_use_update (\<lambda>_. False)) (drv d)\<rparr>)
             | (Some h, d) \<Rightarrow>
                 (OK, put_u32 260 (of_nat i) (put_u32 256 (of_int (g_binder_major d)) req),
                  d\<lparr>drv := upd_context i (c_devfs_handle_update (\<lambda>_. Some h)) (drv d)\<rparr>))))"

section \<open>ioctl\<close>

definition binder_cmd_reads_argument :: "u32 \<Rightarrow> bool" where
  "binder_cmd_reads_argument cmd \<longleftrightarrow>
     BINDER_CMD_KEY cmd = BINDER_CMD_KEY BINDER_WRITE_READ \<or>
     BINDER_CMD_KEY cmd = BINDER_CMD_KEY BINDER_SET_MAX_THREADS \<or>
     BINDER_CMD_KEY cmd = BINDER_CMD_KEY BINDER_SET_CONTEXT_MGR_EXT \<or>
     BINDER_CMD_KEY cmd = BINDER_CMD_KEY BINDER_MSL_SET_ARENA \<or>
     BINDER_CMD_KEY cmd = BINDER_CMD_KEY BINDER_CTL_ADD"

definition write_read_of :: "byte list \<Rightarrow> binder_write_read" where
  "write_read_of bs = \<lparr>write_size = get_u64 0 bs, write_consumed = get_u64 8 bs,
     write_buffer = get_u64 16 bs, read_size = get_u64 24 bs, read_consumed = get_u64 32 bs,
     read_buffer = get_u64 40 bs\<rparr>"

definition write_read_bytes :: "binder_write_read \<Rightarrow> byte list" where
  "write_read_bytes bwr = word_le 8 (write_size bwr) @ word_le 8 (write_consumed bwr) @
     word_le 8 (write_buffer bwr) @ word_le 8 (read_size bwr) @ word_le 8 (read_consumed bwr) @
     word_le 8 (read_buffer bwr)"

text \<open>An ioctl ends with an error number and its argument block, or sleeps in the read
  half of \<open>BINDER_WRITE_READ\<close>.\<close>

datatype ioctl_outcome =
    Ioctl_Done errno "byte list"
  | Ioctl_Blocked channel binder_write_read

definition of_wr_outcome :: "wr_outcome \<Rightarrow> ioctl_outcome" where
  "of_wr_outcome r = (case r of
       WR_Done e bwr \<Rightarrow> Ioctl_Done e (write_read_bytes bwr)
     | WR_Blocked chan bwr \<Rightarrow> Ioctl_Blocked chan bwr)"

definition ioctl_set_max_threads ::
    "addr \<Rightarrow> byte list \<Rightarrow> binder_state \<Rightarrow> (ioctl_outcome \<times> binder_state) option" where
  "ioctl_set_max_threads p data s =
     (let n = get_u32 0 data in
      if 1024 < n then Some (Ioctl_Done EINVAL data, s)
      else do {
        s \<leftarrow> upd_proc p (p_max_threads_update (\<lambda>_. sint n)) s;
        Some (Ioctl_Done OK data, s) })"

text \<open>The node with the smallest address above \<open>after\<close>; address 0 stands for none.\<close>

primrec node_debug_loop ::
    "u64 \<Rightarrow> addr list \<Rightarrow> u64 \<times> u64 \<times> bool \<times> bool \<Rightarrow> binder_state \<Rightarrow> (u64 \<times> u64 \<times> bool \<times> bool) option" where
  "node_debug_loop after [] info s = Some info"
| "node_debug_loop after (n # ns) info s = do {
     N \<leftarrow> nodes s n;
     node_debug_loop after ns
       (if n_ptr N \<le> after then info
        else if fst info = 0 \<or> n_ptr N < fst info
        then (n_ptr N, n_cookie N, n_has_strong_ref N, n_has_weak_ref N)
        else info) s }"

definition ioctl_node_debug_info ::
    "addr \<Rightarrow> byte list \<Rightarrow> binder_state \<Rightarrow> (ioctl_outcome \<times> binder_state) option" where
  "ioctl_node_debug_info p data s = do {
     P \<leftarrow> procs s p;
     (ptr, cookie, strong, weak) \<leftarrow> node_debug_loop (get_u64 0 data) (p_nodes P) (0, 0, False, False) s;
     Some (Ioctl_Done OK (word_le 8 ptr @ word_le 8 cookie @
       word_le 4 (of_bool strong :: u32) @ word_le 4 (of_bool weak :: u32)), s) }"

definition ioctl_node_info_for_ref ::
    "addr \<Rightarrow> byte list \<Rightarrow> binder_state \<Rightarrow> (ioctl_outcome \<times> binder_state) option" where
  "ioctl_node_info_for_ref p data s = do {
     found \<leftarrow> binder_ref_find_by_desc p (get_u32 0 data) s;
     node \<leftarrow> (case found of None \<Rightarrow> Some None | Some r \<Rightarrow> do { R \<leftarrow> refs s r; Some (r_node R) });
     (case node of
        None \<Rightarrow> Some (Ioctl_Done EINVAL data, s)
      | Some n \<Rightarrow> do {
          N \<leftarrow> nodes s n;
          Some (Ioctl_Done OK (put_u32 8 (of_int (n_local_weak_refs N))
            (put_u32 4 (of_int (n_internal_strong_refs N) + of_int (n_local_strong_refs N)) data)), s) }) }"

definition ioctl_freeze ::
    "addr \<Rightarrow> byte list \<Rightarrow> binder_state \<Rightarrow> (ioctl_outcome \<times> binder_state) option" where
  "ioctl_freeze p data s = do {
     found \<leftarrow> binder_thread_lookup p (ucast (get_u32 0 data)) s;
     (case found of
        None \<Rightarrow> Some (Ioctl_Done EINVAL data, s)
      | Some t \<Rightarrow> do {
          s \<leftarrow> upd_thread t (\<lambda>T. T\<lparr>t_frozen := (get_u32 4 data \<noteq> 0),
            t_freeze_timeout_ms := get_u32 8 data\<rparr>) s;
          Some (Ioctl_Done OK data, s) }) }"

definition ioctl_frozen_info ::
    "addr \<Rightarrow> byte list \<Rightarrow> binder_state \<Rightarrow> (ioctl_outcome \<times> binder_state) option" where
  "ioctl_frozen_info p data s = do {
     let data = put_u32 8 0 (put_u32 4 0 data);
     found \<leftarrow> binder_thread_lookup p (ucast (get_u32 0 data)) s;
     Some (Ioctl_Done (if found = None then EINVAL else OK) data, s) }"

definition ioctl_extended_error ::
    "addr \<Rightarrow> byte list \<Rightarrow> binder_state \<Rightarrow> (ioctl_outcome \<times> binder_state) option" where
  "ioctl_extended_error p data s = do {
     P \<leftarrow> procs s p;
     let ee = p_last_error P;
     s \<leftarrow> upd_proc p (p_last_error_update (\<lambda>_. \<lparr>ee_id = 0, ee_command = 0, ee_param = 0\<rparr>)) s;
     Some (Ioctl_Done OK (word_le 4 (ee_id ee) @ word_le 4 (ee_command ee) @ word_le 4 (ee_param ee)), s) }"

definition ioctl_errno ::
    "byte list \<Rightarrow> (errno \<times> binder_state) option \<Rightarrow> (ioctl_outcome \<times> binder_state) option" where
  "ioctl_errno data r = do { (e, s) \<leftarrow> r; Some (Ioctl_Done e data, s) }"

text \<open>The switch over the commands of an open device, for a process and the calling
  thread.\<close>

definition ioctl_dispatch ::
    "kpi \<Rightarrow> u32 \<Rightarrow> addr \<Rightarrow> addr \<Rightarrow> byte list \<Rightarrow> binder_state \<Rightarrow> (ioctl_outcome \<times> binder_state) option" where
  "ioctl_dispatch K key p t data s =
     (if key = BINDER_CMD_KEY BINDER_VERSION then
        Some (Ioctl_Done OK (put_u32 0 BINDER_CURRENT_PROTOCOL_VERSION data), s)
      else if key = BINDER_CMD_KEY BINDER_MSL_ABI_VERSION then
        Some (Ioctl_Done OK (put_u32 0 BINDER_MSL_ABI_CURRENT data), s)
      else if key = BINDER_CMD_KEY BINDER_MSL_SET_ARENA then
        ioctl_errno data (binder_arena_register K p (get_u64 0 data) (get_u64 8 data) s)
      else if key = BINDER_CMD_KEY BINDER_WRITE_READ then do {
        (r, s) \<leftarrow> binder_ioctl_write_read K p t (write_read_of data) s;
        Some (of_wr_outcome r, s) }
      else if key = BINDER_CMD_KEY BINDER_SET_MAX_THREADS then ioctl_set_max_threads p data s
      else if key = BINDER_CMD_KEY BINDER_SET_CONTEXT_MGR then
        ioctl_errno data (binder_context_mgr_set K p 0 0 0 s)
      else if key = BINDER_CMD_KEY BINDER_SET_CONTEXT_MGR_EXT then
        ioctl_errno data
          (binder_context_mgr_set K p (get_u64 8 data) (get_u64 16 data) (get_u32 4 data) s)
      else if key = BINDER_CMD_KEY BINDER_THREAD_EXIT then do {
        (_, s) \<leftarrow> binder_thread_release p t s;
        Some (Ioctl_Done OK data, s) }
      else if key = BINDER_CMD_KEY BINDER_GET_NODE_DEBUG_INFO then ioctl_node_debug_info p data s
      else if key = BINDER_CMD_KEY BINDER_GET_NODE_INFO_FOR_REF then ioctl_node_info_for_ref p data s
      else if key = BINDER_CMD_KEY BINDER_SET_IDLE_TIMEOUT \<or>
              key = BINDER_CMD_KEY BINDER_SET_IDLE_PRIORITY then Some (Ioctl_Done OK data, s)
      else if key = BINDER_CMD_KEY BINDER_FREEZE then ioctl_freeze p data s
      else if key = BINDER_CMD_KEY BINDER_GET_FROZEN_INFO then ioctl_frozen_info p data s
      else if key = BINDER_CMD_KEY BINDER_ENABLE_ONEWAY_SPAM_DETECTION then do {
        s \<leftarrow> upd_proc p (p_oneway_spam_detection_update (\<lambda>_. get_u32 0 data \<noteq> 0)) s;
        Some (Ioctl_Done OK data, s) }
      else if key = BINDER_CMD_KEY BINDER_GET_EXTENDED_ERROR then ioctl_extended_error p data s
      else Some (Ioctl_Done ENOTTY data, s))"

definition binder_dev_ioctl ::
    "dev_kpi \<Rightarrow> nat \<Rightarrow> u32 \<Rightarrow> byte list \<Rightarrow> binder_dev \<Rightarrow> (ioctl_outcome \<times> binder_dev) option" where
  "binder_dev_ioctl K m cmd data d =
     (case binder_slot_for_dev m of
        None \<Rightarrow>
          if m = BINDER_CTL_MINOR \<and> BINDER_CMD_KEY cmd = BINDER_CMD_KEY BINDER_CTL_ADD then
            if cmd AND IOC_IN = 0 then Some (Ioctl_Done EINVAL data, d)
            else (case binder_ctl_add K data d of (e, data, d) \<Rightarrow> Some (Ioctl_Done e data, d))
          else Some (Ioctl_Done ENOTTY data, d)
      | Some i \<Rightarrow>
          if binder_cmd_reads_argument cmd \<and> cmd AND IOC_IN = 0 then Some (Ioctl_Done EINVAL data, d)
          else
            (case l_proc (g_slots d i) of
               None \<Rightarrow> Some (Ioctl_Done ENXIO data, d)
             | Some p \<Rightarrow> do {
                 P \<leftarrow> procs (drv d) p;
                 if p_is_dead P then Some (Ioctl_Done ENXIO data, d)
                 else do {
                   (th, s) \<leftarrow> binder_thread_get (kern K) p (drv d);
                   (case th of
                      None \<Rightarrow> Some (Ioctl_Done ENOMEM data, d\<lparr>drv := s\<rparr>)
                    | Some t \<Rightarrow> do {
                        (r, s) \<leftarrow> ioctl_dispatch (kern K) (BINDER_CMD_KEY cmd) p t data s;
                        Some (r, d\<lparr>drv := s\<rparr>) }) } }))"

section \<open>select\<close>

datatype select_which = FREAD | FWRITE | FEXCEPT

definition binder_dev_select ::
    "dev_kpi \<Rightarrow> nat \<Rightarrow> select_which \<Rightarrow> binder_dev \<Rightarrow> (bool \<times> binder_dev) option" where
  "binder_dev_select K m which d =
     (if which = FWRITE then Some (True, d)
      else (case (which, binder_slot_for_dev m) of
          (FREAD, Some i) \<Rightarrow>
            (case l_proc (g_slots d i) of
               None \<Rightarrow> Some (True, d)
             | Some p \<Rightarrow> do {
                 P \<leftarrow> procs (drv d) p;
                 if p_is_dead P then Some (True, d)
                 else do {
                   th \<leftarrow> binder_thread_lookup p (thread_tid (kern K)) (drv d);
                   ready \<leftarrow> binder_has_work p th (drv d);
                   if ready then Some (True, d)
                   else do {
                     s \<leftarrow> upd_proc p (p_sel_recorded_update (\<lambda>_. True)) (emit (SelRecord p) (drv d));
                     Some (False, d\<lparr>drv := s\<rparr>) } } })
        | _ \<Rightarrow> Some (False, d)))"

section \<open>Registration\<close>

definition binder_static_contexts :: "string list" where
  "binder_static_contexts = [''binder'', ''hwbinder'', ''vndbinder'']"

primrec publish_contexts ::
    "dev_kpi \<Rightarrow> int \<Rightarrow> (nat \<times> string) list \<Rightarrow> binder_dev \<Rightarrow> errno \<times> binder_dev" where
  "publish_contexts K major [] d = (OK, d)"
| "publish_contexts K major (x # xs) d =
     (case x of (i, name) \<Rightarrow>
        let d = d\<lparr>drv := upd_context i (\<lambda>C. C\<lparr>c_name := name, c_minor := int i, c_in_use := True,
              c_procs := []\<rparr>) (drv d)\<rparr> in
        (case devfs_publish K major i name d of
           (None, d) \<Rightarrow> (ENOMEM, d\<lparr>drv := upd_context i (c_in_use_update (\<lambda>_. False)) (drv d)\<rparr>)
         | (Some h, d) \<Rightarrow>
             publish_contexts K major xs
               (d\<lparr>drv := upd_context i (c_devfs_handle_update (\<lambda>_. Some h)) (drv d)\<rparr>)))"

definition binder_devices_init :: "dev_kpi \<Rightarrow> int \<Rightarrow> binder_dev \<Rightarrow> errno \<times> binder_dev" where
  "binder_devices_init K major d =
     (case publish_contexts K major (enumerate 0 binder_static_contexts)
             (d\<lparr>g_binder_major := major\<rparr>) of (e, d) \<Rightarrow>
        if e \<noteq> OK then (e, d)
        else (case devfs_publish K major BINDER_CTL_MINOR ''binderfs/binder-control'' d of
            (None, d) \<Rightarrow> (OK, d)
          | (Some h, d) \<Rightarrow>
              (OK, d\<lparr>drv := upd_context (BINDER_MAX_CONTEXTS - 1)
                (c_devfs_handle_update (\<lambda>_. Some h)) (drv d)\<rparr>)))"

primrec fini_loop :: "nat list \<Rightarrow> binder_dev \<Rightarrow> binder_dev" where
  "fini_loop [] d = d"
| "fini_loop (i # is) d =
     (let d = (case c_devfs_handle (contexts (drv d) i) of
          None \<Rightarrow> d
        | Some h \<Rightarrow> (devfs_remove h d)\<lparr>drv := upd_context i (c_devfs_handle_update (\<lambda>_. None)) (drv d)\<rparr>) in
      fini_loop is (d\<lparr>drv := upd_context i (c_in_use_update (\<lambda>_. False)) (drv d)\<rparr>))"

definition binder_devices_fini :: "binder_dev \<Rightarrow> binder_dev" where
  "binder_devices_fini d = fini_loop [0..<BINDER_MAX_CONTEXTS] d"

end
