(* ===== verification/Binder_Lifecycle.thy ===== *)
theory Binder_Lifecycle
  imports Binder_Keeps Binder_Dev
begin

text \<open>
  The invariant of the whole driver through the life of a process: its open, the claim of a
  context by a manager, the other ioctls, and its close (\<^verbatim>\<open>kext/binder_proc.c\<close>,
  \<^verbatim>\<open>kext/binder_dev.c\<close>). The close is the hard part: the process may only leave the table of
  processes once no node names it as owner and no handle as holder, so \<open>owns\<close> follows its two
  lists through every step of the teardown.
\<close>

section \<open>What a process owns\<close>

definition owns :: "addr list \<Rightarrow> addr list \<Rightarrow> addr \<Rightarrow> binder_state \<Rightarrow> bool" where
  "owns ns rs p s \<longleftrightarrow> (\<exists>P. procs s p = Some P \<and> p_nodes P = ns \<and> p_refs P = rs)"

named_theorems ownership

lemma owns_core:
  assumes "core s' = core s" and "owns ns rs p s"
  shows "owns ns rs p s'"
proof -
  obtain P where P: "procs s p = Some P" "p_nodes P = ns" "p_refs P = rs" using assms(2) by (auto simp: owns_def)
  then obtain P' where P': "procs s' p = Some P'" using core_dom(1) [OF assms(1), of p] by auto
  then have "proc_view P' = proc_view P" using sameD(1) [OF core_same [OF assms(1)] P'] P(1) by auto
  then show ?thesis using P P' by (simp add: owns_def proc_view_def)
qed

lemma owns_frame [simp]:
  "owns ns rs p (s\<lparr>threads := a1\<rparr>) = owns ns rs p s" "owns ns rs p (s\<lparr>deaths := a2\<rparr>) = owns ns rs p s"
  "owns ns rs p (s\<lparr>txns := a3\<rparr>) = owns ns rs p s" "owns ns rs p (s\<lparr>completes := a4\<rparr>) = owns ns rs p s"
  "owns ns rs p (s\<lparr>stat_threads := i\<rparr>) = owns ns rs p s" "owns ns rs p (s\<lparr>nodes := a5\<rparr>) = owns ns rs p s"
  "owns ns rs p (s\<lparr>refs := a6\<rparr>) = owns ns rs p s" "owns ns rs p (s\<lparr>stat_refs := i\<rparr>) = owns ns rs p s"
  "owns ns rs p (s\<lparr>stat_nodes := i\<rparr>) = owns ns rs p s" "owns ns rs p (emit e s) = owns ns rs p s"
  "owns ns rs p (s\<lparr>stat_kdata_bytes := i\<rparr>) = owns ns rs p s" "owns ns rs p (s\<lparr>stat_arena_bytes := i\<rparr>) = owns ns rs p s"
  by (simp_all add: owns_def emit_def)

lemma owns_upd [ownership]:
  "upd_thread t f1 s = Some s' \<Longrightarrow> owns ns rs p s \<Longrightarrow> owns ns rs p s'"
  "upd_txn x f2 s = Some s' \<Longrightarrow> owns ns rs p s \<Longrightarrow> owns ns rs p s'"
  "upd_death e f3 s = Some s' \<Longrightarrow> owns ns rs p s \<Longrightarrow> owns ns rs p s'"
  "upd_node n f4 s = Some s' \<Longrightarrow> owns ns rs p s \<Longrightarrow> owns ns rs p s'"
  "upd_ref r f5 s = Some s' \<Longrightarrow> owns ns rs p s \<Longrightarrow> owns ns rs p s'"
  by (auto simp: upd_defs bind_eq_Some_conv)

lemma owns_upd_proc:
  assumes "upd_proc q f s = Some s'" and "owns ns rs p s" and "\<And>P. p_nodes (f P) = p_nodes P" and "\<And>P. p_refs (f P) = p_refs P"
  shows "owns ns rs p s'"
  using assms by (auto simp: upd_proc_def owns_def bind_eq_Some_conv)

lemma owns_proc_fields [ownership]:
  "upd_proc q (p_threads_update f1) s = Some s' \<Longrightarrow> owns ns rs p s \<Longrightarrow> owns ns rs p s'"
  "upd_proc q (p_sel_recorded_update f2) s = Some s' \<Longrightarrow> owns ns rs p s \<Longrightarrow> owns ns rs p s'"
  by (auto elim!: owns_upd_proc)

lemma owns_work [ownership]:
  "binder_queue_insert q w h s = Some s' \<Longrightarrow> owns ns rs p s \<Longrightarrow> owns ns rs p s'"
  "binder_enqueue_work p' w s = Some s' \<Longrightarrow> owns ns rs p s \<Longrightarrow> owns ns rs p s'"
  "binder_enqueue_thread_work t w s = Some s' \<Longrightarrow> owns ns rs p s \<Longrightarrow> owns ns rs p s'"
  "binder_dequeue_work w s = Some s' \<Longrightarrow> owns ns rs p s \<Longrightarrow> owns ns rs p s'"
  "binder_wakeup_proc p' s = Some s' \<Longrightarrow> owns ns rs p s \<Longrightarrow> owns ns rs p s'"
  "binder_wakeup_thread t s = Some s' \<Longrightarrow> owns ns rs p s \<Longrightarrow> owns ns rs p s'"
  "binder_free_transaction z s = Some s' \<Longrightarrow> owns ns rs p s \<Longrightarrow> owns ns rs p s'"
  "async_drain ws s = Some s' \<Longrightarrow> owns ns rs p s \<Longrightarrow> owns ns rs p s'"
  "binder_node_notify_owner n th s = Some s' \<Longrightarrow> owns ns rs p s \<Longrightarrow> owns ns rs p s'"
  by (auto simp: binder_enqueue_work_def binder_enqueue_thread_work_def bind_eq_Some_conv split: option.splits if_splits
      dest: core_insert core_dequeue core_wakeup_proc core_wakeup_thread core_free_transaction core_async_drain core_notify_owner
      intro: owns_core)

lemma owns_errors [ownership]:
  "set_return_error t br s = Some s' \<Longrightarrow> owns ns rs p s \<Longrightarrow> owns ns rs p s'"
  "fail_sender f br s = Some s' \<Longrightarrow> owns ns rs p s \<Longrightarrow> owns ns rs p s'"
  by (auto simp: set_return_error_def fail_sender_def bind_eq_Some_conv split: if_splits option.splits elim!: ownership)

lemma owns_buffer_free [ownership]:
  "binder_buffer_free q b s = Some s' \<Longrightarrow> owns ns rs p s \<Longrightarrow> owns ns rs p s'"
  unfolding binder_buffer_free_def Let_def
  by (elim runE) (auto elim!: owns_upd_proc split: if_splits)

section \<open>A process that owns nothing any more\<close>

text \<open>Releasing the objects of a buffer does nothing for a process with neither objects nor handles.\<close>

lemma bare_release_object:
  "release_object p kd fp s = Some s' \<Longrightarrow> owns [] [] p s \<Longrightarrow> s' = s"
  unfolding release_object_def
  by (elim runE) (auto simp: owns_def binder_node_find_def binder_ref_find_by_desc_def)

lemma bare_release_loop:
  "release_loop p kd ds off is s = Some s' \<Longrightarrow> owns [] [] p s \<Longrightarrow> s' = s"
proof (induction "is" arbitrary: s)
  case (Cons i "is")
  from Cons.prems show ?case
    by (auto simp: bind_eq_Some_conv split: option.splits if_splits dest!: bare_release_object dest: Cons.IH)
qed simp

lemma bare_buffer_release:
  "binder_transaction_buffer_release p b s = Some s' \<Longrightarrow> owns [] [] p s \<Longrightarrow> s' = s"
  by (auto simp: binder_transaction_buffer_release_def bind_eq_Some_conv split: option.splits if_splits dest!: bare_release_loop)

lemma bare_drop_buffer [ownership]:
  "drop_buffer p b s = Some s' \<Longrightarrow> owns [] [] p s \<Longrightarrow> owns [] [] p s'"
  by (auto simp: drop_buffer_def bind_eq_Some_conv split: option.splits dest!: bare_buffer_release elim!: ownership)

lemma bare_release_stack [ownership]:
  assumes "release_stack p t tx s = Some s'" and "owns [] [] p s"
  shows "owns [] [] p s'"
proof -
  let ?P = "\<lambda>p t tx s s'. owns [] [] p s \<longrightarrow> owns [] [] p s'"
  have "?P p t tx s s'"
  proof (rule release_stack.raw_induct [of ?P, OF _ assms(1)])
    fix loop p t tx s s'
    assume IH: "\<And>p t tx s s'. loop p t tx s = Some s' \<Longrightarrow> ?P p t tx s s'"
      and body: "(case tx of None \<Rightarrow> Some s
       | Some x \<Rightarrow> do {
         X \<leftarrow> txns s x;
         if x_from X = Some t then do {
           s \<leftarrow> upd_txn x (x_from_update (\<lambda>_. None)) s;
           loop p t (x_from_parent X) s }
         else if x_to_thread X = Some t then do {
           s \<leftarrow> upd_txn x (x_to_thread_update (\<lambda>_. None)) s;
           s \<leftarrow> drop_buffer p (x_buffer X) s;
           s \<leftarrow> upd_txn x (x_buffer_update (\<lambda>_. None)) s;
           s \<leftarrow> fail_sender (x_from X) BR_DEAD_REPLY s;
           loop p t (x_to_parent X) s }
         else Some s }) = Some s'"
    have go: "owns [] [] p s'" if "loop p t tx s = Some s'" "owns [] [] p s" for p t tx s s' using IH that by blast
    show "?P p t tx s s'" using body by (elim runE) (auto elim!: ownership go)
  qed
  then show ?thesis using assms(2) by simp
qed

lemma bare_thread_todo [ownership]:
  "release_thread_todo p ws s = Some s' \<Longrightarrow> owns [] [] p s \<Longrightarrow> owns [] [] p s'"
proof (induction ws arbitrary: s)
  case (Cons w ws)
  from Cons.prems show ?case unfolding release_thread_todo.simps
    by (elim runE) (auto split: work_ptr.splits elim!: runE ownership intro: Cons.IH)
qed simp

lemma bare_proc_todo [ownership]:
  "release_proc_todo p ws s = Some s' \<Longrightarrow> owns [] [] p s \<Longrightarrow> owns [] [] p s'"
proof (induction ws arbitrary: s)
  case (Cons w ws)
  from Cons.prems show ?case unfolding release_proc_todo.simps
    by (elim runE) (auto split: work_ptr.splits elim!: runE ownership intro: Cons.IH)
qed simp

lemma bare_thread_release [ownership]:
  "binder_thread_release p t s = Some (e, s') \<Longrightarrow> owns [] [] p s \<Longrightarrow> owns [] [] p s'"
  unfolding binder_thread_release_def by (elim runE) (auto elim!: ownership)

lemma bare_release_threads [ownership]:
  "release_threads p ts s = Some s' \<Longrightarrow> owns [] [] p s \<Longrightarrow> owns [] [] p s'"
proof (induction ts arbitrary: s)
  case (Cons t ts)
  from Cons.prems show ?case unfolding release_threads.simps
    by (elim runE) (auto elim!: ownership intro: Cons.IH)
qed simp

lemma owns_teardown [ownership]:
  "binder_arena_teardown q s = Some s' \<Longrightarrow> owns ns rs p s \<Longrightarrow> owns ns rs p s'"
  unfolding binder_arena_teardown_def Let_def
  by (elim runE) (auto elim!: owns_upd_proc split: if_splits)

lemma kernel_proc_todo [keeps]:
  "release_proc_todo p ws s = Some s' \<Longrightarrow> kernel_inv A s \<Longrightarrow> kernel_inv A s'"
proof (induction ws arbitrary: s)
  case (Cons w ws)
  from Cons.prems show ?case unfolding release_proc_todo.simps
    by (elim runE) (auto split: work_ptr.splits elim!: runE keeps intro: Cons.IH)
qed simp

lemma kernel_release_threads [keeps]:
  "release_threads p ts s = Some s' \<Longrightarrow> kernel_inv A s \<Longrightarrow> kernel_inv A s'"
proof (induction ts arbitrary: s)
  case (Cons t ts)
  from Cons.prems show ?case unfolding release_threads.simps
    by (elim runE) (auto elim!: keeps intro: Cons.IH)
qed simp

section \<open>Letting go of nodes and handles\<close>

lemma owner_exists:
  assumes "kernel_off A d s" and "owner_of s n = Some p"
  obtains P where "procs s p = Some P" "n \<in> set (p_nodes P)"
proof -
  obtain N where N: "nodes s n = Some N" "n_proc N = Some p" using assms(2) by (auto simp: owner_of_def bind_eq_Some_conv)
  then obtain P where P: "procs s p = Some P"
    using graph_offD(2) [OF kernel_offD(1) [OF assms(1)] N(1)] by (auto simp: node_graph_ok_def)
  then have "n \<in> set (p_nodes P)"
    using graph_offD(1) [OF kernel_offD(1) [OF assms(1)] P] assms(2) by (auto simp: proc_graph_ok_def)
  then show thesis using that P by blast
qed

lemma kernel_drop_mgr:
  assumes inv: "kernel_off A d s"
  shows "kernel_off A d (upd_context c (c_mgr_node_update (\<lambda>_. None)) s)"
proof (rule kernel_rest [OF inv])
  let ?s = "upd_context c (c_mgr_node_update (\<lambda>_. None)) s"
  note D = kernel_offD [OF inv]
  show "graph_off d ?s" by (rule graph_off_procs [OF D(1)]) (simp_all add: upd_context_def)
  show "mgr_ok ?s" using D(2) by (auto simp: mgr_ok_def upd_context_def owner_of_def context_of_def)
  show "handles_ok ?s" by (rule handles_ok_frame [OF _ D(3)]) (simp add: upd_context_def)
qed (use young_less [OF kernel_offD(4) [OF inv]] in \<open>auto simp: upd_context_def\<close>)

lemma kernel_local_counts:
  assumes inv: "kernel_off A d s" and N: "nodes s n = Some N"
    and N': "n_refs N' = n_refs N" "n_proc N' = n_proc N" "n_internal_strong_refs N' = n_internal_strong_refs N"
      "0 \<le> n_local_strong_refs N'" "0 \<le> n_local_weak_refs N'"
  shows "kernel_off A d (s\<lparr>nodes := (nodes s)(n \<mapsto> N')\<rparr>)"
proof -
  have "graph_off (d(n := d n + 0)) (s\<lparr>nodes := (nodes s)(n \<mapsto> N')\<rparr>)"
    by (rule graph_off_count [OF kernel_offD(1) [OF inv] N]) (use N' in simp_all)
  then show ?thesis using kernel_node_put [OF inv N N'(2)] by simp
qed

lemma release_mgr_cases:
  assumes inv: "kernel_off A d s" and op: "release_mgr p s = Some s'"
  shows "kernel_off A d s'" "manages_none s' p" "owns ns rs p s \<Longrightarrow> owns ns rs p s'"
proof -
  obtain P where P: "procs s p = Some P" using op by (auto simp: release_mgr_def bind_eq_Some_conv)
  have uniq: "p_context P = Some c" if "c_mgr_node (contexts s c) = Some m" "owner_of s m = Some p" for c m
    using kernel_offD(2) [OF inv] that P unfolding mgr_ok_def context_of_def by fastforce
  show "kernel_off A d s'" "manages_none s' p" "owns ns rs p s \<Longrightarrow> owns ns rs p s'"
  proof (atomize (full), cases "\<exists>c m. c_mgr_node (contexts s c) = Some m \<and> owner_of s m = Some p")
    case False
    then have "s' = s" using op P by (auto simp: release_mgr_def owner_of_def bind_eq_Some_conv split: option.splits if_splits)
    then show "kernel_off A d s' \<and> manages_none s' p \<and> (owns ns rs p s \<longrightarrow> owns ns rs p s')"
      using inv False by (simp add: manages_none_def)
  next
    case True
    then obtain c m where c: "c_mgr_node (contexts s c) = Some m" "owner_of s m = Some p" by blast
    obtain N where N: "nodes s m = Some N" "n_proc N = Some p" using c(2) by (auto simp: owner_of_def bind_eq_Some_conv)
    let ?s = "upd_context c (c_mgr_node_update (\<lambda>_. None)) s"
    let ?N = "N\<lparr>n_local_strong_refs := 0, n_local_weak_refs := 0, n_has_strong_ref := False, n_has_weak_ref := False\<rparr>"
    have s': "s' = ?s\<lparr>nodes := (nodes ?s)(m \<mapsto> ?N)\<rparr>"
      using op P uniq [OF c] c N by (simp add: release_mgr_def upd_node_def upd_context_def)
    have k: "kernel_off A d ?s" by (rule kernel_drop_mgr [OF inv])
    have Nc: "nodes ?s m = Some N" using N by (simp add: upd_context_def)
    have "kernel_off A d s'" unfolding s' by (rule kernel_local_counts [OF k Nc]) simp_all
    moreover have "owner_of s' = owner_of s" using N by (auto simp: s' owner_of_def upd_context_def)
    then have "manages_none s' p" using uniq c
      by (auto simp: manages_none_def s' upd_context_def dest: uniq)
    ultimately show "kernel_off A d s' \<and> manages_none s' p \<and> (owns ns rs p s \<longrightarrow> owns ns rs p s')"
      by (simp add: s' owns_def upd_context_def)
  qed
qed

lemma kernel_orphan:
  assumes inv: "kernel_off A d s" and P: "procs s p = Some P" and N: "nodes s n = Some N" "n_proc N = Some p"
    and mgr: "manages_none s p"
  shows "kernel_off A d (orphan p n P N s)"
proof (rule kernel_rest [OF inv])
  let ?s = "orphan p n P N s"
  note fr = orphan_frame [OF P N(1)] and D = kernel_offD [OF inv]
  show "graph_off d ?s" by (rule orphan_graph [OF D(1) P N])
  show "mgr_ok ?s"
    unfolding mgr_ok_def
  proof (intro allI impI)
    fix c m assume "c_mgr_node (contexts ?s c) = Some m"
    then have c: "c_mgr_node (contexts s c) = Some m" by (simp add: fr)
    then obtain q where q: "owner_of s m = Some q" "context_of s q = Some c" using D(2) unfolding mgr_ok_def by blast
    have "owner_of s m \<noteq> Some p" using mgr c unfolding manages_none_def by blast
    then have "m \<noteq> n" using N by (auto simp: owner_of_def)
    then show "\<exists>q. owner_of ?s m = Some q \<and> context_of ?s q = Some c"
      using q context_of_actors [OF fr(7)] by (simp add: fr(11))
  qed
  show "handles_ok ?s" by (rule handles_ok_frame [OF fr(4) D(3)])
  show "map_option (\<lambda>P. (p_context P, p_arena_addr P, p_arena_size P, p_buffers P)) (procs ?s q) =
      map_option (\<lambda>P. (p_context P, p_arena_addr P, p_arena_size P, p_buffers P)) (procs s q)" for q
    using P by (simp add: orphan_def)
qed (use young_less [OF kernel_offD(4) [OF inv]] N(1) in \<open>auto simp: orphan_def split: if_splits\<close>)

lemma same_enqueue: "binder_enqueue_work p w s = Some s' \<Longrightarrow> same s s'"
  by (auto simp: binder_enqueue_work_def intro: core_same core_insert)

lemma same_died_loop: "died_loop rs s = Some s' \<Longrightarrow> same s s'"
proof (induction rs arbitrary: s)
  case (Cons r rs)
  from Cons.prems show ?case unfolding died_loop.simps
    by (elim runE) (auto dest!: Cons.IH same_upd_death same_enqueue core_wakeup_proc [THEN core_same] intro: same_trans elim!: runE)
qed simp

lemma owns_same: "same s s' \<Longrightarrow> owns ns rs p s \<Longrightarrow> owns ns rs p s'"
proof -
  assume "same s s'" "owns ns rs p s"
  then obtain P where P: "procs s p = Some P" "p_nodes P = ns" "p_refs P = rs" by (auto simp: owns_def)
  moreover have "map_option proc_view (procs s' p) = map_option proc_view (procs s p)" using \<open>same s s'\<close> by (simp add: same_def)
  ultimately show ?thesis by (cases "procs s' p") (auto simp: owns_def proc_view_def)
qed

lemma manages_none_same: "same s s' \<Longrightarrow> manages_none s p \<Longrightarrow> manages_none s' p"
  by (simp add: manages_none_def same_refs sameD(7))

text \<open>A node without an owner is in nobody's list and manages nothing when it is freed.\<close>

lemma maybe_free_unowned:
  assumes op: "binder_node_maybe_free n s = Some s'" and own: "owner_of s n = None"
  shows "owns ns rs p s \<Longrightarrow> owns ns rs p s'" "manages_none s p \<Longrightarrow> manages_none s' p"
proof -
  obtain N where N: "nodes s n = Some N" using op by (auto simp: binder_node_maybe_free_def bind_eq_Some_conv)
  have np: "n_proc N = None" using own N by (simp add: owner_of_def)
  show "owns ns rs p s \<Longrightarrow> owns ns rs p s'" "manages_none s p \<Longrightarrow> manages_none s' p"
  proof (atomize (full), cases "reclaimable N")
    case False
    then have "s' = s" using op maybe_free_eq [OF N] np by simp
    then show "(owns ns rs p s \<longrightarrow> owns ns rs p s') \<and> (manages_none s p \<longrightarrow> manages_none s' p)" by simp
  next
    case True
    then obtain s1 where s1: "async_drain (n_async_todo N) s = Some s1" "s' = unlink_node n N s1"
      using op maybe_free_eq [OF N] np by (cases "async_drain (n_async_todo N) s") auto
    have sm: "same s s1" by (rule core_same [OF core_async_drain [OF s1(1)]])
    have "owns ns rs p s1 \<Longrightarrow> owns ns rs p s'" using np by (simp add: s1(2) owns_def unlink_node_frame)
    moreover have "owner_of s' m = Some p \<Longrightarrow> owner_of s1 m = Some p" for m
      by (auto simp: s1(2) owner_of_def unlink_node_frame split: if_splits)
    moreover have "contexts s' = contexts s1" using np by (simp add: s1(2) contexts_unlink_node)
    then have "manages_none s1 p \<Longrightarrow> manages_none s' p" using calculation(2) by (auto simp: manages_none_def)
    ultimately show "(owns ns rs p s \<longrightarrow> owns ns rs p s') \<and> (manages_none s p \<longrightarrow> manages_none s' p)"
      using owns_same [OF sm, of ns rs p] manages_none_same [OF sm, of p] by blast
  qed
qed

lemma release_nodes_kept:
  "release_nodes p ns s = Some s' \<Longrightarrow> kernel_inv A s \<Longrightarrow> manages_none s p \<Longrightarrow> owns ns rs p s \<Longrightarrow>
    kernel_inv A s' \<and> owns [] rs p s'"
proof (induction ns arbitrary: s)
  case (Cons n ns)
  note inv = Cons.prems(2)
  obtain P where P: "procs s p = Some P" "p_nodes P = n # ns" "p_refs P = rs" using Cons.prems(4) by (auto simp: owns_def)
  have "owner_of s n = Some p" using graph_offD(1) [OF kernel_offD(1) [OF inv] P(1)] P(2) by (auto simp: proc_graph_ok_def)
  then obtain N where N: "nodes s n = Some N" "n_proc N = Some p" by (auto simp: owner_of_def bind_eq_Some_conv)
  let ?o = "orphan p n P N s"
  have up: "upd_proc p (p_nodes_update (remove1 n)) s = Some (s\<lparr>procs := (procs s)(p \<mapsto> p_nodes_update (remove1 n) P)\<rparr>)"
    using P by (simp add: upd_proc_def)
  have "\<exists>s1 s2. died_loop (n_refs N) ?o = Some s1 \<and> binder_node_maybe_free n s1 = Some s2 \<and> release_nodes p ns s2 = Some s'"
    using Cons.prems(1) up N
    by (auto simp: binder_node_died_def binder_node_release_def upd_node_def orphan_def bind_eq_Some_conv)
  then obtain s1 s2 where s: "died_loop (n_refs N) ?o = Some s1" "binder_node_maybe_free n s1 = Some s2" "release_nodes p ns s2 = Some s'"
    by blast
  note fr = orphan_frame [OF P(1) N(1)]
  have ko: "kernel_inv A ?o" by (rule kernel_orphan [OF inv P(1) N Cons.prems(3)])
  have mo: "manages_none ?o p" using Cons.prems(3) by (simp add: manages_none_def fr)
  have oo: "owns ns rs p ?o" using P by (simp add: owns_def orphan_def)
  have sm: "same ?o s1" by (rule same_died_loop [OF s(1)])
  have un: "owner_of s1 n = None" by (simp add: same_refs [OF sm] fr)
  show ?case
    by (rule Cons.IH [OF s(3) kernel_maybe_free [OF s(2) kernel_same [OF sm ko]]
          maybe_free_unowned(2) [OF s(2) un manages_none_same [OF sm mo]] maybe_free_unowned(1) [OF s(2) un owns_same [OF sm oo]]])
qed simp

lemma bare_maybe_free:
  assumes op: "binder_node_maybe_free n s = Some s'" and inv: "kernel_off A d s" and o: "owns [] rs p s"
  shows "owns [] rs p s'"
proof -
  obtain N where N: "nodes s n = Some N" using op by (auto simp: binder_node_maybe_free_def bind_eq_Some_conv)
  have own: "procs s q \<noteq> None" if "n_proc N = Some q" for q
    using graph_offD(2) [OF kernel_offD(1) [OF inv] N] that by (auto simp: node_graph_ok_def)
  show ?thesis
  proof (cases "reclaimable N")
    case False
    then show ?thesis using op o maybe_free_eq [OF N own] by simp
  next
    case True
    then obtain s1 where s1: "async_drain (n_async_todo N) s = Some s1" "s' = unlink_node n N s1"
      using op maybe_free_eq [OF N own] by (cases "async_drain (n_async_todo N) s") auto
    have "owns [] rs p s1" by (rule owns_core [OF core_async_drain [OF s1(1)] o])
    then show ?thesis by (auto simp: s1(2) owns_def unlink_node_frame split: option.splits)
  qed
qed

lemma bare_update_refs:
  assumes op: "binder_node_update_refs n st inc itn th s = Some (e, s')" and inv: "kernel_off A d s" and o: "owns [] rs p s"
  shows "owns [] rs p s'"
proof (cases "e = OK")
  case False
  then show ?thesis using kernel_update_refs [OF op inv] o by simp
next
  case True
  then obtain N N' s1 where N: "nodes s n = Some N" "count_refs st inc itn N = Some (OK, N')"
      "core s1 = core (s\<lparr>nodes := (nodes s)(n \<mapsto> N')\<rparr>)" "binder_node_maybe_free n s1 = Some s'"
    using op by (auto simp: binder_node_update_refs_def upd_node_def bind_eq_Some_conv split: if_splits dest!: core_notify_owner)
  have "owns [] rs p s1" by (rule owns_core [OF N(3)]) (use o in simp)
  then show ?thesis by (rule bare_maybe_free [OF N(4) kernel_core [OF N(3) kernel_count [OF inv N(1,2)]]])
qed

lemma release_refs_kept:
  "release_refs rs s = Some s' \<Longrightarrow> kernel_inv A s \<Longrightarrow> owns [] rs p s \<Longrightarrow> kernel_inv A s' \<and> owns [] [] p s'"
proof (induction rs arbitrary: s)
  case (Cons r rs)
  note inv = Cons.prems(2)
  obtain s0 where s0: "binder_ref_delete r s = Some s0" "release_refs rs s0 = Some s'"
    using Cons.prems(1) by (auto simp: bind_eq_Some_conv)
  obtain P where P: "procs s p = Some P" "r \<in> set (p_refs P)" using Cons.prems(3) by (auto simp: owns_def)
  then have hold: "holder_of s r = Some p" using graph_offD(1) [OF kernel_offD(1) [OF inv] P(1)] by (auto simp: proc_graph_ok_def)
  have "owns [] rs p s0"
  proof (rule ref_delete_steps [OF s0(1) inv])
    fix s1 s2 R1 n N P1 e
    assume st: "same s s1" "refs s1 r = Some R1" "procs s1 (r_proc R1) = Some P1"
      "s2 = s1\<lparr>procs := (procs s1)(r_proc R1 \<mapsto> p_refs_update (remove1 r) P1),
       nodes := (nodes s1)(n \<mapsto> n_refs_update (remove1 r) N),
       refs := (refs s1)(r := None), stat_refs := stat_refs s1 - 1\<rparr>"
      and k2: "kernel_off A ((\<lambda>_. 0)(n := 0 + of_bool (0 < r_strong R1))) s2"
      and e: "binder_node_update_refs n (0 < r_strong R1) False True None s2 = Some (e, s0)"
    have "holder_of s1 r = Some p" using hold by (simp add: same_refs [OF st(1)])
    then have "r_proc R1 = p" using st(2) by (simp add: holder_of_def)
    then have "owns [] rs p s2" using owns_same [OF st(1) Cons.prems(3)] st(3,4) by (auto simp: owns_def)
    then show ?thesis by (rule bare_update_refs [OF e k2])
  qed
  then show ?case using Cons.IH [OF s0(2) kernel_ref_delete [OF s0(1) inv]] by simp
qed simp

section \<open>Processes\<close>

lemma kernel_remove_proc:
  assumes inv: "kernel_off A d s" and o: "owns [] [] p s"
  shows "kernel_off (A(p := None)) d (s\<lparr>procs := (procs s)(p := None)\<rparr>)"
proof -
  let ?s = "s\<lparr>procs := (procs s)(p := None)\<rparr>"
  note D = kernel_offD [OF inv]
  obtain P where P: "procs s p = Some P" "p_nodes P = []" "p_refs P = []" using o by (auto simp: owns_def)
  have n: "owner_of s m \<noteq> Some p" "holder_of s r \<noteq> Some p" for m r
    using graph_offD(1) [OF D(1) P(1)] P(2,3) by (auto simp: proc_graph_ok_def)
  have eq: "owner_of ?s = owner_of s" "holder_of ?s = holder_of s" "target_of ?s = target_of s" "holds_strong ?s = holds_strong s"
    by (auto simp: owner_of_def holder_of_def target_of_def holds_strong_def)
  have "graph_off d ?s"
    unfolding graph_off_def
  proof (intro conjI allI impI)
    show "proc_graph_ok ?s q Q" if "procs ?s q = Some Q" for q Q
      using that graph_offD(1) [OF D(1), of q Q] by (auto simp: proc_graph_ok_def eq split: if_splits)
    show "node_graph_ok ?s (d m) m M" if "nodes ?s m = Some M" for m M
      using that graph_offD(2) [OF D(1), of m M] n(1) [of m] by (auto simp: node_graph_ok_def eq owner_of_def)
    show "ref_graph_ok ?s R" if "refs ?s r = Some R" for r R
      using that graph_offD(3) [OF D(1), of r R] n(2) [of r] by (auto simp: ref_graph_ok_def holder_of_def)
  qed
  moreover have "mgr_ok ?s"
    unfolding mgr_ok_def eq
  proof (intro allI impI)
    fix c m assume "c_mgr_node (contexts ?s c) = Some m"
    then obtain q where q: "owner_of s m = Some q" "context_of s q = Some c" using D(2) unfolding mgr_ok_def by auto
    then have "q \<noteq> p" using n(1) [of m] by auto
    then show "\<exists>q. owner_of s m = Some q \<and> context_of ?s q = Some c" using q by (auto simp: context_of_def)
  qed
  moreover have "handles_ok ?s" by (rule handles_ok_frame [OF _ D(3)]) simp
  moreover have "context_of ?s = A(p := None)" using D(6) by (auto simp: context_of_def)
  moreover have "\<forall>q. procs ?s q = None \<longleftrightarrow> (A(p := None)) q = None" using kernel_offD(7) [OF inv] by simp
  moreover have "young ?s" "arenas_ok ?s" using D(4,5) by (auto simp: young_def arenas_ok_def)
  ultimately show ?thesis unfolding kernel_off_def by blast
qed

lemma kernel_proc_release:
  assumes op: "binder_proc_release p s = Some s'" and inv: "kernel_inv A s"
  shows "kernel_inv (A(p := None)) s'"
proof -
  obtain s1 s2 P2 s3 P3 s4 P4 s5 P5 s6 s7 P7 s8 where st:
      "upd_proc p (p_is_dead_update (\<lambda>_. True)) s = Some s1" "release_mgr p s1 = Some s2"
      "procs s2 p = Some P2" "release_nodes p (p_nodes P2) s2 = Some s3"
      "procs s3 p = Some P3" "release_refs (p_refs P3) s3 = Some s4"
      "procs s4 p = Some P4" "release_proc_todo p (p_todo P4) s4 = Some s5"
      "procs s5 p = Some P5" "release_threads p (p_threads P5) s5 = Some s6"
      "binder_arena_teardown p s6 = Some s7" "procs s7 p = Some P7"
      "(if p_sel_recorded P7 then upd_proc p (p_sel_recorded_update (\<lambda>_. False)) (emit (SelThreadClear p) s7)
           else Some s7) = Some s8"
      and s': "s' = (case p_context P7 of None \<Rightarrow> s8 | Some c \<Rightarrow> upd_context c (c_procs_update (remove1 p)) s8)
        \<lparr>procs := (procs (case p_context P7 of None \<Rightarrow> s8 | Some c \<Rightarrow> upd_context c (c_procs_update (remove1 p)) s8))(p := None),
         stat_procs := stat_procs (case p_context P7 of None \<Rightarrow> s8 | Some c \<Rightarrow> upd_context c (c_procs_update (remove1 p)) s8) - 1\<rparr>"
    using op unfolding binder_proc_release_def Let_def by (elim runE(1)) (rule that, assumption+, simp)
  have k1: "kernel_inv A s1" using st(1) inv by (auto elim!: keeps)
  note k2 = release_mgr_cases [OF k1 st(2)]
  have "owns (p_nodes P2) (p_refs P2) p s2" using st(3) by (simp add: owns_def)
  then have k3: "kernel_inv A s3" "owns [] (p_refs P2) p s3" using release_nodes_kept [OF st(4) k2(1,2)] by auto
  then have "owns [] (p_refs P3) p s3" using st(5) by (simp add: owns_def)
  then have k4: "kernel_inv A s4" "owns [] [] p s4" using release_refs_kept [OF st(6) k3(1)] by auto
  have k7: "kernel_inv A s7" "owns [] [] p s7" using st(8,10,11) k4 by (auto elim!: keeps ownership)
  have k8: "kernel_inv A s8" "owns [] [] p s8" using st(13) k7 by (auto split: if_splits elim!: keeps ownership)
  let ?t = "case p_context P7 of None \<Rightarrow> s8 | Some c \<Rightarrow> upd_context c (c_procs_update (remove1 p)) s8"
  have "kernel_inv A ?t" "owns [] [] p ?t"
    using k8 by (auto split: option.splits simp: owns_def upd_context_def intro!: kernel_context [unfolded upd_context_def])
  from kernel_remove_proc [OF this] show ?thesis by (simp add: s')
qed

lemma fresh_proc_ok: "proc_arena_ok (new_proc\<lparr>p_pid := i, p_context := c, p_max_threads := m\<rparr>)"
  by (simp add: proc_arena_ok_def new_proc_def arena_ok_def)

lemma kernel_add_proc:
  assumes inv: "kernel_off A d s" and new: "procs s p = None" "p < clock s"
    and P: "p_nodes P = []" "p_refs P = []" "p_buffers P = []" "proc_arena_ok P" "p_context P \<noteq> None"
  shows "kernel_off (A(p := p_context P)) d (s\<lparr>procs := (procs s)(p \<mapsto> P)\<rparr>)"
proof -
  let ?s = "s\<lparr>procs := (procs s)(p \<mapsto> P)\<rparr>"
  note D = kernel_offD [OF inv]
  have eq: "owner_of ?s = owner_of s" "holder_of ?s = holder_of s" "target_of ?s = target_of s" "holds_strong ?s = holds_strong s"
    by (auto simp: owner_of_def holder_of_def target_of_def holds_strong_def)
  have n: "owner_of s m \<noteq> Some p" for m using owner_exists [OF inv, of m p] new by auto
  have h: "holder_of s r \<noteq> Some p" for r
    using graph_offD(3) [OF D(1), of r] new by (auto simp: holder_of_def ref_graph_ok_def)
  have "graph_off d ?s"
    unfolding graph_off_def
  proof (intro conjI allI impI)
    show "proc_graph_ok ?s q Q" if "procs ?s q = Some Q" for q Q
      using that graph_offD(1) [OF D(1), of q Q] n h P by (auto simp: proc_graph_ok_def eq split: if_splits)
    show "node_graph_ok ?s (d m) m M" if "nodes ?s m = Some M" for m M
      using that graph_offD(2) [OF D(1), of m M] by (auto simp: node_graph_ok_def eq)
    show "ref_graph_ok ?s R" if "refs ?s r = Some R" for r R
      using that graph_offD(3) [OF D(1), of r R] by (auto simp: ref_graph_ok_def)
  qed
  moreover have "mgr_ok ?s"
    unfolding mgr_ok_def eq
  proof (intro allI impI)
    fix c m assume "c_mgr_node (contexts ?s c) = Some m"
    then obtain q where q: "owner_of s m = Some q" "context_of s q = Some c" using D(2) unfolding mgr_ok_def by auto
    then have "q \<noteq> p" using n [of m] by auto
    then show "\<exists>q. owner_of s m = Some q \<and> context_of ?s q = Some c" using q by (auto simp: context_of_def)
  qed
  moreover have "handles_ok ?s" by (rule handles_ok_frame [OF _ D(3)]) simp
  moreover have "context_of ?s = A(p := p_context P)" using D(6) by (auto simp: context_of_def)
  moreover have "\<forall>q. procs ?s q = None \<longleftrightarrow> (A(p := p_context P)) q = None" using kernel_offD(7) [OF inv] P(5) by simp
  moreover have "young ?s" "arenas_ok ?s" using D(4,5) new P(3,4) by (auto simp: young_def arenas_ok_def)
  ultimately show ?thesis unfolding kernel_off_def by blast
qed

lemma kernel_proc_new:
  assumes op: "binder_proc_new K c s = (found, s')" and inv: "kernel_inv A s"
  shows "case found of None \<Rightarrow> kernel_inv A s' | Some p \<Rightarrow> A p = None \<and> kernel_inv (A(p \<mapsto> c)) s'"
proof (cases "osmalloc K (clock s) (Sizeof ''binder_proc'')")
  case False
  then show ?thesis using op inv by (auto simp: binder_proc_new_def binder_alloc_mem_def)
next
  case True
  let ?p = "clock s" and ?s = "s\<lparr>clock := Suc (clock s)\<rparr>"
  let ?P = "new_proc\<lparr>p_pid := proc_selfpid K, p_context := Some c, p_max_threads := 15\<rparr>"
  have none: "procs s ?p = None" using kernel_offD(4) [OF inv] by (simp add: young_def)
  have "kernel_inv (A(?p := p_context ?P)) (?s\<lparr>procs := (procs ?s)(?p \<mapsto> ?P)\<rparr>)"
    by (rule kernel_add_proc) (use inv none in \<open>simp_all add: fresh_proc_ok, simp_all add: new_proc_def\<close>)
  moreover have "A ?p = None" using none kernel_offD(6) [OF inv] by (auto simp: context_of_def)
  moreover have "found = Some ?p"
    "s' = (upd_context c (c_procs_update (\<lambda>ps. ?p # ps)) (?s\<lparr>procs := (procs ?s)(?p \<mapsto> ?P)\<rparr>))
       \<lparr>stat_procs := stat_procs (upd_context c (c_procs_update (\<lambda>ps. ?p # ps)) (?s\<lparr>procs := (procs ?s)(?p \<mapsto> ?P)\<rparr>)) + 1\<rparr>"
    using op True by (simp_all add: binder_proc_new_def binder_alloc_mem_def Let_def)
  ultimately show ?thesis by (simp add: kernel_context)
qed

section \<open>Context managers\<close>

lemma owner_node_new:
  assumes op: "binder_node_new K p ptr cookie flags s = Some (Some n, s')" and inv: "kernel_inv A s"
  shows "owner_of s' n = Some p"
proof -
  obtain old where f: "binder_node_find p ptr s = Some old" using op by (auto simp: binder_node_new_def bind_eq_Some_conv)
  obtain P where P: "procs s p = Some P" using f by (auto simp: binder_node_find_def bind_eq_Some_conv)
  show ?thesis
  proof (cases old)
    case (Some m)
    then have m: "m = n" "s' = s" using op f by (simp_all add: binder_node_new_def)
    show ?thesis using node_find_spec [OF kernel_offD(1) [OF inv] P, of ptr] f Some m by (auto simp: owner_of_def)
  next
    case None
    then show ?thesis using op f P
      by (auto simp: binder_node_new_def binder_alloc_mem_def binder_next_debug_id_def upd_proc_def owner_of_def Let_def
          bind_eq_Some_conv split: if_splits)
  qed
qed

lemma kernel_set_mgr:
  assumes inv: "kernel_off A d s" and own: "owner_of s n = Some p" and c: "A p = Some c"
  shows "kernel_off A d (upd_context c (c_mgr_node_update (\<lambda>_. Some n)) s)"
proof (rule kernel_rest [OF inv])
  let ?s = "upd_context c (c_mgr_node_update (\<lambda>_. Some n)) s"
  note D = kernel_offD [OF inv]
  show "graph_off d ?s" by (rule graph_off_procs [OF D(1)]) (simp_all add: upd_context_def)
  have eq: "owner_of ?s = owner_of s" "context_of ?s = context_of s" by (auto simp: owner_of_def context_of_def upd_context_def)
  show "mgr_ok ?s" using D(2) own c D(6) unfolding mgr_ok_def eq by (auto simp: upd_context_def)
  show "handles_ok ?s" by (rule handles_ok_frame [OF _ D(3)]) (simp add: upd_context_def)
qed (use young_less [OF kernel_offD(4) [OF inv]] in \<open>auto simp: upd_context_def\<close>)

lemma kernel_install_mgr:
  assumes inv: "kernel_inv A s" and own: "owner_of s n = Some p" and c: "A p = Some c"
    and op: "(let s = upd_context c (c_mgr_node_update (\<lambda>_. Some n)) s in do {
       N \<leftarrow> nodes s n;
       i \<leftarrow> int_inc (n_local_strong_refs N);
       j \<leftarrow> int_inc (n_local_weak_refs N);
       s \<leftarrow> upd_node n (\<lambda>N. N\<lparr>n_local_strong_refs := i, n_local_weak_refs := j,
         n_has_strong_ref := True, n_has_weak_ref := True\<rparr>) s;
       Some (OK, s) }) = Some (e, s')"
  shows "kernel_inv A s'"
proof -
  let ?t = "upd_context c (c_mgr_node_update (\<lambda>_. Some n)) s"
  have k: "kernel_inv A ?t" by (rule kernel_set_mgr [OF inv own c])
  obtain N i j where N: "nodes ?t n = Some N" "int_inc (n_local_strong_refs N) = Some i" "int_inc (n_local_weak_refs N) = Some j"
      "s' = ?t\<lparr>nodes := (nodes ?t)(n \<mapsto> N\<lparr>n_local_strong_refs := i, n_local_weak_refs := j,
         n_has_strong_ref := True, n_has_weak_ref := True\<rparr>)\<rparr>"
    using op by (auto simp: bind_eq_Some_conv upd_node_def Let_def)
  have "node_graph_ok ?t 0 n N" using graph_offD(2) [OF kernel_offD(1) [OF k] N(1)] by simp
  then have "0 \<le> i" "0 \<le> j" using N(2,3) by (auto simp: node_graph_ok_def)
  then show ?thesis unfolding N(4) by (intro kernel_local_counts [OF k N(1)]) simp_all
qed

lemma kernel_mgr_set [keeps]:
  assumes op: "binder_context_mgr_set K p ptr cookie flags s = Some (e, s')" and inv: "kernel_inv A s"
  shows "kernel_inv A s'"
proof -
  obtain P where P: "procs s p = Some P" using op by (auto simp: binder_context_mgr_set_def bind_eq_Some_conv)
  show ?thesis
  proof (cases "p_context P")
    case None
    then show ?thesis using op P inv by (simp add: binder_context_mgr_set_def)
  next
    case (Some c)
    then have c: "A p = Some c" using P kernel_offD(6) [OF inv] by (auto simp: context_of_def)
    let ?s = "if c_mgr_uid_valid (contexts s c) then s
      else upd_context c (\<lambda>C. C\<lparr>c_mgr_uid := kauth_uid K, c_mgr_uid_valid := True\<rparr>) s"
    have k: "kernel_inv A ?s" using inv by (simp add: kernel_context)
    show ?thesis
    proof (cases "binder_node_new K p ptr cookie flags ?s")
      case None
      then show ?thesis using op P Some inv by (auto simp: binder_context_mgr_set_def Let_def split: if_splits)
    next
      case new: (Some r)
      then obtain node s1 where s1: "binder_node_new K p ptr cookie flags ?s = Some (node, s1)" by (cases r) simp
      have k1: "kernel_inv A s1" by (rule kernel_node_new [OF s1 k])
      have "kernel_inv A s'" if "node = Some n" "s' \<noteq> s" for n
        by (rule kernel_install_mgr [OF k1 owner_node_new [OF s1 [unfolded that(1)] k] c])
          (use op P Some s1 that in \<open>auto simp: binder_context_mgr_set_def Let_def split: if_splits\<close>)
      then show ?thesis using op P Some s1 k1 inv
        by (cases node) (auto simp: binder_context_mgr_set_def Let_def split: if_splits)
    qed
  qed
qed

section \<open>The ioctls\<close>

lemma kernel_set_max_threads [keeps]:
  "ioctl_set_max_threads p data s = Some (r, s') \<Longrightarrow> kernel_inv A s \<Longrightarrow> kernel_inv A s'"
  unfolding ioctl_set_max_threads_def Let_def by (elim runE) (auto elim!: keeps)

lemma kernel_freeze [keeps]:
  "ioctl_freeze p data s = Some (r, s') \<Longrightarrow> kernel_inv A s \<Longrightarrow> kernel_inv A s'"
  unfolding ioctl_freeze_def by (elim runE) (auto elim!: keeps)

lemma kernel_extended_error [keeps]:
  "ioctl_extended_error p data s = Some (r, s') \<Longrightarrow> kernel_inv A s \<Longrightarrow> kernel_inv A s'"
  unfolding ioctl_extended_error_def Let_def by (elim runE) (auto elim!: keeps)

lemma query_debug_info: "ioctl_node_debug_info p data s = Some (r, s') \<Longrightarrow> s' = s"
  unfolding ioctl_node_debug_info_def by (elim runE) auto

lemma query_info_for_ref: "ioctl_node_info_for_ref p data s = Some (r, s') \<Longrightarrow> s' = s"
  by (auto simp: ioctl_node_info_for_ref_def bind_eq_Some_conv split: option.splits)

lemma query_frozen_info: "ioctl_frozen_info p data s = Some (r, s') \<Longrightarrow> s' = s"
  by (auto simp: ioctl_frozen_info_def Let_def bind_eq_Some_conv)

lemmas ioctl_queries = query_debug_info query_info_for_ref query_frozen_info

lemma ioctl_errno_run: "ioctl_errno data m = Some (r, s') \<Longrightarrow> \<exists>e. m = Some (e, s')"
  by (auto simp: ioctl_errno_def bind_eq_Some_conv)

lemma kernel_dispatch [keeps]:
  assumes "ioctl_dispatch K key p t data s = Some (r, s')" and "kernel_inv A s" and "page_ok K"
  shows "kernel_inv A s'"
  using assms unfolding ioctl_dispatch_def
  by (elim runE) (auto dest!: ioctl_queries dest: ioctl_errno_run elim!: keeps)

end
