(* ===== verification/Binder_Front.thy ===== *)
theory Binder_Front
  imports Binder_Dev
begin

text \<open>
  The device front end (\<^verbatim>\<open>kext/binder_dev.c\<close>): which minor a lookup is given and for how
  long, that an opened minor belongs to one process, that context names stay
  unique, and that \<open>select\<close> says what the read loop would do, for a thread that is not frozen.
\<close>

section \<open>The table of minors\<close>

definition slots_ok :: "binder_dev \<Rightarrow> bool" where
  "slots_ok d \<longleftrightarrow> (\<forall>i. l_opened (g_slots d i) \<longrightarrow> l_cloned (g_slots d i) \<and> l_context (g_slots d i) \<noteq> None) \<and>
     (\<forall>i. l_sequence (g_slots d i) \<le> g_slot_sequence d)"

lemma oldest_loop_spec:
  assumes "oldest_loop sl is best = (r, q)"
  shows "(r, q) = best \<and> (\<forall>i \<in> set is. l_opened (sl i) \<or> snd best \<le> l_sequence (sl i)) \<or>
    (\<exists>i \<in> set is. r = Some i \<and> \<not> l_opened (sl i) \<and> q = l_sequence (sl i) \<and> q < snd best \<and>
       (\<forall>j \<in> set is. l_opened (sl j) \<or> q \<le> l_sequence (sl j)))"
  using assms
proof (induction "is" arbitrary: best)
  case Nil
  then show ?case by simp
next
  case (Cons i "is")
  let ?b = "if \<not> l_opened (sl i) \<and> l_sequence (sl i) < snd best then (Some i, l_sequence (sl i)) else best"
  have "oldest_loop sl is ?b = (r, q)" using Cons.prems by simp
  from Cons.IH [OF this] show ?case
  proof (elim disjE)
    assume h: "(r, q) = ?b \<and> (\<forall>j \<in> set is. l_opened (sl j) \<or> snd ?b \<le> l_sequence (sl j))"
    show ?thesis
    proof (cases "\<not> l_opened (sl i) \<and> l_sequence (sl i) < snd best")
      case True
      then show ?thesis using h by (intro disjI2 bexI [of _ i]) auto
    next
      case False
      then show ?thesis using h by (intro disjI1) auto
    qed
  next
    assume "\<exists>j \<in> set is. r = Some j \<and> \<not> l_opened (sl j) \<and> q = l_sequence (sl j) \<and> q < snd ?b \<and>
       (\<forall>k \<in> set is. l_opened (sl k) \<or> q \<le> l_sequence (sl k))"
    then obtain j where j: "j \<in> set is" "r = Some j" "\<not> l_opened (sl j)" "q = l_sequence (sl j)" "q < snd ?b"
        "\<forall>k \<in> set is. l_opened (sl k) \<or> q \<le> l_sequence (sl k)"
      by blast
    then show ?thesis
      by (intro disjI2 bexI [of _ j]) (auto split: if_splits)
  qed
qed

text \<open>The slot a new lookup takes: an unused one, or when there is none the one whose
  lookup was made longest ago, never one that is open.\<close>

definition victim :: "(nat \<Rightarrow> binder_open_slot) \<Rightarrow> nat \<Rightarrow> bool" where
  "victim sl i \<longleftrightarrow> i < BINDER_MAX_OPENS \<and>
     (if \<exists>j < BINDER_MAX_OPENS. \<not> l_cloned (sl j) then \<not> l_cloned (sl i)
      else \<not> l_opened (sl i) \<and> (\<forall>j < BINDER_MAX_OPENS. l_opened (sl j) \<or> l_sequence (sl i) \<le> l_sequence (sl j)))"

lemma pick_slot_spec:
  assumes "\<And>i. l_opened (sl i) \<Longrightarrow> l_cloned (sl i)" and "\<And>i. l_sequence (sl i) < - 1"
  shows "case pick_slot sl of None \<Rightarrow> \<forall>i < BINDER_MAX_OPENS. l_opened (sl i)
    | Some i \<Rightarrow> victim sl i"
proof (cases "find (\<lambda>i. \<not> l_cloned (sl i)) [0..<BINDER_MAX_OPENS]")
  case (Some i)
  then have "i < BINDER_MAX_OPENS" "\<not> l_cloned (sl i)" using find_SomeD by fastforce+
  then show ?thesis using Some by (auto simp: pick_slot_def victim_def)
next
  case None
  have all: "l_cloned (sl i)" if "i < BINDER_MAX_OPENS" for i
    using find_NoneD [OF None, of i] that by simp
  obtain r q where rq: "oldest_loop sl [0..<BINDER_MAX_OPENS] (None, - 1) = (r, q)" by force
  have p: "pick_slot sl = r" using None rq by (simp add: pick_slot_def)
  from oldest_loop_spec [OF rq] show ?thesis
  proof (elim disjE)
    assume h: "(r, q) = (None, - 1) \<and>
      (\<forall>i \<in> set [0..<BINDER_MAX_OPENS]. l_opened (sl i) \<or> snd (None :: nat option, - 1) \<le> l_sequence (sl i))"
    have "l_opened (sl i)" if "i < BINDER_MAX_OPENS" for i
      using h assms(2) [of i] that by auto
    then show ?thesis using h p by simp
  next
    assume "\<exists>i \<in> set [0..<BINDER_MAX_OPENS]. r = Some i \<and> \<not> l_opened (sl i) \<and> q = l_sequence (sl i) \<and>
      q < snd (None :: nat option, - 1) \<and> (\<forall>j \<in> set [0..<BINDER_MAX_OPENS]. l_opened (sl j) \<or> q \<le> l_sequence (sl j))"
    then show ?thesis using p all by (auto simp: victim_def)
  qed
qed

lemma clone_cases:
  assumes ok: "slots_ok d" and seq: "g_slot_sequence d < - 1"
  obtains (none) "binder_context_for_minor m d = None" "binder_clone K m True d = (None, d)"
  | (full) c where "binder_context_for_minor m d = Some c" "\<forall>i < BINDER_MAX_OPENS. l_opened (g_slots d i)"
      "binder_clone K m True d = (None, d)"
  | (again) c i where "binder_context_for_minor m d = Some c"
      "find (\<lambda>i. slot_waits_for (proc_selfpid (kern K)) c (g_slots d i)) [0..<BINDER_MAX_OPENS] = Some i"
      "binder_clone K m True d = (Some (BINDER_CLONE_BASE + i), d\<lparr>g_slot_sequence := g_slot_sequence d + 1,
         g_slots := (g_slots d)(i := (g_slots d i)\<lparr>l_sequence := g_slot_sequence d + 1\<rparr>)\<rparr>)"
  | (new) c i where "binder_context_for_minor m d = Some c" "victim (g_slots d) i"
      "find (\<lambda>i. slot_waits_for (proc_selfpid (kern K)) c (g_slots d i)) [0..<BINDER_MAX_OPENS] = None"
      "binder_clone K m True d = (Some (BINDER_CLONE_BASE + i), d\<lparr>g_slot_sequence := g_slot_sequence d + 1,
         g_slots := (g_slots d)(i := \<lparr>l_cloned = True, l_opened = False, l_lookup_pid = proc_selfpid (kern K),
           l_context = Some c, l_proc = None, l_sequence = g_slot_sequence d + 1\<rparr>)\<rparr>)"
proof (cases "binder_context_for_minor m d")
  case None
  then show ?thesis using none by (simp add: binder_clone_def)
next
  case (Some c)
  let ?f = "find (\<lambda>i. slot_waits_for (proc_selfpid (kern K)) c (g_slots d i)) [0..<BINDER_MAX_OPENS]"
  have "\<And>i. l_sequence (g_slots d i) < - 1" using ok seq by (meson order_le_less_trans slots_ok_def)
  then have pick: "case pick_slot (g_slots d) of None \<Rightarrow> \<forall>i < BINDER_MAX_OPENS. l_opened (g_slots d i)
      | Some i \<Rightarrow> victim (g_slots d) i"
    using pick_slot_spec [of "g_slots d"] ok by (simp add: slots_ok_def)
  show ?thesis
  proof (cases ?f)
    case (Some i)
    then show ?thesis using again \<open>binder_context_for_minor m d = Some c\<close> by (simp add: binder_clone_def Let_def)
  next
    case f: None
    show ?thesis
    proof (cases "pick_slot (g_slots d)")
      case None
      then show ?thesis using full [OF Some] pick Some f by (simp add: binder_clone_def Let_def)
    next
      case (Some i)
      then show ?thesis using new [OF \<open>binder_context_for_minor m d = Some c\<close> _ f] pick f \<open>binder_context_for_minor m d = Some c\<close>
        by (simp add: binder_clone_def Let_def)
    qed
  qed
qed

lemma seq_grows: "q < - 1 \<Longrightarrow> q \<le> q + 1" for q :: u64
proof -
  assume "q < - 1"
  moreover have "unat (- 1 :: u64) = 2 ^ 64 - 1" by (simp add: unsigned_minus_1_eq_mask mask_eq_exp_minus_1)
  ultimately have "unat q < 2 ^ 64 - 1" by (simp add: word_less_nat_alt)
  then have "unat (q + 1) = unat q + 1" by (simp add: unat_word_ariths)
  then show ?thesis by (simp add: word_le_nat_alt)
qed

lemma slots_ok_set:
  assumes "slots_ok d" and "g_slot_sequence d < - 1" and "l_opened l \<Longrightarrow> l_cloned l \<and> l_context l \<noteq> None"
    and "l_sequence l = g_slot_sequence d + 1"
  shows "slots_ok (d\<lparr>g_slot_sequence := g_slot_sequence d + 1, g_slots := (g_slots d)(i := l)\<rparr>)"
  using assms seq_grows [OF assms(2)] order_trans by (fastforce simp: slots_ok_def)

lemma found_slot:
  assumes "find P [0..<BINDER_MAX_OPENS] = Some i"
  shows "i < BINDER_MAX_OPENS" "P i"
  using find_SomeD [OF assms] by auto

lemma find_slot_kept:
  assumes "find P [0..<BINDER_MAX_OPENS] = Some i \<or> find P [0..<BINDER_MAX_OPENS] = None"
    and "i < BINDER_MAX_OPENS" and "Q i" and "\<And>j. j \<noteq> i \<Longrightarrow> Q j = P j"
  shows "find Q [0..<BINDER_MAX_OPENS] = Some i"
proof -
  have "\<not> P j" if "j < i" for j
    using assms(1,2) that by (auto simp: find_Some_iff find_None_iff)
  then have "\<forall>j < i. \<not> Q j" using assms(4) by auto
  then show ?thesis using assms(2,3) by (auto simp: find_Some_iff intro!: exI [of _ i])
qed

lemma slot_for_clone: "i < BINDER_MAX_OPENS \<Longrightarrow> binder_slot_for_dev (BINDER_CLONE_BASE + i) = Some i"
  by (simp add: binder_slot_for_dev_def)

lemma clone_never_open:
  assumes "slots_ok d" and "g_slot_sequence d < - 1" and "binder_clone K m True d = (Some x, d')"
  shows "\<exists>i. binder_slot_for_dev x = Some i \<and> \<not> l_opened (g_slots d i)"
  using assms(1,2)
proof (cases rule: clone_cases [where K = K and m = m])
  case (again c i)
  then show ?thesis
    using assms(3) found_slot [OF again(2)] slot_for_clone by (auto simp: slot_waits_for_def)
next
  case (new c i)
  then have "i < BINDER_MAX_OPENS" "\<not> l_opened (g_slots d i)"
    using assms(1) by (auto simp: victim_def slots_ok_def split: if_splits)
  then show ?thesis using assms(3) new slot_for_clone by auto
qed (use assms(3) in auto)

lemma clone_waits:
  assumes "slots_ok d" and "g_slot_sequence d < - 1" and "binder_clone K m True d = (Some x, d')"
  shows "\<exists>c i. binder_context_for_minor m d = Some c \<and> binder_slot_for_dev x = Some i \<and>
    slot_waits_for (proc_selfpid (kern K)) c (g_slots d' i) \<and> slots_ok d' \<and>
    (\<forall>j. j \<noteq> i \<longrightarrow> g_slots d' j = g_slots d j) \<and> drv d' = drv d \<and> g_slot_sequence d' = g_slot_sequence d + 1"
  using assms(1,2)
proof (cases rule: clone_cases [where K = K and m = m])
  case (again c i)
  note i = found_slot [OF again(2)]
  show ?thesis
    using again(1,3) assms(3) i slots_ok_set [OF assms(1,2), of "(g_slots d i)\<lparr>l_sequence := g_slot_sequence d + 1\<rparr>" i]
      slot_for_clone [OF i(1)]
    by (auto simp: slot_waits_for_def slots_ok_def)
next
  case (new c i)
  then have i: "i < BINDER_MAX_OPENS" by (simp add: victim_def)
  show ?thesis
    using new(1,4) assms(3) slot_for_clone [OF i]
      slots_ok_set [OF assms(1,2), of "\<lparr>l_cloned = True, l_opened = False, l_lookup_pid = proc_selfpid (kern K),
           l_context = Some c, l_proc = None, l_sequence = g_slot_sequence d + 1\<rparr>" i]
    by (auto simp: slot_waits_for_def)
qed (use assms(3) in auto)

text \<open>The device with its three static contexts, as loading leaves it, and no minor cloned.\<close>

definition dev_example :: binder_dev where
  "dev_example = \<lparr>drv = initial_state\<lparr>contexts := (\<lambda>i. if i < 3 then empty_context\<lparr>c_in_use := True,
       c_name := binder_static_contexts ! i\<rparr> else empty_context)\<rparr>,
     g_slots = (\<lambda>_. empty_slot), g_slot_sequence = 0, g_binder_major = 21, published = []\<rparr>"

definition quiet_dev :: dev_kpi where
  "quiet_dev = \<lparr>kern = quiet_kpi, make_node = (\<lambda>_ _. True)\<rparr>"

lemma dev_example_ok: "slots_ok dev_example" "g_slot_sequence dev_example < - 1"
  by (simp_all add: slots_ok_def dev_example_def empty_slot_def word_greater_zero_iff)

lemma dev_example_free:
  "binder_context_for_minor 0 dev_example = Some 0" "\<exists>i < BINDER_MAX_OPENS. \<not> l_opened (g_slots dev_example i)"
  by (auto simp: binder_context_for_minor_def dev_example_def abi_defs empty_slot_def intro!: exI [of _ 0])

text \<open>C31: cloning hands out a minor exactly when the context exists and some minor is not
  open. When the caller has an outstanding minor for that context it is given the first such minor; only otherwise
  is it given an unused one, else the one looked up longest ago; an open minor is never taken. The minor ends up
  waiting for the caller's open of that context, and no other minor and nothing of the driver changes.\<close>

theorem clone_exact:
  assumes "slots_ok d" and "g_slot_sequence d < - 1"
  shows "case binder_clone K m True d of
      (None, d') \<Rightarrow> d' = d \<and> (binder_context_for_minor m d = None \<or> (\<forall>i < BINDER_MAX_OPENS. l_opened (g_slots d i)))
    | (Some x, d') \<Rightarrow> \<exists>c i. binder_context_for_minor m d = Some c \<and> binder_slot_for_dev x = Some i \<and>
        \<not> l_opened (g_slots d i) \<and>
        (if \<exists>j < BINDER_MAX_OPENS. slot_waits_for (proc_selfpid (kern K)) c (g_slots d j)
         then slot_waits_for (proc_selfpid (kern K)) c (g_slots d i) \<and>
           (\<forall>j < i. \<not> slot_waits_for (proc_selfpid (kern K)) c (g_slots d j))
         else victim (g_slots d) i) \<and>
        slot_waits_for (proc_selfpid (kern K)) c (g_slots d' i) \<and>
        (\<forall>j. j \<noteq> i \<longrightarrow> g_slots d' j = g_slots d j) \<and> drv d' = drv d \<and> slots_ok d'"
  using assms
proof (cases rule: clone_cases [where K = K and m = m])
  case none
  then show ?thesis by simp
next
  case (full c)
  then show ?thesis by simp
next
  case (again c i)
  note i = found_slot [OF again(2)]
  have "\<forall>j < i. \<not> slot_waits_for (proc_selfpid (kern K)) c (g_slots d j)"
    using again(2) by (auto simp: find_Some_iff)
  then show ?thesis
    using again(1,3) i slots_ok_set [OF assms, of "(g_slots d i)\<lparr>l_sequence := g_slot_sequence d + 1\<rparr>" i] slot_for_clone [OF i(1)]
    by (auto simp: slot_waits_for_def)
next
  case (new c i)
  have i: "i < BINDER_MAX_OPENS" "\<not> l_opened (g_slots d i)"
    using new(2) assms(1) by (auto simp: victim_def slots_ok_def split: if_splits)
  have "\<not> (\<exists>j < BINDER_MAX_OPENS. slot_waits_for (proc_selfpid (kern K)) c (g_slots d j))"
    using new(3) by (auto simp: find_None_iff)
  then show ?thesis
    using new(1,2,4) i slot_for_clone [OF i(1)]
      slots_ok_set [OF assms, of "\<lparr>l_cloned = True, l_opened = False, l_lookup_pid = proc_selfpid (kern K),
           l_context = Some c, l_proc = None, l_sequence = g_slot_sequence d + 1\<rparr>" i]
    by (auto simp: slot_waits_for_def)
qed

text \<open>A device on which minor 5 is outstanding for the caller, and minor 0 is unused.\<close>

definition looked_up_example :: binder_dev where
  "looked_up_example = dev_example\<lparr>g_slots := (\<lambda>i. if i = 5 then empty_slot\<lparr>l_cloned := True, l_lookup_pid := 100,
     l_context := Some 0\<rparr> else empty_slot)\<rparr>"

lemma looked_up_example_ok:
  "slots_ok looked_up_example" "g_slot_sequence looked_up_example < - 1"
  "binder_context_for_minor 0 looked_up_example = Some 0"
  "slot_waits_for 100 0 (g_slots looked_up_example j) \<longleftrightarrow> j = 5" "\<not> l_opened (g_slots looked_up_example j)"
  by (auto simp: slots_ok_def looked_up_example_def dev_example_def empty_slot_def word_greater_zero_iff
      binder_context_for_minor_def abi_defs slot_waits_for_def)

theorem clone_exact_witness:
  "(\<exists>d' i. binder_clone quiet_dev 0 True dev_example = (Some (BINDER_CLONE_BASE + i), d') \<and>
      victim (g_slots dev_example) i \<and> slot_waits_for 100 0 (g_slots d' i) \<and> slots_ok d') \<and>
   (\<exists>d'. binder_clone quiet_dev 0 True looked_up_example = (Some (BINDER_CLONE_BASE + 5), d') \<and>
      slot_waits_for 100 0 (g_slots d' 5) \<and> slots_ok d')"
proof -
  have none: "\<not> slot_waits_for 100 c (g_slots dev_example j)" for c j
    by (simp add: dev_example_def empty_slot_def slot_waits_for_def)
  have num: "binder_slot_for_dev x = Some i \<Longrightarrow> x = BINDER_CLONE_BASE + i" for x i
    by (auto simp: binder_slot_for_dev_def split: if_splits)
  show ?thesis
    using clone_exact [OF dev_example_ok, where K = quiet_dev and m = 0] dev_example_free none
      clone_exact [OF looked_up_example_ok(1,2), where K = quiet_dev and m = 0] looked_up_example_ok(3-5)
    by (auto simp: quiet_dev_def quiet_kpi_def BINDER_MAX_OPENS_def dest!: num split: prod.splits option.splits)
qed

text \<open>C38: looking a node up again before opening it gives the same minor, so a \<open>stat\<close> that precedes
  an \<open>open\<close> does not use another one up.\<close>

theorem clone_stable:
  assumes "slots_ok d" and "g_slot_sequence d < - 1" and "binder_clone K m True d = (Some x, d1)"
  shows "fst (binder_clone K m True d1) = Some x"
proof -
  let ?w = "\<lambda>c l. slot_waits_for (proc_selfpid (kern K)) c l"
  have same: "fst (binder_clone K m True d1) = Some x"
    if "binder_context_for_minor m d1 = Some c" "x = BINDER_CLONE_BASE + i"
      "find (\<lambda>i. ?w c (g_slots d1 i)) [0..<BINDER_MAX_OPENS] = Some i" for c i
    using that by (simp add: binder_clone_def Let_def)
  show ?thesis
    using assms(1,2)
  proof (cases rule: clone_cases [where K = K and m = m])
    case none
    then show ?thesis using assms(3) by simp
  next
    case (full c)
    then show ?thesis using assms(3) by simp
  next
    case (again c i)
    note i = found_slot [OF again(2)]
    have "find (\<lambda>i. ?w c (g_slots d1 i)) [0..<BINDER_MAX_OPENS] = Some i"
      by (rule find_slot_kept [OF disjI1 [OF again(2)] i(1)])
        (use assms(3) again i in \<open>auto simp: slot_waits_for_def\<close>)
    moreover have "binder_context_for_minor m d1 = Some c" "x = BINDER_CLONE_BASE + i"
      using assms(3) again by (auto simp: binder_context_for_minor_def split: if_splits)
    ultimately show ?thesis by (rule same [rotated 2])
  next
    case (new c i)
    then have i: "i < BINDER_MAX_OPENS" by (simp add: victim_def)
    have "find (\<lambda>i. ?w c (g_slots d1 i)) [0..<BINDER_MAX_OPENS] = Some i"
      by (rule find_slot_kept [OF disjI2 [OF new(3)] i])
        (use assms(3) new in \<open>auto simp: slot_waits_for_def\<close>)
    moreover have "binder_context_for_minor m d1 = Some c" "x = BINDER_CLONE_BASE + i"
      using assms(3) new by (auto simp: binder_context_for_minor_def split: if_splits)
    ultimately show ?thesis by (rule same [rotated 2])
  qed
qed

theorem clone_stable_witness:
  "\<exists>x d1. binder_clone quiet_dev 0 True dev_example = (Some x, d1) \<and> fst (binder_clone quiet_dev 0 True d1) = Some x"
proof -
  obtain x d1 where "binder_clone quiet_dev 0 True dev_example = (Some x, d1)"
    using dev_example_free by (cases rule: clone_cases [OF dev_example_ok, of 0 quiet_dev]) auto
  then show ?thesis using clone_stable [OF dev_example_ok, where K = quiet_dev and m = 0] by auto
qed

section \<open>Open\<close>

text \<open>C21: opening a minor succeeds at most once. It needs an outstanding lookup, creates one
  process (new, for the caller's pid and the context that was looked up, without threads,
  objects, handles or arena), and from then on, until the minor is closed, every
  other open of it is refused with \<open>EBUSY\<close> and no lookup by anyone is given it.\<close>

theorem open_exclusive:
  assumes "slots_ok d" and "g_slot_sequence d < - 1" and "binder_slot_for_dev m = Some i"
    and "binder_dev_open K m d = (e, d')"
  shows "if e = OK then \<exists>c P. l_cloned (g_slots d i) \<and> \<not> l_opened (g_slots d i) \<and> l_context (g_slots d i) = Some c \<and>
        l_proc (g_slots d' i) = Some (clock (drv d)) \<and>
        procs (drv d') = (procs (drv d))(clock (drv d) \<mapsto> P) \<and> p_pid P = proc_selfpid (kern K) \<and>
        p_context P = Some c \<and> p_threads P = [] \<and> p_nodes P = [] \<and> p_refs P = [] \<and> p_arena_size P = 0 \<and>
        slots_ok d' \<and> binder_dev_open K' m d' = (EBUSY, d') \<and> fst (binder_clone K' n True d') \<noteq> Some m
    else g_slots d' = g_slots d \<and> procs (drv d') = procs (drv d)"
proof (cases "e = OK")
  case False
  then show ?thesis
    using assms(3,4)
    by (auto simp: binder_dev_open_def binder_proc_new_def binder_alloc_mem_def upd_context_def Let_def
        split: if_splits option.splits)
next
  case True
  let ?l = "g_slots d i"
  let ?p = "clock (drv d)"
  obtain c where c: "l_cloned ?l" "\<not> l_opened ?l" "l_context ?l = Some c"
    using assms(3,4) True by (auto simp: binder_dev_open_def Let_def split: if_splits option.splits)
  let ?P = "new_proc\<lparr>p_pid := proc_selfpid (kern K), p_context := Some c, p_max_threads := 15\<rparr>"
  have d': "g_slots d' = (g_slots d)(i := ?l\<lparr>l_proc := Some ?p, l_opened := True, l_lookup_pid := 0\<rparr>)"
    "procs (drv d') = (procs (drv d))(?p \<mapsto> ?P)" "g_slot_sequence d' = g_slot_sequence d"
    using assms(3,4) True c
    by (auto simp: binder_dev_open_def binder_proc_new_def binder_alloc_mem_def upd_context_def Let_def
        split: if_splits)
  have ok: "slots_ok d'" using assms(1) c by (auto simp: slots_ok_def d')
  have busy: "binder_dev_open K' m d' = (EBUSY, d')" using assms(3) c by (simp add: binder_dev_open_def d' Let_def)
  have "fst (binder_clone K' n True d') \<noteq> Some m"
  proof
    assume "fst (binder_clone K' n True d') = Some m"
    then obtain j where "binder_slot_for_dev m = Some j" "\<not> l_opened (g_slots d' j)"
      using clone_never_open [OF ok, of K' n] assms(2) d'(3) by (metis prod.collapse)
    then show False using assms(3) by (simp add: d')
  qed
  then show ?thesis using True c d' ok busy by (auto simp: new_proc_def)
qed

theorem open_exclusive_witness:
  "\<exists>x d1 i d2. binder_clone quiet_dev 0 True dev_example = (Some x, d1) \<and> binder_slot_for_dev x = Some i \<and>
    binder_dev_open quiet_dev x d1 = (OK, d2) \<and> binder_dev_open quiet_dev x d2 = (EBUSY, d2)"
proof -
  obtain x d1 where x: "binder_clone quiet_dev 0 True dev_example = (Some x, d1)"
    using dev_example_free by (cases rule: clone_cases [OF dev_example_ok, of 0 quiet_dev]) auto
  obtain i where i: "binder_slot_for_dev x = Some i" "slot_waits_for 100 0 (g_slots d1 i)" "slots_ok d1"
      "g_slot_sequence d1 = 1"
    using x clone_waits [OF dev_example_ok x] dev_example_free
    by (auto simp: quiet_dev_def quiet_kpi_def dev_example_def)
  have "fst (binder_dev_open quiet_dev x d1) = OK"
    using i by (simp add: binder_dev_open_def slot_waits_for_def binder_proc_new_def binder_alloc_mem_def quiet_dev_def
        quiet_kpi_def Let_def)
  then obtain d2 where d2: "binder_dev_open quiet_dev x d1 = (OK, d2)" by (metis prod.collapse)
  have "g_slot_sequence d1 < - 1" using i(4) by (simp add: word_less_nat_alt unsigned_minus_1_eq_mask mask_eq_exp_minus_1)
  then have "binder_dev_open quiet_dev x d2 = (EBUSY, d2)"
    using open_exclusive [OF i(3) _ i(1) d2, of quiet_dev] by auto
  then show ?thesis using x i(1) d2 by blast
qed

section \<open>Context names\<close>

definition live_names :: "binder_dev \<Rightarrow> (nat \<times> string) set" where
  "live_names d = {(i, c_name (contexts (drv d) i)) |i. i < BINDER_MAX_CONTEXTS \<and> c_in_use (contexts (drv d) i)}"

definition names_ok :: "binder_dev \<Rightarrow> bool" where
  "names_ok d \<longleftrightarrow> inj_on snd (live_names d) \<and> (\<forall>x \<in> live_names d. snd x \<noteq> [] \<and> CHR ''/'' \<notin> set (snd x))"

lemma live_names_upd:
  assumes "\<not> c_in_use (contexts (drv d) i)" and "i < BINDER_MAX_CONTEXTS"
    and "\<And>j. j \<noteq> i \<Longrightarrow> contexts (drv d') j = contexts (drv d) j"
  shows "live_names d' = (if c_in_use (contexts (drv d') i) then insert (i, c_name (contexts (drv d') i)) (live_names d)
    else live_names d)"
proof -
  have "(j, n) \<in> live_names d' \<longleftrightarrow> j < BINDER_MAX_CONTEXTS \<and>
      (if j = i then c_in_use (contexts (drv d') i) \<and> n = c_name (contexts (drv d') i) else (j, n) \<in> live_names d)" for j n
    using assms(3) [of j] by (cases "j = i") (auto simp: live_names_def)
  moreover have "(i, n) \<notin> live_names d" "(j, n) \<in> live_names d \<Longrightarrow> j < BINDER_MAX_CONTEXTS" for j n
    using assms(1) by (auto simp: live_names_def)
  ultimately show ?thesis using assms(2) by (auto split: if_splits)
qed

lemma ctl_add_room:
  assumes "binder_ctl_add K req d = (e, req', d')"
    and "find (\<lambda>i. c_in_use (contexts (drv d) i) \<and> c_name (contexts (drv d) i) = c_string req) [0..<BINDER_MAX_CONTEXTS] = None"
    and "\<not> (c_string req = [] \<or> CHR ''/'' \<in> set (c_string req))"
    and "find (\<lambda>i. \<not> c_in_use (contexts (drv d) i)) [0..<BINDER_MAX_CONTEXTS] = Some i"
  shows "\<And>j. j \<noteq> i \<Longrightarrow> contexts (drv d') j = contexts (drv d) j"
    "c_in_use (contexts (drv d') i) \<longleftrightarrow> make_node K (clock (drv d)) (''binderfs/'' @ c_string req)"
    "c_name (contexts (drv d') i) = c_string req"
    "e = (if make_node K (clock (drv d)) (''binderfs/'' @ c_string req) then OK else ENOMEM)"
    "published d' = (if make_node K (clock (drv d)) (''binderfs/'' @ c_string req)
       then (clock (drv d), g_binder_major d, i, ''binderfs/'' @ c_string req) # published d else published d)"
    "e = OK \<Longrightarrow> req' = put_u32 260 (of_nat i) (put_u32 256 (of_int (g_binder_major d)) req)"
  using assms
  by (auto simp: binder_ctl_add_def devfs_publish_def upd_context_def Let_def split: if_splits)

text \<open>C32: adding a binderfs device. The name is refused when it is empty or has a slash, when a
  live context has it already, or when all contexts are taken, each without any change. Otherwise
  the first free context gets it, one node is published for it under \<open>binderfs/\<close>, and the
  caller is told its major and minor; if the node cannot be published the context stays
  free. In every case the names of the live contexts stay distinct.\<close>

theorem ctl_add_exact:
  assumes "names_ok d" and "length req = struct_size binderfs_device_layout"
  shows "case binder_ctl_add K req d of (e, req', d') \<Rightarrow> names_ok d' \<and>
    (let name = c_string req in
     if name = [] \<or> CHR ''/'' \<in> set name then e = EINVAL \<and> d' = d
     else if name \<in> snd ` live_names d then e = EEXIST \<and> d' = d
     else if \<forall>i < BINDER_MAX_CONTEXTS. c_in_use (contexts (drv d) i) then e = ENOSPC \<and> d' = d
     else if \<not> make_node K (clock (drv d)) (''binderfs/'' @ name)
     then e = ENOMEM \<and> live_names d' = live_names d \<and> published d' = published d
     else e = OK \<and> (\<exists>i < BINDER_MAX_CONTEXTS. \<not> c_in_use (contexts (drv d) i) \<and>
       (\<forall>j < i. c_in_use (contexts (drv d) j)) \<and> live_names d' = insert (i, name) (live_names d) \<and>
       published d' = (clock (drv d), g_binder_major d, i, ''binderfs/'' @ name) # published d \<and>
       get_u32 256 req' = of_int (g_binder_major d) \<and> get_u32 260 req' = of_nat i))"
proof -
  let ?name = "c_string req"
  let ?taken = "find (\<lambda>i. c_in_use (contexts (drv d) i) \<and> c_name (contexts (drv d) i) = ?name) [0..<BINDER_MAX_CONTEXTS]"
  let ?free = "find (\<lambda>i. \<not> c_in_use (contexts (drv d) i)) [0..<BINDER_MAX_CONTEXTS]"
  have taken: "?taken \<noteq> None \<longleftrightarrow> ?name \<in> snd ` live_names d"
    by (auto simp: find_None_iff live_names_def image_def)
  have free: "?free = None \<longleftrightarrow> (\<forall>i < BINDER_MAX_CONTEXTS. c_in_use (contexts (drv d) i))"
    by (auto simp: find_None_iff)
  have len: "length req = 264" using assms(2) by (simp add: layout_defs)
  consider (bad) "?name = [] \<or> CHR ''/'' \<in> set ?name"
    | (dup) "\<not> (?name = [] \<or> CHR ''/'' \<in> set ?name)" "?name \<in> snd ` live_names d"
    | (full) "\<not> (?name = [] \<or> CHR ''/'' \<in> set ?name)" "?name \<notin> snd ` live_names d" "?free = None"
    | (room) i where "\<not> (?name = [] \<or> CHR ''/'' \<in> set ?name)" "?name \<notin> snd ` live_names d" "?free = Some i"
    by (cases ?free) auto
  then show ?thesis
  proof cases
    case bad
    then show ?thesis using assms(1) by (auto simp: binder_ctl_add_def Let_def)
  next
    case dup
    then show ?thesis using assms(1) taken by (auto simp: binder_ctl_add_def Let_def)
  next
    case full
    then show ?thesis using assms(1) taken free by (auto simp: binder_ctl_add_def Let_def)
  next
    case (room i)
    have i: "i < BINDER_MAX_CONTEXTS" "\<not> c_in_use (contexts (drv d) i)" "\<forall>j < i. c_in_use (contexts (drv d) j)"
      using room(3) by (auto simp: find_Some_iff)
    have nofree: "\<not> (\<forall>i < BINDER_MAX_CONTEXTS. c_in_use (contexts (drv d) i))" using i by blast
    obtain e req' d' where r: "binder_ctl_add K req d = (e, req', d')" by (cases "binder_ctl_add K req d") auto
    have t: "?taken = None" using taken room(2) by blast
    note ctx = ctl_add_room [OF r t room(1,3)]
    have live: "live_names d' = (if make_node K (clock (drv d)) (''binderfs/'' @ ?name)
        then insert (i, ?name) (live_names d) else live_names d)"
      using live_names_upd [of d i d'] i(1,2) ctx(1-3) by simp
    then have "names_ok d'" using assms(1) room(1,2) by (auto simp: names_ok_def)
    then show ?thesis
      using r room(1,2) nofree i ctx(4-6) live len by (auto simp: Let_def)
  qed
qed

lemma dev_example_names:
  "c_in_use (contexts (drv dev_example) i) \<longleftrightarrow> i < 3"
  "live_names dev_example = {(0, ''binder''), (1, ''hwbinder''), (2, ''vndbinder'')}"
proof -
  show use: "c_in_use (contexts (drv dev_example) i) \<longleftrightarrow> i < 3" for i
    by (simp add: dev_example_def empty_context_def)
  have three: "i < 3 \<longleftrightarrow> i = 0 \<or> i = 1 \<or> i = 2" for i :: nat by auto
  have "c_name (contexts (drv dev_example) i) = binder_static_contexts ! i" if "i < 3" for i
    using that by (simp add: dev_example_def)
  then have name: "c_name (contexts (drv dev_example) 0) = ''binder''" "c_name (contexts (drv dev_example) 1) = ''hwbinder''"
    "c_name (contexts (drv dev_example) 2) = ''vndbinder''"
    by (simp_all add: binder_static_contexts_def)
  show "live_names dev_example = {(0, ''binder''), (1, ''hwbinder''), (2, ''vndbinder'')}"
    unfolding live_names_def use three BINDER_MAX_CONTEXTS_def using name by auto
qed

theorem ctl_add_exact_witness:
  "case binder_ctl_add quiet_dev (0x66 # 0x6F # replicate 262 0) dev_example of
     (e, req', d') \<Rightarrow> e = OK \<and> names_ok d' \<and> live_names d' = insert (3, ''fo'') (live_names dev_example)"
proof -
  let ?req = "0x66 # 0x6F # replicate 262 0 :: byte list"
  have ok: "names_ok dev_example" unfolding names_ok_def dev_example_names by simp
  have len: "length ?req = struct_size binderfs_device_layout" by (simp add: layout_defs)
  have "char_of (102 :: nat) = CHR ''f''" "char_of (111 :: nat) = CHR ''o''" by code_simp+
  then have name: "c_string ?req = ''fo''" by (simp add: c_string_def abi_defs takeWhile_replicate)
  have free: "\<not> (\<forall>i < BINDER_MAX_CONTEXTS. i < 3)" by (auto simp: abi_defs intro!: exI [of _ 3])
  have three: "i = 3" if "\<not> i < (3 :: nat)" "\<forall>j < i. j < 3" for i
    using that by (metis linorder_neqE_nat less_irrefl)
  obtain e req' d' where r: "binder_ctl_add quiet_dev ?req dev_example = (e, req', d')"
    by (cases "binder_ctl_add quiet_dev ?req dev_example") auto
  have "names_ok d'" "e = OK" "\<exists>i. \<not> i < 3 \<and> (\<forall>j < i. j < 3) \<and> live_names d' = insert (i, ''fo'') (live_names dev_example)"
    using ctl_add_exact [OF ok len, of quiet_dev] free
    unfolding r by (auto simp: name dev_example_names Let_def quiet_dev_def)
  then show ?thesis using r three by auto
qed

section \<open>select and the read loop\<close>

lemma queued_item:
  assumes "queues_ok s" and "get_queue q s = Some (w # ws)"
  shows "get_work w s \<noteq> None" "\<exists>s'. binder_dequeue_work w s = Some s'"
proof -
  have it: "items s q = Some (w # ws)" using assms(2) by (simp add: items_def)
  have pl: "place s w = Some (Some q)" by (rule queues_okD(2) [OF assms(1) it]) simp
  then show "get_work w s \<noteq> None" by (auto simp: place_def)
  show "\<exists>s'. binder_dequeue_work w s = Some s'" using binder_dequeue_effect [OF pl it] by auto
qed

text \<open>The first item is taken when there is one, for a thread that is not frozen.\<close>

lemma take_first:
  assumes "queues_ok s" and "get_queue q s = Some ws" and "ws \<noteq> []"
  shows "\<exists>w s'. first_item False ws s = Some (Some w) \<and> binder_dequeue_work w s = Some s'"
proof -
  obtain w ws' where ws: "ws = w # ws'" using assms(3) by (cases ws) auto
  note q = queued_item [OF assms(1) assms(2) [unfolded ws]]
  obtain W where "get_work w s = Some W" using q(1) by auto
  then show ?thesis using q(2) by (auto simp: ws)
qed

lemma read_select_ready:
  assumes "queues_ok s" and T: "threads s t = Some T" "\<not> t_frozen T" and P: "procs s p = Some P"
  shows "\<exists>sel s'. read_select p t s = Some (sel, s') \<and> (sel = None \<longrightarrow> s' = s) \<and>
    (sel \<noteq> None \<longleftrightarrow> t_todo T \<noteq> [] \<or> binder_thread_takes_proc_work T \<and> p_todo P \<noteq> [])"
proof -
  have q: "get_queue (ThreadTodo t) s = Some (t_todo T)" "get_queue (ProcTodo p) s = Some (p_todo P)"
    using T P by (simp_all add: get_queue_def)
  show ?thesis
    using take_first [OF assms(1) q(1)] take_first [OF assms(1) q(2)] T P
    by (cases "t_todo T = []"; cases "binder_thread_takes_proc_work T \<and> p_todo P \<noteq> []")
      (auto simp: read_select_def)
qed

text \<open>C20: for a thread the driver knows that is not frozen, \<open>select\<close> reports the descriptor readable
  exactly when the read loop would not go to sleep. When it is not readable the caller is
  recorded for a later \<open>selwakeup\<close>, and a read would block without writing anything.\<close>

theorem select_agrees:
  assumes "queues_ok (drv d)" and "binder_slot_for_dev m = Some i" and "l_proc (g_slots d i) = Some p"
    and "procs (drv d) p = Some P" and "\<not> p_is_dead P" and "p_ready_threads P < int_max"
    and "binder_thread_lookup p (thread_tid (kern K)) (drv d) = Some (Some t)" and "threads (drv d) t = Some T"
    and "\<not> t_frozen T" and "t_looper T AND BINDER_LOOPER_STATE_NEED_RETURN = 0"
  shows "\<exists>ready d'. binder_dev_select K m FREAD d = Some (ready, d') \<and>
    (if ready then d' = d \<and>
       (\<forall>ch c c' s'. read_round (kern K) p t buffer sz False False consumed (drv d) \<noteq> Some (Some (Read_Blocked ch c), c', s'))
     else SelRecord p \<in> set (trace (drv d')) \<and>
       (\<exists>ch s'. read_round (kern K) p t buffer sz False False consumed (drv d) =
         Some (Some (Read_Blocked ch consumed), consumed, s')))"
proof -
  obtain sel s' where sel: "read_select p t (drv d) = Some (sel, s')" "sel = None \<longrightarrow> s' = drv d"
      "sel \<noteq> None \<longleftrightarrow> t_todo T \<noteq> [] \<or> binder_thread_takes_proc_work T \<and> p_todo P \<noteq> []"
    using read_select_ready [OF assms(1,8,9,4)] by blast
  have ready: "binder_has_work p (Some t) (drv d) = Some (sel \<noteq> None)"
    using assms(4,8,10) sel(3) by (auto simp: binder_has_work_def)
  show ?thesis
  proof (cases sel)
    case None
    have "\<exists>ch s'. read_sleep p t consumed (drv d) = Some (Read_Blocked ch consumed, s')"
      using assms(4,6,8) by (auto simp: read_sleep_def upd_thread_def upd_proc_def int_inc_eq)
    then show ?thesis
      using assms(2-5,7,8,9) ready None sel(1,2)
      by (auto simp: binder_dev_select_def upd_proc_def emit_def read_round_def)
  next
    case (Some x)
    then show ?thesis
      using assms(2-5,7,8) ready sel(1)
      by (auto simp: binder_dev_select_def read_round_def bind_eq_Some_conv split: if_splits prod.splits)
  qed
qed

definition select_example :: binder_dev where
  "select_example = dev_example\<lparr>
     drv := queue_example\<lparr>procs := Map.empty(1 \<mapsto> fresh_proc\<lparr>p_threads := [2]\<rparr>),
       threads := Map.empty(2 \<mapsto> new_thread\<lparr>t_proc := Some 1, t_tid := 7, t_looper := BINDER_LOOPER_STATE_ENTERED\<rparr>)\<rparr>,
     g_slots := (\<lambda>_. empty_slot)(0 := \<lparr>l_cloned = True, l_opened = True, l_lookup_pid = 0,
       l_context = Some 0, l_proc = Some 1, l_sequence = 0\<rparr>)\<rparr>"

lemma select_example_ok: "queues_ok (drv select_example)"
  by (auto simp: select_example_def queue_example_def fresh_proc_def new_thread_def new_error_def new_work_def
      initial_state_def queues_ok_def queues_ok_on_def held_def items_def place_def get_queue_def get_work_def
      split: work_head.splits work_ptr.splits option.splits if_splits)

theorem select_agrees_witness:
  "\<exists>d'. binder_dev_select quiet_dev 64 FREAD select_example = Some (False, d') \<and>
    (\<exists>ch s'. read_round quiet_kpi 1 2 0 256 False False 4 (drv select_example) = Some (Some (Read_Blocked ch 4), 4, s'))"
proof -
  have sel: "binder_dev_select quiet_dev 64 FREAD select_example \<noteq> Some (True, d')" for d'
    by (simp add: binder_dev_select_def binder_slot_for_dev_def abi_defs select_example_def queue_example_def fresh_proc_def
        binder_thread_lookup_def new_thread_def quiet_dev_def quiet_kpi_def binder_has_work_def
        binder_thread_takes_proc_work_def upd_proc_def emit_def)
  have "\<exists>ready d'. binder_dev_select quiet_dev 64 FREAD select_example = Some (ready, d') \<and>
    (if ready then d' = select_example \<and>
       (\<forall>ch c c' s'. read_round (kern quiet_dev) 1 2 0 256 False False 4 (drv select_example) \<noteq> Some (Some (Read_Blocked ch c), c', s'))
     else SelRecord 1 \<in> set (trace (drv d')) \<and>
       (\<exists>ch s'. read_round (kern quiet_dev) 1 2 0 256 False False 4 (drv select_example) =
         Some (Some (Read_Blocked ch 4), 4, s')))"
    by (rule select_agrees [OF select_example_ok, where i = 0 and P = "fresh_proc\<lparr>p_threads := [2]\<rparr>" and
        T = "new_thread\<lparr>t_proc := Some 1, t_tid := 7, t_looper := BINDER_LOOPER_STATE_ENTERED\<rparr>"])
      (simp_all add: binder_slot_for_dev_def abi_defs select_example_def queue_example_def fresh_proc_def
        binder_thread_lookup_def new_thread_def quiet_dev_def quiet_kpi_def int_max_def)
  then obtain ready d' where r: "binder_dev_select quiet_dev 64 FREAD select_example = Some (ready, d')"
    "\<not> ready \<Longrightarrow> \<exists>ch s'. read_round (kern quiet_dev) 1 2 0 256 False False 4 (drv select_example) =
         Some (Some (Read_Blocked ch 4), 4, s')"
    by (auto split: if_splits)
  have "kern quiet_dev = quiet_kpi" by (simp add: quiet_dev_def)
  moreover have "\<not> ready" using r(1) sel by auto
  ultimately show ?thesis using r by simp
qed

lemma frozen_finds_none:
  "(\<And>w. w \<in> set ws \<Longrightarrow> \<exists>W. get_work w s = Some W \<and> w_type W = BINDER_WORK_TRANSACTION) \<Longrightarrow> first_item True ws s = Some None"
  by (induction ws) fastforce+

text \<open>C39: for a frozen thread they disagree, although they are meant to agree exactly. Whenever the queue a
  frozen thread reads from (its own, or when that is empty and it takes the process's work, the
  process's) holds transactions and nothing else, \<open>select\<close> reports the descriptor readable, but the read
  loop returns at once, blocking or not, without delivering anything and without changing
  anything, so the descriptor stays readable and a client that polls spins.\<close>

theorem select_frozen_disagrees:
  assumes "binder_slot_for_dev m = Some i" and "l_proc (g_slots d i) = Some p" and "procs (drv d) p = Some P"
    and "binder_thread_lookup p (thread_tid (kern K)) (drv d) = Some (Some t)" and "threads (drv d) t = Some T"
    and "t_frozen T" and "t_todo T \<noteq> [] \<or> binder_thread_takes_proc_work T \<and> p_todo P \<noteq> []"
    and "\<And>w. w \<in> set (if t_todo T \<noteq> [] then t_todo T else p_todo P) \<Longrightarrow>
      \<exists>W. get_work w (drv d) = Some W \<and> w_type W = BINDER_WORK_TRANSACTION"
  shows "binder_dev_select K m FREAD d = Some (True, d) \<and>
    read_loop (kern K) p t buffer sz non_block wrote consumed (drv d) = Some (Read_Done OK consumed, drv d)"
proof
  have "binder_has_work p (Some t) (drv d) = Some True"
    using assms(3,5,7) by (auto simp: binder_has_work_def)
  then show "binder_dev_select K m FREAD d = Some (True, d)"
    using assms(1-4) by (simp add: binder_dev_select_def)
  have "first_item True (if t_todo T \<noteq> [] then t_todo T else p_todo P) (drv d) = Some None"
    using assms(8) by (rule frozen_finds_none)
  then have "read_select p t (drv d) = Some (None, drv d)"
    using assms(3,5,6,7) by (auto simp: read_select_def split: if_splits)
  then have "read_round (kern K) p t buffer sz non_block wrote consumed (drv d) =
      Some (Some (Read_Done OK consumed), consumed, drv d)"
    using assms(5,6) by (simp add: read_round_def)
  then show "read_loop (kern K) p t buffer sz non_block wrote consumed (drv d) = Some (Read_Done OK consumed, drv d)"
    by (subst read_loop.simps) simp
qed

theorem select_frozen_disagrees_witness:
  "let d = select_example\<lparr>drv := (drv select_example)\<lparr>
       procs := Map.empty(1 \<mapsto> fresh_proc\<lparr>p_threads := [2], p_todo := [TxnWork 9]\<rparr>),
       threads := map_option (t_frozen_update (\<lambda>_. True)) \<circ> threads (drv select_example),
       txns := Map.empty(9 \<mapsto> new_transaction\<lparr>x_work := \<lparr>w_queue = Some (ProcTodo 1), w_type = BINDER_WORK_TRANSACTION\<rparr>\<rparr>)\<rparr>\<rparr>
   in binder_dev_select quiet_dev 64 FREAD d = Some (True, d) \<and>
      read_loop (kern quiet_dev) 1 2 0 256 False False 4 (drv d) = Some (Read_Done OK 4, drv d)"
  unfolding Let_def
  by (rule select_frozen_disagrees [where i = 0 and P = "fresh_proc\<lparr>p_threads := [2], p_todo := [TxnWork 9]\<rparr>" and
      T = "new_thread\<lparr>t_proc := Some 1, t_tid := 7, t_looper := BINDER_LOOPER_STATE_ENTERED, t_frozen := True\<rparr>"])
    (auto simp: binder_slot_for_dev_def abi_defs select_example_def queue_example_def fresh_proc_def
      binder_thread_lookup_def new_thread_def quiet_dev_def quiet_kpi_def get_work_def
      binder_thread_takes_proc_work_def)

end
