(* ===== verification/Devfs_Module.thy ===== *)
theory Devfs_Module
  imports Binder_Dev
begin

text \<open>
  The two Android stub devices (\<^verbatim>\<open>kext/android_dev.c\<close>) and the module boundary
  (\<^verbatim>\<open>kext/devfs.c\<close>): what is acquired at load, what is given back on each failure
  path and at unload. The kernel objects that are live (locks, the memory tag,
  entries of the character-device switch, devfs nodes, sysctls) are part of the
  state, so that a leak is a difference of states.
\<close>

section \<open>The stub devices\<close>

definition prop_open :: errno where "prop_open = OK"

definition prop_close :: errno where "prop_close = OK"

definition prop_ioctl :: "u64 \<Rightarrow> errno" where
  "prop_ioctl cmd = (if cmd = 0x30000 \<or> cmd = 0x30001 \<or> cmd = 0x30002 then OK else ENOTTY)"

definition kmsg_open :: errno where "kmsg_open = OK"

definition kmsg_close :: errno where "kmsg_close = OK"

text \<open>A read that returns no bytes and no error: end of file.\<close>

definition kmsg_read :: "errno \<times> byte list" where "kmsg_read = (OK, [])"

definition kmsg_ioctl :: "u64 \<Rightarrow> errno" where "kmsg_ioctl cmd = ENOTTY"

section \<open>Module state\<close>

datatype kernel_resource = LckGrp | LckMtx | OsmallocTag

datatype cdevsw = Binder_cdevsw | Prop_cdevsw | Kmsg_cdevsw

record devfs_module =
  devices :: binder_dev
  devfs_lck_grp :: bool
  binder_lock :: bool
  devfs_osmalloc_tag :: bool
  g_devfs_major :: int
  g_prop_handle :: "nat option"
  g_kmsg_handle :: "nat option"
  live :: "kernel_resource list"
  switches :: "(int \<times> cdevsw) list"
  sysctls :: "string list"

text \<open>What loading asks of the kernel: which allocations succeed, and the majors
  \<open>cdevsw_add\<close> hands out, \<open>-1\<close> for none.\<close>

record module_kpi =
  dev_kern :: dev_kpi
  lck_grp_attr_ok :: bool
  lck_grp_ok :: bool
  lck_mtx_ok :: bool
  osmalloc_tag_ok :: bool
  next_major :: "cdevsw \<Rightarrow> int"

definition cdevsw_add :: "module_kpi \<Rightarrow> cdevsw \<Rightarrow> devfs_module \<Rightarrow> int \<times> devfs_module" where
  "cdevsw_add K sw g =
     (let major = next_major K sw in
      (major, if major = -1 then g else g\<lparr>switches := (major, sw) # switches g\<rparr>))"

definition cdevsw_remove :: "int \<Rightarrow> cdevsw \<Rightarrow> devfs_module \<Rightarrow> devfs_module" where
  "cdevsw_remove major sw g = g\<lparr>switches := remove1 (major, sw) (switches g)\<rparr>"

definition module_publish ::
    "module_kpi \<Rightarrow> int \<Rightarrow> nat \<Rightarrow> string \<Rightarrow> devfs_module \<Rightarrow> nat option \<times> devfs_module" where
  "module_publish K major m path g =
     (case devfs_publish (dev_kern K) major m path (devices g) of (h, d) \<Rightarrow> (h, g\<lparr>devices := d\<rparr>))"

definition module_remove :: "nat \<Rightarrow> devfs_module \<Rightarrow> devfs_module" where
  "module_remove h g = g\<lparr>devices := devfs_remove h (devices g)\<rparr>"

section \<open>Registration of the stub devices\<close>

definition remove_prop :: "devfs_module \<Rightarrow> devfs_module" where
  "remove_prop g = (case g_prop_handle g of
       None \<Rightarrow> g
     | Some h \<Rightarrow> (module_remove h g)\<lparr>g_prop_handle := None\<rparr>)"

definition remove_kmsg :: "devfs_module \<Rightarrow> devfs_module" where
  "remove_kmsg g = (case g_kmsg_handle g of
       None \<Rightarrow> g
     | Some h \<Rightarrow> (module_remove h g)\<lparr>g_kmsg_handle := None\<rparr>)"

definition android_devices_init :: "module_kpi \<Rightarrow> devfs_module \<Rightarrow> errno \<times> devfs_module" where
  "android_devices_init K g =
     (case cdevsw_add K Prop_cdevsw g of (major, g) \<Rightarrow>
        if major = -1 then (ENOMEM, g)
        else (case module_publish K major 0 ''__properties__'' g of
            (None, g) \<Rightarrow> (ENOMEM, remove_prop g)
          | (Some h, g) \<Rightarrow>
              let g = g\<lparr>g_prop_handle := Some h\<rparr> in
              (case cdevsw_add K Kmsg_cdevsw g of (major, g) \<Rightarrow>
                 if major = -1 then (ENOMEM, remove_prop g)
                 else (case module_publish K major 0 ''kmsg'' g of
                     (None, g) \<Rightarrow> (ENOMEM, remove_prop (cdevsw_remove major Kmsg_cdevsw g))
                   | (Some h, g) \<Rightarrow> (OK, g\<lparr>g_kmsg_handle := Some h\<rparr>)))))"

definition android_devices_fini :: "devfs_module \<Rightarrow> devfs_module" where
  "android_devices_fini g = remove_kmsg (remove_prop g)"

section \<open>Sysctls\<close>

definition devfs_sysctl_names :: "string list" where
  "devfs_sysctl_names = [''devfs'', ''devfs.binder_procs'', ''devfs.binder_threads'',
     ''devfs.binder_nodes'', ''devfs.binder_refs'', ''devfs.binder_transactions'',
     ''devfs.binder_arena_bytes'', ''devfs.binder_kdata_bytes'', ''devfs.binder_failed'']"

definition devfs_sysctl_register :: "devfs_module \<Rightarrow> devfs_module" where
  "devfs_sysctl_register g = g\<lparr>sysctls := sysctls g @ devfs_sysctl_names\<rparr>"

definition devfs_sysctl_unregister :: "devfs_module \<Rightarrow> devfs_module" where
  "devfs_sysctl_unregister g = fold (\<lambda>x. sysctls_update (remove1 x)) (rev devfs_sysctl_names) g"

section \<open>Load and unload\<close>

text \<open>The labels of the rollback path, each falling through to the next.\<close>

definition fail_grp :: "devfs_module \<Rightarrow> bool \<times> devfs_module" where
  "fail_grp g = (False, g\<lparr>live := remove1 LckGrp (live g), devfs_lck_grp := False\<rparr>)"

definition fail_lock :: "devfs_module \<Rightarrow> bool \<times> devfs_module" where
  "fail_lock g = fail_grp (g\<lparr>live := remove1 LckMtx (live g), binder_lock := False\<rparr>)"

definition fail_tag :: "devfs_module \<Rightarrow> bool \<times> devfs_module" where
  "fail_tag g = fail_lock (g\<lparr>live := remove1 OsmallocTag (live g), devfs_osmalloc_tag := False\<rparr>)"

definition fail_cdevsw :: "devfs_module \<Rightarrow> bool \<times> devfs_module" where
  "fail_cdevsw g =
     fail_tag ((cdevsw_remove (g_devfs_major g) Binder_cdevsw g)\<lparr>g_devfs_major := -1\<rparr>)"

definition fail_android :: "devfs_module \<Rightarrow> bool \<times> devfs_module" where
  "fail_android g = (False, g)"

text \<open>The result says whether the module loaded.\<close>

definition devfs_start :: "module_kpi \<Rightarrow> devfs_module \<Rightarrow> bool \<times> devfs_module" where
  "devfs_start K g =
     (if \<not> lck_grp_attr_ok K then (False, g)
      else if \<not> lck_grp_ok K then (False, g\<lparr>devfs_lck_grp := False\<rparr>)
      else let g = g\<lparr>devfs_lck_grp := True, live := LckGrp # live g\<rparr> in
      if \<not> lck_mtx_ok K then fail_grp (g\<lparr>binder_lock := False\<rparr>)
      else let g = g\<lparr>binder_lock := True, live := LckMtx # live g\<rparr> in
      if \<not> osmalloc_tag_ok K then fail_lock (g\<lparr>devfs_osmalloc_tag := False\<rparr>)
      else let g = g\<lparr>devfs_osmalloc_tag := True, live := OsmallocTag # live g\<rparr> in
      (case cdevsw_add K Binder_cdevsw g of (major, g) \<Rightarrow>
         let g = g\<lparr>g_devfs_major := major\<rparr> in
         if major = -1 then fail_tag g
         else (case binder_devices_init (dev_kern K) major (devices g) of (e, d) \<Rightarrow>
             let g = g\<lparr>devices := d\<rparr> in
             if e \<noteq> OK then fail_cdevsw g
             else (case android_devices_init K g of (e, g) \<Rightarrow>
                 if e \<noteq> OK then fail_android g
                 else (True, devfs_sysctl_register g)))))"

definition devfs_stop :: "devfs_module \<Rightarrow> devfs_module" where
  "devfs_stop g =
     (let g = android_devices_fini (devfs_sysctl_unregister g);
          g = g\<lparr>devices := binder_devices_fini (devices g)\<rparr>;
          g = (if g_devfs_major g \<noteq> -1
               then (cdevsw_remove (g_devfs_major g) Binder_cdevsw g)\<lparr>g_devfs_major := -1\<rparr> else g);
          g = (if devfs_osmalloc_tag g
               then g\<lparr>live := remove1 OsmallocTag (live g), devfs_osmalloc_tag := False\<rparr> else g);
          g = (if binder_lock g
               then g\<lparr>live := remove1 LckMtx (live g), binder_lock := False\<rparr> else g)
      in (if devfs_lck_grp g
          then g\<lparr>live := remove1 LckGrp (live g), devfs_lck_grp := False\<rparr> else g))"

section \<open>What is published is remembered\<close>

text \<open>Every published node's handle is kept where unloading finds it: in a context or in one
  of the stub devices' variables.\<close>

definition tracked :: "binder_dev \<Rightarrow> nat \<Rightarrow> bool" where
  "tracked d h \<longleftrightarrow> (\<exists>i < BINDER_MAX_CONTEXTS. c_devfs_handle (contexts (drv d) i) = Some h)"

definition all_tracked :: "devfs_module \<Rightarrow> bool" where
  "all_tracked g \<longleftrightarrow> (\<forall>x \<in> set (published (devices g)). tracked (devices g) (fst x) \<or>
     g_prop_handle g = Some (fst x) \<or> g_kmsg_handle g = Some (fst x))"

lemma upd_context_at [simp]:
  "contexts (upd_context i f s) j = (if j = i then f (contexts s i) else contexts s j)"
  by (simp add: upd_context_def)

lemma fini_loop_effect:
  "published (fini_loop is d) =
     filter (\<lambda>x. \<forall>i \<in> set is. c_devfs_handle (contexts (drv d) i) \<noteq> Some (fst x)) (published d) \<and>
   (\<forall>i. contexts (drv (fini_loop is d)) i = (if i \<in> set is
      then (contexts (drv d) i)\<lparr>c_devfs_handle := None, c_in_use := False\<rparr> else contexts (drv d) i))"
proof (induction "is" arbitrary: d)
  case Nil
  then show ?case by simp
next
  case (Cons i "is")
  let ?d = "(case c_devfs_handle (contexts (drv d) i) of
          None \<Rightarrow> d
        | Some h \<Rightarrow> (devfs_remove h d)\<lparr>drv := upd_context i (c_devfs_handle_update (\<lambda>_. None)) (drv d)\<rparr>)"
  let ?e = "?d\<lparr>drv := upd_context i (c_in_use_update (\<lambda>_. False)) (drv ?d)\<rparr>"
  have c: "contexts (drv ?e) j = (if j = i
      then (contexts (drv d) i)\<lparr>c_devfs_handle := None, c_in_use := False\<rparr> else contexts (drv d) j)" for j
    by (simp split: option.splits)
  have p: "published ?e = filter (\<lambda>x. c_devfs_handle (contexts (drv d) i) \<noteq> Some (fst x)) (published d)"
    by (auto simp: devfs_remove_def split: option.splits intro: filter_cong)
  have l: "fini_loop (i # is) d = fini_loop is ?e" by (simp add: Let_def)
  have same: "(\<forall>j \<in> set is. c_devfs_handle (contexts (drv ?e) j) \<noteq> Some h) \<and>
      c_devfs_handle (contexts (drv d) i) \<noteq> Some h \<longleftrightarrow>
      (\<forall>j \<in> set (i # is). c_devfs_handle (contexts (drv d) j) \<noteq> Some h)" for h
    unfolding c by auto
  have "published (fini_loop (i # is) d) =
      filter (\<lambda>x. \<forall>j \<in> set (i # is). c_devfs_handle (contexts (drv d) j) \<noteq> Some (fst x)) (published d)"
    unfolding l conjunct1 [OF Cons [of ?e]] p filter_filter by (rule filter_cong [OF refl]) (use same in blast)
  moreover have "contexts (drv (fini_loop (i # is) d)) j = (if j \<in> set (i # is)
      then (contexts (drv d) j)\<lparr>c_devfs_handle := None, c_in_use := False\<rparr> else contexts (drv d) j)" for j
    using conjunct2 [OF Cons [of ?e], rule_format, of j] unfolding l c by auto
  ultimately show ?case by blast
qed

lemma publish_contexts_tracked:
  assumes "publish_contexts K major xs d = (e, d')" and "distinct (map fst xs)"
    and "\<And>i. i \<in> fst ` set xs \<Longrightarrow> i < BINDER_MAX_CONTEXTS \<and> c_devfs_handle (contexts (drv d) i) = None"
    and "\<And>x. x \<in> set (published d) \<Longrightarrow> tracked d (fst x)"
  shows "(\<forall>x \<in> set (published d'). tracked d' (fst x)) \<and>
    (\<forall>i. i \<notin> fst ` set xs \<longrightarrow> contexts (drv d') i = contexts (drv d) i)"
  using assms
proof (induction xs arbitrary: d)
  case Nil
  then show ?case by simp
next
  case (Cons x xs)
  obtain i name where x: "x = (i, name)" by (cases x)
  let ?d = "d\<lparr>drv := upd_context i (\<lambda>C. C\<lparr>c_name := name, c_minor := int i, c_in_use := True,
              c_procs := []\<rparr>) (drv d)\<rparr>"
  have i: "i < BINDER_MAX_CONTEXTS" "c_devfs_handle (contexts (drv d) i) = None"
    using Cons.prems(3) [of i] x by auto
  have old: "\<exists>j < BINDER_MAX_CONTEXTS. j \<noteq> i \<and> c_devfs_handle (contexts (drv d) j) = Some (fst y)"
    if y: "y \<in> set (published d)" for y
  proof -
    obtain j where j: "j < BINDER_MAX_CONTEXTS" "c_devfs_handle (contexts (drv d) j) = Some (fst y)"
      using Cons.prems(4) [OF y] by (auto simp: tracked_def)
    then have "j \<noteq> i" using i(2) by auto
    then show ?thesis using j by blast
  qed
  show ?case
  proof (cases "make_node K (clock (drv ?d)) name")
    case False
    then have d': "d' = ?d\<lparr>drv := upd_context i (c_in_use_update (\<lambda>_. False)) ((drv ?d)\<lparr>clock := Suc (clock (drv ?d))\<rparr>)\<rparr>"
      using Cons.prems(1) by (simp add: x devfs_publish_def Let_def)
    show ?thesis using old unfolding d' by (fastforce simp: tracked_def x upd_context_def)
  next
    case True
    let ?h = "clock (drv ?d)"
    let ?e = "?d\<lparr>published := (?h, major, i, name) # published d,
      drv := upd_context i (c_devfs_handle_update (\<lambda>_. Some ?h)) ((drv ?d)\<lparr>clock := Suc ?h\<rparr>)\<rparr>"
    have step: "publish_contexts K major xs ?e = (e, d')"
      using Cons.prems(1) True by (simp add: x devfs_publish_def Let_def)
    have tr: "tracked ?e (fst y)" if "y \<in> set (published ?e)" for y
      using that old [of y] i(1) by (auto simp: tracked_def upd_context_def)
    have fresh: "j < BINDER_MAX_CONTEXTS \<and> c_devfs_handle (contexts (drv ?e) j) = None" if "j \<in> fst ` set xs" for j
      using that Cons.prems(2,3) x by (auto simp: upd_context_def)
    show ?thesis
      using Cons.IH [OF step _ fresh tr] Cons.prems(2) by (auto simp: x upd_context_def)
  qed
qed

lemma devices_init_tracked:
  assumes "binder_devices_init K major d = (e, d')" and "published d = []"
    and none: "\<And>i. c_devfs_handle (contexts (drv d) i) = None"
  shows "\<forall>x \<in> set (published d'). tracked d' (fst x)"
proof -
  let ?xs = "enumerate 0 binder_static_contexts"
  obtain e1 d1 where d1: "publish_contexts K major ?xs (d\<lparr>g_binder_major := major\<rparr>) = (e1, d1)" by force
  have xs: "fst ` set ?xs = {0, 1, 2}" by (auto simp: binder_static_contexts_def)
  have tr: "(\<forall>x \<in> set (published d1). tracked d1 (fst x)) \<and>
      (\<forall>i. i \<notin> fst ` set ?xs \<longrightarrow> contexts (drv d1) i = contexts (drv (d\<lparr>g_binder_major := major\<rparr>)) i)"
    by (rule publish_contexts_tracked [OF d1])
      (use none assms(2) in \<open>auto simp: xs BINDER_MAX_CONTEXTS_def binder_static_contexts_def\<close>)
  then have c15: "c_devfs_handle (contexts (drv d1) 15) = None" using none by (simp add: xs)
  have keep: "\<exists>j < BINDER_MAX_CONTEXTS. j \<noteq> 15 \<and> c_devfs_handle (contexts (drv d1) j) = Some (fst x)"
    if x: "x \<in> set (published d1)" for x
  proof -
    obtain j where "j < BINDER_MAX_CONTEXTS" "c_devfs_handle (contexts (drv d1) j) = Some (fst x)"
      using tr x by (auto simp: tracked_def)
    then show ?thesis using c15 by (cases "j = 15") auto
  qed
  show ?thesis
  proof (cases "e1 = OK \<and> make_node K (clock (drv d1)) ''binderfs/binder-control''")
    case True
    then have d': "d' = d1\<lparr>published := (clock (drv d1), major, BINDER_CTL_MINOR, ''binderfs/binder-control'') # published d1,
        drv := upd_context (BINDER_MAX_CONTEXTS - 1) (c_devfs_handle_update (\<lambda>_. Some (clock (drv d1))))
          ((drv d1)\<lparr>clock := Suc (clock (drv d1))\<rparr>)\<rparr>"
      using assms(1) d1 by (simp add: binder_devices_init_def devfs_publish_def Let_def)
    show ?thesis
      using keep unfolding d' by (fastforce simp: tracked_def upd_context_def BINDER_MAX_CONTEXTS_def)
  next
    case False
    then have "published d' = published d1 \<and> contexts (drv d') = contexts (drv d1)"
      using assms(1) d1 by (cases "e1 = OK") (auto simp: binder_devices_init_def devfs_publish_def Let_def)
    then show ?thesis using tr by (simp add: tracked_def)
  qed
qed

definition unloaded :: "devfs_module \<Rightarrow> bool" where
  "unloaded g \<longleftrightarrow> published (devices g) = [] \<and>
     (\<forall>i. c_devfs_handle (contexts (drv (devices g)) i) = None) \<and>
     g_prop_handle g = None \<and> g_kmsg_handle g = None \<and> live g = [] \<and> switches g = [] \<and> sysctls g = [] \<and>
     \<not> devfs_lck_grp g \<and> \<not> binder_lock g \<and> \<not> devfs_osmalloc_tag g"

definition loaded_objects :: "module_kpi \<Rightarrow> devfs_module \<Rightarrow> bool" where
  "loaded_objects K g \<longleftrightarrow> live g = [OsmallocTag, LckMtx, LckGrp] \<and> devfs_lck_grp g \<and> binder_lock g \<and>
     devfs_osmalloc_tag g \<and> g_devfs_major g = next_major K Binder_cdevsw \<and> next_major K Binder_cdevsw \<noteq> -1"

lemma android_init_effect:
  assumes "android_devices_init K g = (e, g')" and "g_prop_handle g = None" "g_kmsg_handle g = None"
    and "\<forall>x \<in> set (published (devices g)). tracked (devices g) (fst x)"
  shows "loaded_objects K g' = loaded_objects K g" "sysctls g' = sysctls g"
    "e = OK \<Longrightarrow> switches g' = (next_major K Kmsg_cdevsw, Kmsg_cdevsw) #
       (next_major K Prop_cdevsw, Prop_cdevsw) # switches g \<and> all_tracked g'"
    "(x, Binder_cdevsw) \<in> set (switches g') \<longleftrightarrow> (x, Binder_cdevsw) \<in> set (switches g)"
  using assms
  by (auto simp: android_devices_init_def cdevsw_add_def module_publish_def devfs_publish_def Let_def
      remove_prop_def module_remove_def cdevsw_remove_def loaded_objects_def all_tracked_def tracked_def
      dest: notin_set_remove1 split: if_splits) (metis fst_conv)

lemma start_effect:
  assumes "unloaded g" and "devfs_start K g = (ok, g1)"
  shows "if ok then loaded_objects K g1 \<and> all_tracked g1 \<and> sysctls g1 = devfs_sysctl_names \<and>
      switches g1 = [(next_major K Kmsg_cdevsw, Kmsg_cdevsw), (next_major K Prop_cdevsw, Prop_cdevsw),
        (next_major K Binder_cdevsw, Binder_cdevsw)]
    else if lck_grp_attr_ok K \<and> lck_grp_ok K \<and> lck_mtx_ok K \<and> osmalloc_tag_ok K \<and>
      next_major K Binder_cdevsw \<noteq> -1 \<and>
      fst (binder_devices_init (dev_kern K) (next_major K Binder_cdevsw) (devices g)) = OK
    then loaded_objects K g1 \<and> (next_major K Binder_cdevsw, Binder_cdevsw) \<in> set (switches g1) \<and> sysctls g1 = []
    else live g1 = [] \<and> switches g1 = [] \<and> sysctls g1 = [] \<and>
      \<not> devfs_lck_grp g1 \<and> \<not> binder_lock g1 \<and> \<not> devfs_osmalloc_tag g1"
proof (cases "lck_grp_attr_ok K \<and> lck_grp_ok K \<and> lck_mtx_ok K \<and> osmalloc_tag_ok K \<and>
      next_major K Binder_cdevsw \<noteq> -1")
  case False
  then show ?thesis
    using assms by (auto simp: devfs_start_def unloaded_def fail_grp_def fail_lock_def fail_tag_def cdevsw_add_def Let_def
        split: if_splits)
next
  case True
  let ?m = "next_major K Binder_cdevsw"
  obtain e d where d: "binder_devices_init (dev_kern K) ?m (devices g) = (e, d)" by force
  let ?g = "g\<lparr>devfs_lck_grp := True, binder_lock := True, devfs_osmalloc_tag := True,
    live := [OsmallocTag, LckMtx, LckGrp], switches := [(?m, Binder_cdevsw)], g_devfs_major := ?m, devices := d\<rparr>"
  have tr: "\<forall>x \<in> set (published (devices ?g)). tracked (devices ?g) (fst x)"
    using devices_init_tracked [OF d] assms(1) by (simp add: unloaded_def)
  obtain e' g' where g': "android_devices_init K ?g = (e', g')" by force
  have h: "g_prop_handle ?g = None" "g_kmsg_handle ?g = None" using assms(1) by (simp_all add: unloaded_def)
  note eff = android_init_effect [OF g' h tr]
  have run: "devfs_start K g = (if e \<noteq> OK then fail_cdevsw ?g
      else if e' \<noteq> OK then fail_android g' else (True, devfs_sysctl_register g'))"
    using True d g' assms(1) by (simp add: devfs_start_def cdevsw_add_def Let_def unloaded_def)
  have l: "loaded_objects K g'" using eff(1) True by (simp add: loaded_objects_def)
  show ?thesis
    using run assms True d eff(2,3) eff(4) [of ?m] l
    by (auto simp: fail_cdevsw_def fail_tag_def fail_lock_def fail_grp_def fail_android_def cdevsw_remove_def
        unloaded_def devfs_sysctl_register_def all_tracked_def loaded_objects_def split: if_splits)
qed

lemma stop_published:
  assumes "all_tracked g"
  shows "published (devices (devfs_stop g)) = [] \<and>
    (\<forall>i < BINDER_MAX_CONTEXTS. \<not> c_in_use (contexts (drv (devices (devfs_stop g))) i))"
proof -
  have "devices (fold (\<lambda>x. sysctls_update (remove1 x)) xs g) = devices g \<and>
      g_prop_handle (fold (\<lambda>x. sysctls_update (remove1 x)) xs g) = g_prop_handle g \<and>
      g_kmsg_handle (fold (\<lambda>x. sysctls_update (remove1 x)) xs g) = g_kmsg_handle g" for xs
    by (induction xs arbitrary: g) simp_all
  then have u: "devices (devfs_sysctl_unregister g) = devices g"
      "g_prop_handle (devfs_sysctl_unregister g) = g_prop_handle g"
      "g_kmsg_handle (devfs_sysctl_unregister g) = g_kmsg_handle g"
    by (simp_all add: devfs_sysctl_unregister_def)
  let ?d = "devices (android_devices_fini (devfs_sysctl_unregister g))"
  have d: "published ?d = filter (\<lambda>x. g_prop_handle g \<noteq> Some (fst x) \<and> g_kmsg_handle g \<noteq> Some (fst x)) (published (devices g))"
    "drv ?d = drv (devices g)"
    by (auto simp: android_devices_fini_def remove_kmsg_def remove_prop_def module_remove_def devfs_remove_def u
        conj_commute split: option.splits intro!: filter_cong)
  have s: "devices (devfs_stop g) = fini_loop [0..<BINDER_MAX_CONTEXTS] ?d"
    by (simp add: devfs_stop_def binder_devices_fini_def Let_def cdevsw_remove_def)
  show ?thesis
    unfolding s using assms fini_loop_effect [of "[0..<BINDER_MAX_CONTEXTS]" ?d]
    by (auto simp: d all_tracked_def tracked_def filter_empty_conv)
qed

lemma unregister_effect:
  "devfs_sysctl_unregister g = g\<lparr>sysctls := fold remove1 (rev devfs_sysctl_names) (sysctls g)\<rparr>"
proof -
  have "fold (\<lambda>x. sysctls_update (remove1 x)) xs g = g\<lparr>sysctls := fold remove1 xs (sysctls g)\<rparr>" for xs
    by (induction xs arbitrary: g) simp_all
  then show ?thesis by (simp add: devfs_sysctl_unregister_def)
qed

lemma stop_objects:
  assumes "loaded_objects K g" and "sysctls g = devfs_sysctl_names"
  shows "live (devfs_stop g) = []" "sysctls (devfs_stop g) = []"
    "switches (devfs_stop g) = remove1 (next_major K Binder_cdevsw, Binder_cdevsw) (switches g)"
    "\<not> devfs_lck_grp (devfs_stop g) \<and> \<not> binder_lock (devfs_stop g) \<and> \<not> devfs_osmalloc_tag (devfs_stop g)"
proof -
  let ?g = "android_devices_fini (devfs_sysctl_unregister g)"
  have "fold remove1 (rev devfs_sysctl_names) devfs_sysctl_names = []" by (simp add: devfs_sysctl_names_def)
  then have "live ?g = live g" "sysctls ?g = []" "switches ?g = switches g" "g_devfs_major ?g = g_devfs_major g"
      "devfs_lck_grp ?g = devfs_lck_grp g" "binder_lock ?g = binder_lock g" "devfs_osmalloc_tag ?g = devfs_osmalloc_tag g"
    using assms(2)
    by (simp_all add: unregister_effect android_devices_fini_def remove_kmsg_def remove_prop_def module_remove_def
        split: option.splits)
  then show "live (devfs_stop g) = []" "sysctls (devfs_stop g) = []"
    "switches (devfs_stop g) = remove1 (next_major K Binder_cdevsw, Binder_cdevsw) (switches g)"
    "\<not> devfs_lck_grp (devfs_stop g) \<and> \<not> binder_lock (devfs_stop g) \<and> \<not> devfs_osmalloc_tag (devfs_stop g)"
    using assms(1) by (simp_all add: devfs_stop_def Let_def loaded_objects_def cdevsw_remove_def)
qed

text \<open>A machine on which every step of loading succeeds, and the module before it is loaded.\<close>

definition quiet_module :: module_kpi where
  "quiet_module = \<lparr>dev_kern = \<lparr>kern = quiet_kpi, make_node = (\<lambda>_ _. True)\<rparr>, lck_grp_attr_ok = True,
     lck_grp_ok = True, lck_mtx_ok = True, osmalloc_tag_ok = True, next_major = (\<lambda>_. 21)\<rparr>"

definition unloaded_module :: devfs_module where
  "unloaded_module = \<lparr>devices = \<lparr>drv = initial_state, g_slots = (\<lambda>_. empty_slot), g_slot_sequence = 0,
       g_binder_major = -1, published = []\<rparr>, devfs_lck_grp = False, binder_lock = False,
     devfs_osmalloc_tag = False, g_devfs_major = -1, g_prop_handle = None, g_kmsg_handle = None,
     live = [], switches = [], sysctls = []\<rparr>"

lemma unloaded_module_ok: "unloaded unloaded_module"
  by (simp add: unloaded_def unloaded_module_def initial_state_def empty_context_def)

lemma quiet_module_loads: "fst (devfs_start quiet_module unloaded_module)"
  by (simp add: devfs_start_def quiet_module_def unloaded_module_def cdevsw_add_def binder_devices_init_def
      binder_static_contexts_def devfs_publish_def android_devices_init_def module_publish_def upd_context_def Let_def)

text \<open>C33: unloading undoes loading. Whatever happened to the devices in between, as long as every
  published node's handle is still remembered (which loading establishes), stopping
  the module removes every node, retires every context, unregisters the sysctls, frees the
  locks and the memory tag and gives the binder major back. It does not give back
  the majors of the two stub devices: their entries of the switch table stay.\<close>

theorem load_unload:
  assumes "unloaded g" and "devfs_start K g = (True, g1)" and "all_tracked (g1\<lparr>devices := d\<rparr>)"
  shows "all_tracked g1 \<and>
    (let g2 = devfs_stop (g1\<lparr>devices := d\<rparr>) in
       published (devices g2) = [] \<and> live g2 = [] \<and> sysctls g2 = [] \<and>
       (\<forall>i < BINDER_MAX_CONTEXTS. \<not> c_in_use (contexts (drv (devices g2)) i)) \<and>
       \<not> devfs_lck_grp g2 \<and> \<not> binder_lock g2 \<and> \<not> devfs_osmalloc_tag g2 \<and>
       switches g2 = [(next_major K Kmsg_cdevsw, Kmsg_cdevsw), (next_major K Prop_cdevsw, Prop_cdevsw)])"
proof -
  have eff: "loaded_objects K g1" "all_tracked g1" "sysctls g1 = devfs_sysctl_names"
    "switches g1 = [(next_major K Kmsg_cdevsw, Kmsg_cdevsw), (next_major K Prop_cdevsw, Prop_cdevsw),
        (next_major K Binder_cdevsw, Binder_cdevsw)]"
    using start_effect [OF assms(1,2)] by simp_all
  have l: "loaded_objects K (g1\<lparr>devices := d\<rparr>)" "sysctls (g1\<lparr>devices := d\<rparr>) = devfs_sysctl_names"
    using eff(1,3) by (simp_all add: loaded_objects_def)
  show ?thesis
    using stop_published [OF assms(3)] stop_objects [OF l] eff(2,4) by (simp add: Let_def)
qed

theorem load_unload_witness:
  "\<exists>g1. devfs_start quiet_module unloaded_module = (True, g1) \<and> published (devices (devfs_stop g1)) = [] \<and>
    live (devfs_stop g1) = [] \<and> switches (devfs_stop g1) = [(21, Kmsg_cdevsw), (21, Prop_cdevsw)]"
proof -
  obtain g1 where g1: "devfs_start quiet_module unloaded_module = (True, g1)"
    using quiet_module_loads by (cases "devfs_start quiet_module unloaded_module") auto
  have "all_tracked (g1\<lparr>devices := devices g1\<rparr>)"
    using start_effect [OF unloaded_module_ok g1] by simp
  then show ?thesis
    using load_unload [OF unloaded_module_ok g1, of "devices g1"] g1 by (simp add: Let_def quiet_module_def)
qed

text \<open>The nodes of the first \<open>k\<close> static contexts, as they are published from handle \<open>h\<close> on.\<close>

definition static_nodes :: "nat \<Rightarrow> int \<Rightarrow> nat \<Rightarrow> (nat \<times> int \<times> nat \<times> string) list" where
  "static_nodes h major k = rev (map (\<lambda>i. (h + i, major, i, binder_static_contexts ! i)) [0..<k])"

lemma devices_init_failed:
  assumes "binder_devices_init K major d = (e, d')" and "e \<noteq> OK" and "published d = []"
  shows "\<exists>k < 3. \<not> make_node K (clock (drv d) + k) (binder_static_contexts ! k) \<and>
    published d' = static_nodes (clock (drv d)) major k \<and>
    (\<forall>i < k. c_in_use (contexts (drv d') i)) \<and> \<not> c_in_use (contexts (drv d') k)"
proof -
  let ?ok = "\<lambda>i. make_node K (clock (drv d) + i) (binder_static_contexts ! i)"
  consider "\<not> ?ok 0" | "?ok 0" "\<not> ?ok 1" | "?ok 0" "?ok 1" "\<not> ?ok 2" | "?ok 0" "?ok 1" "?ok 2" by blast
  then show ?thesis
  proof cases
    case 1
    then show ?thesis using assms
      by (intro exI [of _ 0]) (auto simp: binder_devices_init_def binder_static_contexts_def devfs_publish_def
          upd_context_def static_nodes_def Let_def)
  next
    case 2
    then show ?thesis using assms
      by (intro exI [of _ 1]) (auto simp: binder_devices_init_def binder_static_contexts_def devfs_publish_def
          upd_context_def static_nodes_def Let_def)
  next
    case 3
    then show ?thesis using assms
      by (intro exI [of _ 2]) (auto simp: binder_devices_init_def binder_static_contexts_def devfs_publish_def
          upd_context_def static_nodes_def Let_def less_2_cases_iff upt_rec)
  next
    case 4
    then show ?thesis using assms
      by (auto simp: binder_devices_init_def binder_static_contexts_def devfs_publish_def upd_context_def Let_def
          split: if_splits)
  qed
qed

lemma devices_init_done:
  assumes "binder_devices_init K major d = (OK, d')" and "published d = []"
  shows "set (static_nodes (clock (drv d)) major 3) \<subseteq> set (published d') \<and> (\<forall>x \<in> set (published d'). fst x < clock (drv d')) \<and>
    (\<forall>i < 3. c_in_use (contexts (drv d') i))"
  using assms
  by (auto simp: binder_devices_init_def binder_static_contexts_def devfs_publish_def upd_context_def static_nodes_def
      less_Suc_eq numeral_3_eq_3 Let_def BINDER_MAX_CONTEXTS_def split: if_splits)

lemma android_init_failed:
  assumes "android_devices_init K g = (e, g')" and "e \<noteq> OK" and "g_prop_handle g = None"
    and "\<forall>x \<in> set (published (devices g)). fst x < clock (drv (devices g))"
  shows "published (devices g') = published (devices g) \<and> contexts (drv (devices g')) = contexts (drv (devices g))"
proof -
  have "filter (\<lambda>x. fst x \<noteq> clock (drv (devices g))) (published (devices g)) = published (devices g)"
    unfolding filter_id_conv using assms(4) by fastforce
  then show ?thesis
    using assms(1-3)
    by (auto simp: android_devices_init_def cdevsw_add_def module_publish_def devfs_publish_def Let_def
        remove_prop_def module_remove_def devfs_remove_def cdevsw_remove_def split: if_splits)
qed

lemma failed_load_nodes:
  assumes g: "unloaded g" and run: "devfs_start K g = (False, g1)"
    and reached: "lck_grp_attr_ok K" "lck_grp_ok K" "lck_mtx_ok K" "osmalloc_tag_ok K" "next_major K Binder_cdevsw \<noteq> -1"
  shows "let h = clock (drv (devices g)); m = next_major K Binder_cdevsw;
      (e, d) = binder_devices_init (dev_kern K) m (devices g)
    in if e = OK then set (static_nodes h m 3) \<subseteq> set (published (devices g1)) \<and>
         (\<forall>i < 3. c_in_use (contexts (drv (devices g1)) i))
       else devices g1 = d"
proof -
  let ?m = "next_major K Binder_cdevsw"
  obtain e d where d: "binder_devices_init (dev_kern K) ?m (devices g) = (e, d)" by force
  let ?g = "g\<lparr>devfs_lck_grp := True, binder_lock := True, devfs_osmalloc_tag := True,
    live := [OsmallocTag, LckMtx, LckGrp], switches := [(?m, Binder_cdevsw)], g_devfs_major := ?m, devices := d\<rparr>"
  obtain e' g' where g': "android_devices_init K ?g = (e', g')" by force
  have run': "devfs_start K g = (if e \<noteq> OK then fail_cdevsw ?g
      else if e' \<noteq> OK then fail_android g' else (True, devfs_sysctl_register g'))"
    using reached d g' g by (simp add: devfs_start_def cdevsw_add_def Let_def unloaded_def)
  show ?thesis
  proof (cases "e = OK")
    case False
    then show ?thesis
      using run run' d by (simp add: fail_cdevsw_def fail_tag_def fail_lock_def fail_grp_def cdevsw_remove_def) auto
  next
    case True
    then have e': "e' \<noteq> OK" "g1 = g'" using run run' by (auto simp: fail_android_def split: if_splits)
    have none: "published (devices g) = []" "g_prop_handle ?g = None" using g by (simp_all add: unloaded_def)
    have init: "set (static_nodes (clock (drv (devices g))) ?m 3) \<subseteq> set (published d)"
        "\<forall>x \<in> set (published d). fst x < clock (drv d)" "\<forall>i < 3. c_in_use (contexts (drv d) i)"
      using devices_init_done [OF d [unfolded True] none(1)] by auto
    have "published (devices g') = published d \<and> contexts (drv (devices g')) = contexts (drv d)"
      using android_init_failed [OF g' e'(1) none(2)] init(2) by simp
    then show ?thesis using d True init e'(2) by (simp add: Let_def)
  qed
qed

text \<open>C34: what a load that fails leaves behind, on every path. Never a sysctl. If it fails before the device nodes, nothing:
  no lock, tag or entry of the switch table, and the devices are as they were. If a node of a static context cannot be made,
  locks, tag and switch entry are given back, but the nodes of the contexts before it stay published and those
  contexts stay in use. If it fails in the stub devices, nothing is given back: the lock group, the lock, the memory tag,
  the binder entry of the switch table and the nodes of all static contexts stay, and the contexts stay in use.\<close>

theorem failed_load:
  assumes "unloaded g" and "devfs_start K g = (False, g1)"
  shows "let h = clock (drv (devices g)); m = next_major K Binder_cdevsw in sysctls g1 = [] \<and>
    (if lck_grp_attr_ok K \<and> lck_grp_ok K \<and> lck_mtx_ok K \<and> osmalloc_tag_ok K \<and> m \<noteq> -1
     then if fst (binder_devices_init (dev_kern K) m (devices g)) = OK
       then live g1 = [OsmallocTag, LckMtx, LckGrp] \<and> (m, Binder_cdevsw) \<in> set (switches g1) \<and>
         set (static_nodes h m 3) \<subseteq> set (published (devices g1)) \<and> (\<forall>i < 3. c_in_use (contexts (drv (devices g1)) i))
       else live g1 = [] \<and> switches g1 = [] \<and>
         (\<exists>k < 3. \<not> make_node (dev_kern K) (h + k) (binder_static_contexts ! k) \<and> published (devices g1) = static_nodes h m k \<and>
           (\<forall>i < k. c_in_use (contexts (drv (devices g1)) i)) \<and> \<not> c_in_use (contexts (drv (devices g1)) k))
     else live g1 = [] \<and> switches g1 = [] \<and> devices g1 = devices g)"
proof (cases "lck_grp_attr_ok K \<and> lck_grp_ok K \<and> lck_mtx_ok K \<and> osmalloc_tag_ok K \<and> next_major K Binder_cdevsw \<noteq> -1")
  case False
  then have "devices g1 = devices g"
    using assms by (auto simp: devfs_start_def unloaded_def fail_grp_def fail_lock_def fail_tag_def cdevsw_add_def Let_def
        split: if_splits)
  then show ?thesis using start_effect [OF assms] False by (auto simp: Let_def)
next
  case True
  let ?m = "next_major K Binder_cdevsw"
  obtain e d where d: "binder_devices_init (dev_kern K) ?m (devices g) = (e, d)" by force
  have n: "if e = OK then set (static_nodes (clock (drv (devices g))) ?m 3) \<subseteq> set (published (devices g1)) \<and>
         (\<forall>i < 3. c_in_use (contexts (drv (devices g1)) i)) else devices g1 = d"
    using failed_load_nodes [OF assms] True d by (simp add: Let_def)
  have "published (devices g) = []" using assms(1) by (simp add: unloaded_def)
  from devices_init_failed [OF d _ this] n show ?thesis
    using start_effect [OF assms] True d by (cases "e = OK") (auto simp: Let_def loaded_objects_def)
qed

theorem failed_load_witness:
  "(let g1 = snd (devfs_start (quiet_module\<lparr>next_major := (\<lambda>sw. if sw = Prop_cdevsw then -1 else 21)\<rparr>) unloaded_module)
    in live g1 = [OsmallocTag, LckMtx, LckGrp] \<and> (21, Binder_cdevsw) \<in> set (switches g1)) \<and>
   (let g1 = snd (devfs_start (quiet_module\<lparr>osmalloc_tag_ok := False\<rparr>) unloaded_module)
    in live g1 = [] \<and> switches g1 = [] \<and> devices g1 = devices unloaded_module) \<and>
   (let g1 = snd (devfs_start (quiet_module\<lparr>dev_kern := \<lparr>kern = quiet_kpi, make_node = (\<lambda>_ p. p \<noteq> ''hwbinder'')\<rparr>\<rparr>) unloaded_module)
    in live g1 = [] \<and> published (devices g1) = static_nodes (clock initial_state) 21 1 \<and> c_in_use (contexts (drv (devices g1)) 0))"
proof -
  let ?K = "quiet_module\<lparr>next_major := (\<lambda>sw. if sw = Prop_cdevsw then -1 else 21)\<rparr>"
  let ?L = "quiet_module\<lparr>osmalloc_tag_ok := False\<rparr>"
  let ?M = "quiet_module\<lparr>dev_kern := \<lparr>kern = quiet_kpi, make_node = (\<lambda>_ p. p \<noteq> ''hwbinder'')\<rparr>\<rparr>"
  have K: "fst (devfs_start ?K unloaded_module) = False" "fst (devfs_start ?L unloaded_module) = False"
    "fst (binder_devices_init (dev_kern ?K) 21 (devices unloaded_module)) = OK"
    "fst (devfs_start ?M unloaded_module) = False" "fst (binder_devices_init (dev_kern ?M) 21 (devices unloaded_module)) \<noteq> OK"
    by (simp_all add: devfs_start_def quiet_module_def unloaded_module_def cdevsw_add_def binder_devices_init_def
      binder_static_contexts_def devfs_publish_def android_devices_init_def module_publish_def upd_context_def Let_def
      fail_android_def fail_lock_def fail_grp_def fail_cdevsw_def fail_tag_def)
  have static: "k < 3 \<Longrightarrow> binder_static_contexts ! k = ''hwbinder'' \<longleftrightarrow> k = 1" for k
    by (auto simp: binder_static_contexts_def less_Suc_eq numeral_3_eq_3)
  have "let g1 = snd (devfs_start ?M unloaded_module)
    in live g1 = [] \<and> published (devices g1) = static_nodes (clock initial_state) 21 1 \<and> c_in_use (contexts (drv (devices g1)) 0)"
    using failed_load [OF unloaded_module_ok, of ?M "snd (devfs_start ?M unloaded_module)"] K(4,5) static
    by (auto simp: prod_eq_iff Let_def quiet_module_def unloaded_module_def)
  then show ?thesis
    using failed_load [OF unloaded_module_ok, of ?K "snd (devfs_start ?K unloaded_module)"]
      failed_load [OF unloaded_module_ok, of ?L "snd (devfs_start ?L unloaded_module)"] K(1-3)
    by (simp add: prod_eq_iff Let_def) (simp add: quiet_module_def)
qed

end
