(* ===== verification/Binder_Reachable.thy ===== *)
theory Binder_Reachable
  imports Binder_Lifecycle Binder_Front Devfs_Module
begin

text \<open>
  The running driver as a state machine. A step is one entry of the kernel into the device
  (\<^verbatim>\<open>kext/binder_dev.c\<close>): a clone, an open, a close, an ioctl that returns or falls asleep, the
  awakening of a sleeping reader, a select. Each step has its own kernel services, so an
  allocation, a copy or a publication may fail at any of them. The states reachable from
  the loaded module (\<^verbatim>\<open>kext/devfs.c\<close>) all satisfy the invariant of the driver, and each open minor
  belongs to a process of its own that exists.
\<close>

section \<open>Minors and processes\<close>

text \<open>The open minors and the processes of the driver are in bijection, context by context.\<close>

definition slots_live :: "(addr \<Rightarrow> nat option) \<Rightarrow> (nat \<Rightarrow> binder_open_slot) \<Rightarrow> bool" where
  "slots_live A sl \<longleftrightarrow>
     (\<forall>i p. l_proc (sl i) = Some p \<longrightarrow> l_cloned (sl i) \<and> l_opened (sl i) \<and>
       (\<exists>c. A p = Some c \<and> l_context (sl i) = Some c)) \<and>
     (\<forall>i j p. l_proc (sl i) = Some p \<longrightarrow> l_proc (sl j) = Some p \<longrightarrow> i = j) \<and>
     (\<forall>p. A p \<noteq> None \<longrightarrow> (\<exists>i. l_proc (sl i) = Some p))"

definition dev_inv :: "binder_dev \<Rightarrow> bool" where
  "dev_inv d \<longleftrightarrow> (\<exists>A. kernel_inv A (drv d) \<and> slots_live A (g_slots d))"

lemma slots_liveD:
  assumes "slots_live A sl"
  shows "l_proc (sl i) = Some p \<Longrightarrow> l_cloned (sl i) \<and> l_opened (sl i) \<and> (\<exists>c. A p = Some c \<and> l_context (sl i) = Some c)"
    "l_proc (sl i) = Some p \<Longrightarrow> l_proc (sl j) = Some p \<Longrightarrow> i = j"
    "A p \<noteq> None \<Longrightarrow> \<exists>i. l_proc (sl i) = Some p"
  using assms unfolding slots_live_def by blast+

text \<open>A slot without a process changes hands freely; an open adds a process, a close removes it.\<close>

lemma slots_live_update:
  assumes live: "slots_live A sl" and "l_proc (sl i) = None" and "l_proc l = None"
  shows "slots_live A (sl(i := l))"
  unfolding slots_live_def
proof (intro conjI allI impI)
  fix j p assume "l_proc ((sl(i := l)) j) = Some p"
  then have "j \<noteq> i" "l_proc (sl j) = Some p" using assms(3) by (auto split: if_splits)
  then show "l_cloned ((sl(i := l)) j)" "l_opened ((sl(i := l)) j)" "\<exists>c. A p = Some c \<and> l_context ((sl(i := l)) j) = Some c"
    using slots_liveD(1) [OF live, of j p] by simp_all
next
  fix j k p assume "l_proc ((sl(i := l)) j) = Some p" "l_proc ((sl(i := l)) k) = Some p"
  then show "j = k" using assms(3) slots_liveD(2) [OF live] by (auto split: if_splits)
next
  fix p assume "A p \<noteq> None"
  then obtain j where j: "l_proc (sl j) = Some p" using slots_liveD(3) [OF live] by blast
  then have "j \<noteq> i" using assms(2) by auto
  then show "\<exists>j. l_proc ((sl(i := l)) j) = Some p" using j by (auto intro!: exI [of _ j])
qed

lemma slots_live_open:
  assumes live: "slots_live A sl" and i: "l_proc (sl i) = None" and p: "A p = None"
    and l: "l_proc l = Some p" "l_cloned l" "l_opened l" "l_context l = Some c"
  shows "slots_live (A(p \<mapsto> c)) (sl(i := l))"
  unfolding slots_live_def
proof (intro conjI allI impI)
  have new: "l_proc (sl j) \<noteq> Some p" for j using slots_liveD(1) [OF live, of j p] p by auto
  {
    fix j q assume "l_proc ((sl(i := l)) j) = Some q"
    then have j: "j = i \<and> q = p \<or> j \<noteq> i \<and> q \<noteq> p \<and> l_proc (sl j) = Some q" using l(1) new by (auto split: if_splits)
    then show "l_cloned ((sl(i := l)) j)" "l_opened ((sl(i := l)) j)"
        "\<exists>c'. (A(p \<mapsto> c)) q = Some c' \<and> l_context ((sl(i := l)) j) = Some c'"
      using l slots_liveD(1) [OF live, of j q] by auto
  next
    fix j k q assume "l_proc ((sl(i := l)) j) = Some q" "l_proc ((sl(i := l)) k) = Some q"
    then show "j = k" using l(1) new slots_liveD(2) [OF live, of j q k] by (auto split: if_splits)
  next
    fix q assume q: "(A(p \<mapsto> c)) q \<noteq> None"
    show "\<exists>j. l_proc ((sl(i := l)) j) = Some q"
    proof (cases "q = p")
      case True
      then show ?thesis using l(1) by (auto intro!: exI [of _ i])
    next
      case False
      then obtain j where "l_proc (sl j) = Some q" using q slots_liveD(3) [OF live, of q] by auto
      then show ?thesis using i by (auto intro!: exI [of _ j])
    qed
  }
qed

lemma slots_live_close:
  assumes live: "slots_live A sl" and p: "l_proc (sl i) = Some p" and l: "l_proc l = None"
  shows "slots_live (A(p := None)) (sl(i := l))"
  unfolding slots_live_def
proof (intro conjI allI impI)
  fix j q assume "l_proc ((sl(i := l)) j) = Some q"
  then have j: "j \<noteq> i" "l_proc (sl j) = Some q" using l by (auto split: if_splits)
  then have "q \<noteq> p" using slots_liveD(2) [OF live p, of j] by auto
  then show "l_cloned ((sl(i := l)) j)" "l_opened ((sl(i := l)) j)"
      "\<exists>c. (A(p := None)) q = Some c \<and> l_context ((sl(i := l)) j) = Some c"
    using j slots_liveD(1) [OF live, of j q] by auto
next
  fix j k q assume "l_proc ((sl(i := l)) j) = Some q" "l_proc ((sl(i := l)) k) = Some q"
  then show "j = k" using l slots_liveD(2) [OF live, of j q k] by (auto split: if_splits)
next
  fix q assume "(A(p := None)) q \<noteq> None"
  then have q: "q \<noteq> p" "A q \<noteq> None" by (auto split: if_splits)
  then obtain j where "l_proc (sl j) = Some q" using slots_liveD(3) [OF live] by blast
  then show "\<exists>j. l_proc ((sl(i := l)) j) = Some q" using q(1) p by (auto intro!: exI [of _ j])
qed

section \<open>The entry points\<close>

lemma dev_invI: "kernel_inv A (drv d) \<Longrightarrow> slots_live A (g_slots d) \<Longrightarrow> dev_inv d"
  unfolding dev_inv_def by blast

lemma dev_inv_open:
  assumes op: "binder_dev_open K m d = (e, d')" and inv: "dev_inv d"
  shows "dev_inv d'"
proof (cases "d' = d")
  case False
  obtain A where A: "kernel_inv A (drv d)" "slots_live A (g_slots d)" using inv by (auto simp: dev_inv_def)
  from op False obtain i c where i: "binder_slot_for_dev m = Some i" "l_context (g_slots d i) = Some c"
      "l_cloned (g_slots d i)" "\<not> l_opened (g_slots d i)"
    by (auto simp: binder_dev_open_def Let_def split: option.splits if_splits)
  obtain found s' where new: "binder_proc_new (kern K) c (drv d) = (found, s')" by fastforce
  note k = kernel_proc_new [OF new A(1)]
  have none: "l_proc (g_slots d i) = None" using slots_liveD(1) [OF A(2), of i] i(4) by (cases "l_proc (g_slots d i)") auto
  show ?thesis
  proof (cases found)
    case None
    then have "d' = d\<lparr>drv := s'\<rparr>" using op i new by (auto simp: binder_dev_open_def Let_def)
    then show ?thesis using k None A(2) by (auto intro: dev_invI)
  next
    case (Some p)
    then have d': "d' = d\<lparr>drv := s', g_slots := (g_slots d)(i :=
        (g_slots d i)\<lparr>l_proc := Some p, l_opened := True, l_lookup_pid := 0\<rparr>)\<rparr>"
      using op i new by (auto simp: binder_dev_open_def Let_def)
    have kp: "A p = None" "kernel_inv (A(p \<mapsto> c)) s'" using k Some by simp_all
    show ?thesis unfolding d'
      by (rule dev_invI [of "A(p \<mapsto> c)"]) (use kp i none in \<open>auto intro!: slots_live_open [OF A(2)]\<close>)
  qed
qed (use inv in simp)

lemma dev_inv_close:
  assumes op: "binder_dev_close m d = Some d'" and inv: "dev_inv d"
  shows "dev_inv d'"
proof (cases "binder_slot_for_dev m")
  case None
  then show ?thesis using op inv by (simp add: binder_dev_close_def)
next
  case (Some i)
  obtain A where A: "kernel_inv A (drv d)" "slots_live A (g_slots d)" using inv by (auto simp: dev_inv_def)
  show ?thesis
  proof (cases "l_proc (g_slots d i)")
    case None
    then show ?thesis using op Some A
      by (auto simp: binder_dev_close_def intro!: dev_invI [of A] slots_live_update)
  next
    case p: (Some p)
    then obtain s' where s': "binder_proc_release p (drv d) = Some s'" using op Some by (auto simp: binder_dev_close_def bind_eq_Some_conv)
    show ?thesis using op Some p s' kernel_proc_release [OF s' A(1)]
      by (auto simp: binder_dev_close_def intro!: dev_invI [of "A(p := None)"] slots_live_close [OF A(2)])
  qed
qed

lemma pick_slot_shut:
  assumes "pick_slot sl = Some i"
  shows "\<not> l_cloned (sl i) \<or> \<not> l_opened (sl i)"
proof (cases "find (\<lambda>i. \<not> l_cloned (sl i)) [0..<BINDER_MAX_OPENS]")
  case None
  obtain r q where o: "oldest_loop sl [0..<BINDER_MAX_OPENS] (None, - 1) = (r, q)" by fastforce
  then show ?thesis using oldest_loop_spec [OF o] assms None by (auto simp: pick_slot_def)
next
  case (Some j)
  then have "j = i" using assms by (simp add: pick_slot_def)
  then show ?thesis using Some by (auto simp: find_Some_iff)
qed

lemma dev_inv_clone:
  assumes op: "binder_clone K m alloc d = (r, d')" and inv: "dev_inv d"
  shows "dev_inv d'"
proof -
  obtain A where A: "kernel_inv A (drv d)" "slots_live A (g_slots d)" using inv by (auto simp: dev_inv_def)
  have shut: "l_proc (g_slots d i) = None" if "\<not> l_cloned (g_slots d i) \<or> \<not> l_opened (g_slots d i)" for i
    using slots_liveD(1) [OF A(2), of i] that by (cases "l_proc (g_slots d i)") auto
  have pick: "l_proc (g_slots d i) = None" if "pick_slot (g_slots d) = Some i" for i
    using pick_slot_shut [OF that] shut by blast
  have wait: "l_proc (g_slots d i) = None" if "slot_waits_for q c (g_slots d i)" for i q c
    using that shut by (auto simp: slot_waits_for_def)
  show ?thesis
    using op inv A
    by (auto simp: binder_clone_def Let_def split: if_splits option.splits
        intro!: dev_invI [of A] slots_live_update dest!: find_SomeD dest: pick)
      (rule wait, assumption)+
qed

lemma publish_drv:
  assumes "devfs_publish K major m path d = (h, d')"
  shows "drv d' = (drv d)\<lparr>clock := Suc (clock (drv d))\<rparr>" "g_slots d' = g_slots d"
  using assms by (auto simp: devfs_publish_def Let_def split: if_splits)

lemma dev_inv_publish:
  assumes "devfs_publish K major m path d = (h, d')" and "dev_inv d"
  shows "dev_inv d'"
  using assms(2) publish_drv [OF assms(1)] kernel_clock unfolding dev_inv_def by metis

lemma dev_inv_context:
  assumes "dev_inv d" and "\<And>C. c_mgr_node (f C) = c_mgr_node C"
  shows "dev_inv (d\<lparr>drv := upd_context c f (drv d)\<rparr>)"
  using assms(1) kernel_context [OF _ assms(2)] unfolding dev_inv_def by fastforce

lemma dev_inv_ctl_add:
  assumes op: "binder_ctl_add K req d = (e, out, d')" and inv: "dev_inv d"
  shows "dev_inv d'"
proof -
  let ?c = "\<lambda>i. d\<lparr>drv := upd_context i (\<lambda>C. C\<lparr>c_name := c_string req, c_minor := int i, c_in_use := True,
    c_procs := []\<rparr>) (drv d)\<rparr>"
  have new: "dev_inv (?c i)" for i by (rule dev_inv_context [OF inv]) simp
  have pub: "dev_inv d1" if "devfs_publish K major i path (?c i) = (h, d1)" for major i path h d1
    by (rule dev_inv_publish [OF that new])
  show ?thesis
    using op inv pub by (auto simp: binder_ctl_add_def Let_def split: if_splits option.splits prod.splits intro!: dev_inv_context)
qed

lemma dev_inv_drv:
  assumes "dev_inv d" and "\<And>A. kernel_inv A (drv d) \<Longrightarrow> kernel_inv A s"
  shows "dev_inv (d\<lparr>drv := s\<rparr>)"
  using assms unfolding dev_inv_def by fastforce

lemma dev_inv_ioctl:
  assumes op: "binder_dev_ioctl K m cmd data d = Some (r, d')" and inv: "dev_inv d" and K: "page_ok (kern K)"
  shows "dev_inv d'"
proof (cases "binder_slot_for_dev m")
  case None
  then show ?thesis using op inv
    by (auto simp: binder_dev_ioctl_def split: if_splits prod.splits dest: dev_inv_ctl_add)
next
  case (Some i)
  show ?thesis using op Some inv unfolding binder_dev_ioctl_def
    by (simp, elim runE) (auto intro!: dev_inv_drv elim!: keeps simp: K)
qed

lemma dev_inv_select:
  assumes "binder_dev_select K m which d = Some (r, d')" and "dev_inv d"
  shows "dev_inv d'"
  using assms
  by (auto simp: binder_dev_select_def bind_eq_Some_conv split: if_splits option.splits select_which.splits
      intro!: dev_inv_drv elim!: keeps)

section \<open>Loading\<close>

lemma initial_state_ok: "kernel_inv (\<lambda>_. None) initial_state"
  by (auto simp: kernel_off_def initial_state_def graph_off_def mgr_ok_def handles_ok_def young_def arenas_ok_def
      context_of_def empty_context_def)

lemma unloaded_inv: "dev_inv (devices unloaded_module)"
  using initial_state_ok
  by (auto simp: unloaded_module_def slots_live_def empty_slot_def intro!: dev_invI [of "\<lambda>_. None"])

lemma dev_inv_publish_contexts:
  "publish_contexts K major xs d = (e, d') \<Longrightarrow> dev_inv d \<Longrightarrow> dev_inv d'"
proof (induction xs arbitrary: d)
  case (Cons x xs)
  obtain i name where x: "x = (i, name)" by fastforce
  let ?c = "d\<lparr>drv := upd_context i (\<lambda>C. C\<lparr>c_name := name, c_minor := int i, c_in_use := True, c_procs := []\<rparr>) (drv d)\<rparr>"
  obtain h d1 where p: "devfs_publish K major i name ?c = (h, d1)" by fastforce
  have "dev_inv ?c" by (rule dev_inv_context [OF Cons.prems(2)]) simp
  then have k: "dev_inv d1" by (rule dev_inv_publish [OF p])
  show ?case
    using Cons.prems(1) x p k by (cases h) (auto simp: Let_def intro!: dev_inv_context elim!: Cons.IH)
qed simp

lemma dev_inv_init:
  assumes "binder_devices_init K major d = (e, d')" and "dev_inv d"
  shows "dev_inv d'"
proof -
  obtain e1 d1 where p: "publish_contexts K major (enumerate 0 binder_static_contexts) (d\<lparr>g_binder_major := major\<rparr>) = (e1, d1)"
    by fastforce
  have "dev_inv (d\<lparr>g_binder_major := major\<rparr>)" using assms(2) by (simp add: dev_inv_def)
  then have k: "dev_inv d1" by (rule dev_inv_publish_contexts [OF p])
  then have pub: "dev_inv d2" if "devfs_publish K major m path d1 = (h, d2)" for m path h d2
    by (rule dev_inv_publish [OF that])
  show ?thesis
    using assms(1) p k pub
    by (auto simp: binder_devices_init_def split: if_splits prod.splits option.splits intro!: dev_inv_context)
qed

lemma dev_inv_module:
  "dev_inv (devices g) \<Longrightarrow> cdevsw_add K sw g = (major, g') \<Longrightarrow> dev_inv (devices g')"
  "dev_inv (devices g) \<Longrightarrow> module_publish K m i path g = (h, g') \<Longrightarrow> dev_inv (devices g')"
  "dev_inv (devices g) \<Longrightarrow> dev_inv (devices (remove_prop g))"
  "devices (cdevsw_remove m sw g) = devices g" "devices (devfs_sysctl_register g) = devices g"
proof -
  show "dev_inv (devices g) \<Longrightarrow> module_publish K m i path g = (h, g') \<Longrightarrow> dev_inv (devices g')"
    by (auto simp: module_publish_def split: prod.splits dest: dev_inv_publish)
  show "dev_inv (devices g) \<Longrightarrow> dev_inv (devices (remove_prop g))"
    by (auto simp: remove_prop_def module_remove_def devfs_remove_def dev_inv_def split: option.splits)
qed (auto simp: cdevsw_add_def Let_def cdevsw_remove_def devfs_sysctl_register_def split: if_splits)

lemma dev_inv_android:
  assumes "android_devices_init K g = (e, g')" and "dev_inv (devices g)"
  shows "dev_inv (devices g')"
  using assms
  by (auto simp: android_devices_init_def Let_def dev_inv_module(4) split: prod.splits if_splits option.splits
      intro!: dev_inv_module(3) dest!: dev_inv_module(1,2) [rotated])

lemma dev_inv_load:
  assumes start: "devfs_start K unloaded_module = (True, g)"
  shows "dev_inv (devices g)"
proof -
  obtain e d where init: "binder_devices_init (dev_kern K) (next_major K Binder_cdevsw) (devices unloaded_module) = (e, d)" by fastforce
  have d: "dev_inv d" by (rule dev_inv_init [OF init unloaded_inv])
  have android: "dev_inv (devices (devfs_sysctl_register g2))" if "android_devices_init K g1 = (e', g2)" "devices g1 = d" for g1 e' g2
    using dev_inv_android [OF that(1)] that(2) d by (simp add: dev_inv_module(5))
  show ?thesis
    using start init
    by (auto simp: devfs_start_def Let_def cdevsw_add_def fail_grp_def fail_lock_def fail_tag_def fail_cdevsw_def fail_android_def
        split: if_splits prod.splits intro!: android)
qed

section \<open>Runs\<close>

text \<open>A reader asleep in \<^verbatim>\<open>BINDER_WRITE_READ\<close>: its process and thread, the channel it sleeps
  on and the argument of its ioctl as far as it has come.\<close>

record sleeper =
  sl_proc :: addr
  sl_thread :: addr
  sl_chan :: channel
  sl_bwr :: binder_write_read

inductive dev_step :: "binder_dev \<times> sleeper list \<Rightarrow> binder_dev \<times> sleeper list \<Rightarrow> bool" where
  clone: "binder_clone K m alloc d = (r, d') \<Longrightarrow> dev_step (d, ws) (d', ws)"
| opens: "binder_dev_open K m d = (e, d') \<Longrightarrow> dev_step (d, ws) (d', ws)"
| closes: "binder_dev_close m d = Some d' \<Longrightarrow> dev_step (d, ws) (d', ws)"
| ioctl: "page_ok (kern K) \<Longrightarrow> binder_dev_ioctl K m cmd data d = Some (Ioctl_Done e out, d') \<Longrightarrow> dev_step (d, ws) (d', ws)"
| sleep: "page_ok (kern K) \<Longrightarrow> binder_dev_ioctl K m cmd data d = Some (Ioctl_Blocked chan bwr, d') \<Longrightarrow>
    binder_slot_for_dev m = Some i \<Longrightarrow> l_proc (g_slots d i) = Some p \<Longrightarrow>
    binder_thread_lookup p (thread_tid (kern K)) (drv d') = Some (Some t) \<Longrightarrow>
    dev_step (d, ws) (d', \<lparr>sl_proc = p, sl_thread = t, sl_chan = chan, sl_bwr = bwr\<rparr> # ws)"
| wake: "w \<in> set ws \<Longrightarrow>
    binder_write_read_wakeup K (sl_proc w) (sl_thread w) (sl_chan w) (sl_bwr w) ret (drv d) = Some (WR_Done e bwr, s') \<Longrightarrow>
    dev_step (d, ws) (d\<lparr>drv := s'\<rparr>, remove1 w ws)"
| doze: "w \<in> set ws \<Longrightarrow>
    binder_write_read_wakeup K (sl_proc w) (sl_thread w) (sl_chan w) (sl_bwr w) ret (drv d) = Some (WR_Blocked chan bwr, s') \<Longrightarrow>
    dev_step (d, ws) (d\<lparr>drv := s'\<rparr>, w\<lparr>sl_chan := chan, sl_bwr := bwr\<rparr> # remove1 w ws)"
| selects: "binder_dev_select K m which d = Some (r, d') \<Longrightarrow> dev_step (d, ws) (d', ws)"

inductive reachable :: "binder_dev \<times> sleeper list \<Rightarrow> bool" where
  loaded: "devfs_start K unloaded_module = (True, g) \<Longrightarrow> reachable (devices g, [])"
| step: "reachable x \<Longrightarrow> dev_step x y \<Longrightarrow> reachable y"

lemma dev_step_inv:
  assumes "dev_step x y" and "dev_inv (fst x)"
  shows "dev_inv (fst y)"
  using assms
  by (induction rule: dev_step.induct)
    (auto dest: dev_inv_clone dev_inv_open dev_inv_close dev_inv_ioctl dev_inv_select intro!: dev_inv_drv elim!: keeps)

lemma reachable_inv: "reachable x \<Longrightarrow> dev_inv (fst x)"
proof (induction rule: reachable.induct)
  case (loaded K g)
  then show ?case by (simp add: dev_inv_load)
next
  case (step x y)
  then show ?case by (blast intro: dev_step_inv)
qed

lemma reachable_cases:
  assumes "reachable (d, ws)"
  obtains A where "kernel_inv A (drv d)" "slots_live A (g_slots d)"
  using reachable_inv [OF assms] by (auto simp: dev_inv_def)

lemma internal_refs_card:
  assumes "kernel_inv A s" and N: "nodes s n = Some N"
  shows "n_internal_strong_refs N = int (card {r. \<exists>R. refs s r = Some R \<and> r_node R = Some n \<and> 0 < r_strong R})"
proof -
  have ok: "node_graph_ok s 0 n N" using graph_offD(2) [OF kernel_offD(1) [OF assms(1)] N] by simp
  have "{r. \<exists>R. refs s r = Some R \<and> r_node R = Some n \<and> 0 < r_strong R} = set (filter (holds_strong s) (n_refs N))"
    using ok by (auto simp: node_graph_ok_def target_of_def holds_strong_def bind_eq_Some_conv split: option.splits)
  then show ?thesis using ok distinct_card [of "filter (holds_strong s) (n_refs N)"] by (simp add: node_graph_ok_def)
qed

section \<open>A run\<close>

text \<open>The module is loaded, the first binder node is looked up and opened, and the process becomes the
  manager of its context.\<close>

definition run_loaded :: binder_dev where
  "run_loaded = devices (snd (devfs_start quiet_module unloaded_module))"

lemma run_loaded_state:
  "\<exists>ctx pub. run_loaded = \<lparr>drv = initial_state\<lparr>contexts := ctx, clock := 7\<rparr>, g_slots = (\<lambda>_. empty_slot), g_slot_sequence = 0,
     g_binder_major = 21, published = pub\<rparr> \<and> c_in_use (ctx 0) \<and> c_mgr_node (ctx 0) = None \<and> \<not> c_mgr_uid_valid (ctx 0)"
  by (simp add: run_loaded_def devfs_start_def quiet_module_def unloaded_module_def cdevsw_add_def binder_devices_init_def
      binder_static_contexts_def devfs_publish_def android_devices_init_def module_publish_def upd_context_def Let_def devfs_sysctl_register_def
      initial_state_def empty_context_def abi_defs BINDER_MAX_CONTEXTS_def)

lemma run_loaded_reachable: "reachable (run_loaded, [])"
  unfolding run_loaded_def by (rule reachable.loaded [of quiet_module]) (simp add: prod_eq_iff quiet_module_loads)

definition run_slot :: binder_open_slot where
  "run_slot = empty_slot\<lparr>l_cloned := True, l_lookup_pid := 100, l_context := Some 0, l_sequence := 1\<rparr>"

definition run_open :: "(nat \<Rightarrow> binder_context) \<Rightarrow> devfs_node list \<Rightarrow> binder_dev" where
  "run_open ctx pub = \<lparr>drv = initial_state\<lparr>contexts := ctx, clock := 8, stat_procs := 1,
       procs := [7 \<mapsto> new_proc\<lparr>p_pid := 100, p_context := Some 0, p_max_threads := 15\<rparr>]\<rparr>,
     g_slots = (\<lambda>_. empty_slot)(0 := run_slot\<lparr>l_proc := Some 7, l_opened := True, l_lookup_pid := 0\<rparr>),
     g_slot_sequence = 1, g_binder_major = 21, published = pub\<rparr>"

lemma run_cloned_reachable:
  "\<exists>ctx pub. reachable (\<lparr>drv = initial_state\<lparr>contexts := ctx, clock := 7\<rparr>, g_slots = (\<lambda>_. empty_slot)(0 := run_slot),
     g_slot_sequence = 1, g_binder_major = 21, published = pub\<rparr>, []) \<and> c_mgr_node (ctx 0) = None \<and> \<not> c_mgr_uid_valid (ctx 0)"
proof -
  obtain ctx pub where l: "run_loaded = \<lparr>drv = initial_state\<lparr>contexts := ctx, clock := 7\<rparr>, g_slots = (\<lambda>_. empty_slot),
      g_slot_sequence = 0, g_binder_major = 21, published = pub\<rparr>"
    and c: "c_in_use (ctx 0)" "c_mgr_node (ctx 0) = None" "\<not> c_mgr_uid_valid (ctx 0)"
    using run_loaded_state by blast
  have sl: "g_slots run_loaded i = empty_slot" for i by (simp add: l)
  have w: "find (\<lambda>i. slot_waits_for q k (g_slots run_loaded i)) is = None" for q k "is"
    by (simp add: sl find_None_iff slot_waits_for_def empty_slot_def)
  have "[0..<BINDER_MAX_OPENS] = 0 # [1..<BINDER_MAX_OPENS]" by (simp add: abi_defs upt_conv_Cons)
  then have pk: "pick_slot (g_slots run_loaded) = Some 0" by (simp add: pick_slot_def sl) (simp add: empty_slot_def)
  have cx: "binder_context_for_minor 0 run_loaded = Some 0"
    using c by (simp add: binder_context_for_minor_def l BINDER_MAX_CONTEXTS_def)
  have "g_slot_sequence run_loaded = 0" by (simp add: l)
  then have "binder_clone quiet_dev 0 True run_loaded =
      (Some 64, run_loaded\<lparr>g_slot_sequence := 1, g_slots := (g_slots run_loaded)(0 := run_slot)\<rparr>)"
    by (simp add: binder_clone_def cx w pk run_slot_def Let_def quiet_dev_def quiet_kpi_def abi_defs empty_slot_def)
  then have "reachable (run_loaded\<lparr>g_slot_sequence := 1, g_slots := (g_slots run_loaded)(0 := run_slot)\<rparr>, [])"
    by (rule reachable.step [OF run_loaded_reachable dev_step.clone])
  then show ?thesis using c unfolding l by (intro exI [of _ ctx] exI [of _ pub]) simp
qed

lemma run_open_reachable:
  "\<exists>ctx pub. reachable (run_open ctx pub, []) \<and> c_mgr_node (ctx 0) = None \<and> \<not> c_mgr_uid_valid (ctx 0)"
proof -
  obtain ctx pub where r: "reachable (\<lparr>drv = initial_state\<lparr>contexts := ctx, clock := 7\<rparr>, g_slots = (\<lambda>_. empty_slot)(0 := run_slot),
     g_slot_sequence = 1, g_binder_major = 21, published = pub\<rparr>, [])" and c: "c_mgr_node (ctx 0) = None" "\<not> c_mgr_uid_valid (ctx 0)"
    using run_cloned_reachable by blast
  let ?ctx = "ctx(0 := c_procs_update ((#) 7) (ctx 0))"
  have "binder_dev_open quiet_dev 64 \<lparr>drv = initial_state\<lparr>contexts := ctx, clock := 7\<rparr>, g_slots = (\<lambda>_. empty_slot)(0 := run_slot),
     g_slot_sequence = 1, g_binder_major = 21, published = pub\<rparr> = (OK, run_open ?ctx pub)"
    by (simp add: binder_dev_open_def binder_slot_for_dev_def BINDER_CLONE_BASE_def BINDER_MAX_OPENS_def run_slot_def run_open_def
        binder_proc_new_def binder_alloc_mem_def quiet_dev_def quiet_kpi_def initial_state_def empty_slot_def upd_context_def Let_def)
  then have "reachable (run_open ?ctx pub, [])" by (rule reachable.step [OF r dev_step.opens])
  then show ?thesis using c by (intro exI [of _ ?ctx] exI [of _ pub]) simp
qed

lemma run_example:
  "\<exists>d. reachable (d, []) \<and> l_proc (g_slots d 0) = Some 7 \<and> c_mgr_node (contexts (drv d) 0) = Some 9 \<and> nodes (drv d) 9 \<noteq> None"
proof -
  obtain ctx pub where r: "reachable (run_open ctx pub, [])" and c: "c_mgr_node (ctx 0) = None" "\<not> c_mgr_uid_valid (ctx 0)"
    using run_open_reachable by blast
  have key: "\<not> binder_cmd_reads_argument BINDER_SET_CONTEXT_MGR"
    "ioctl_dispatch K (BINDER_CMD_KEY BINDER_SET_CONTEXT_MGR) p t [] s = ioctl_errno [] (binder_context_mgr_set K p 0 0 0 s)" for K p t s
    by (simp_all add: binder_cmd_reads_argument_def ioctl_dispatch_def BINDER_CMD_KEY_def abi_defs)
  have "\<exists>d. binder_dev_ioctl quiet_dev 64 BINDER_SET_CONTEXT_MGR [] (run_open ctx pub) = Some (Ioctl_Done OK [], d) \<and>
      l_proc (g_slots d 0) = Some 7 \<and> c_mgr_node (contexts (drv d) 0) = Some 9 \<and> nodes (drv d) 9 \<noteq> None"
    using c
    by (simp add: binder_dev_ioctl_def key binder_slot_for_dev_def BINDER_CLONE_BASE_def BINDER_MAX_OPENS_def run_open_def
       binder_alloc_mem_def quiet_dev_def quiet_kpi_def initial_state_def Let_def new_proc_def upd_context_def
       binder_thread_get_def binder_thread_lookup_def binder_next_debug_id_def upd_proc_def ioctl_errno_def binder_context_mgr_set_def
       binder_node_new_def binder_node_find_def upd_node_def new_node_def int_inc_def int_max_def)
  then obtain d where d: "binder_dev_ioctl quiet_dev 64 BINDER_SET_CONTEXT_MGR [] (run_open ctx pub) = Some (Ioctl_Done OK [], d)"
      "l_proc (g_slots d 0) = Some 7" "c_mgr_node (contexts (drv d) 0) = Some 9" "nodes (drv d) 9 \<noteq> None" by blast
  have "page_ok (kern quiet_dev)" by (simp add: page_ok_def quiet_dev_def quiet_kpi_def)
  then have "reachable (d, [])" by (rule reachable.step [OF r dev_step.ioctl [OF _ d(1)]])
  then show ?thesis using d(2-4) by blast
qed

end
