(* ===== verification/Binder_Manager.thy ===== *)
theory Binder_Manager
  imports Binder_Objects
begin

text \<open>
  The context manager (\<^verbatim>\<open>binder_context_mgr_set\<close> of \<^verbatim>\<open>kext/binder_node.c\<close>): what claiming the
  role does on every branch, on any state of the reference graph, and that it keeps the invariant.
\<close>

section \<open>The role of the context manager\<close>

lemma driver_inv_context:
  assumes inv: "driver_inv s"
    and m: "\<And>c. c_mgr_node (C c) = c_mgr_node (contexts s c) \<or>
      (\<exists>m p. c_mgr_node (C c) = Some m \<and> owner_of s m = Some p \<and> context_of s p = Some c)"
  shows "driver_inv (s\<lparr>contexts := C\<rparr>)"
proof -
  note D = driver_invD [OF inv]
  have "owner_of (s\<lparr>contexts := C\<rparr>) = owner_of s" by (simp add: owner_of_def fun_eq_iff)
  moreover have "context_of (s\<lparr>contexts := C\<rparr>) = context_of s" by (simp add: context_of_def fun_eq_iff)
  ultimately have "mgr_ok (s\<lparr>contexts := C\<rparr>)"
    using D(2) m unfolding mgr_ok_def by (simp, metis option.inject)
  moreover have "handles_ok (s\<lparr>contexts := C\<rparr>)" by (rule handles_ok_frame [OF _ D(3)]) simp
  moreover have "fresh (s\<lparr>contexts := C\<rparr>)" using D(4) by (simp add: fresh_def)
  ultimately show ?thesis using D(1) by (simp add: driver_inv_def contexts_frame)
qed

lemma driver_inv_node:
  assumes inv: "driver_inv s" and N: "nodes s n = Some N"
    and N': "n_refs N' = n_refs N" "n_internal_strong_refs N' = n_internal_strong_refs N"
      "0 \<le> n_local_strong_refs N'" "0 \<le> n_local_weak_refs N'" "n_work N' = n_work N" "n_async_todo N' = n_async_todo N"
      "node_id N' = node_id N"
  shows "driver_inv (s\<lparr>nodes := (nodes s)(n \<mapsto> N')\<rparr>)"
proof (rule driver_inv_shrinks [OF inv node_shrinks [OF N N'(7)]])
  show "refs_inv (\<lambda>_. 0) (s\<lparr>nodes := (nodes s)(n \<mapsto> N')\<rparr>)"
    by (rule refs_inv_node [OF driver_invD(1) [OF inv] N]) (use N' in \<open>simp_all add: node_id_def\<close>)
qed

definition uid_claimed :: "kpi \<Rightarrow> nat \<Rightarrow> binder_state \<Rightarrow> binder_state" where
  "uid_claimed K c s = (if c_mgr_uid_valid (contexts s c) then s
     else upd_context c (\<lambda>C. C\<lparr>c_mgr_uid := kauth_uid K, c_mgr_uid_valid := True\<rparr>) s)"

lemma uid_claimed_ok:
  assumes "driver_inv s"
  shows "driver_inv (uid_claimed K c s)" "procs (uid_claimed K c s) = procs s" "nodes (uid_claimed K c s) = nodes s"
    "c_mgr_node (contexts (uid_claimed K c s) x) = c_mgr_node (contexts s x)"
    "c_mgr_uid_valid (contexts (uid_claimed K c s) c)"
    "\<not> c_mgr_uid_valid (contexts s c) \<or> c_mgr_uid (contexts s c) = kauth_uid K \<Longrightarrow>
      c_mgr_uid (contexts (uid_claimed K c s) c) = kauth_uid K"
    "x \<noteq> c \<Longrightarrow> contexts (uid_claimed K c s) x = contexts s x"
proof -
  show "driver_inv (uid_claimed K c s)"
    using assms by (simp add: uid_claimed_def upd_context_def) (intro impI driver_inv_context; simp)
qed (auto simp: uid_claimed_def upd_context_def)

text \<open>The object becomes the manager of its context.\<close>

definition manages :: "addr \<Rightarrow> u64 \<Rightarrow> nat \<Rightarrow> binder_state \<Rightarrow> bool" where
  "manages p ptr c s \<longleftrightarrow> (\<exists>n N. c_mgr_node (contexts s c) = Some n \<and> nodes s n = Some N \<and> n_proc N = Some p \<and>
     n_ptr N = ptr \<and> 0 < n_local_strong_refs N \<and> 0 < n_local_weak_refs N \<and> n_has_strong_ref N \<and> n_has_weak_ref N)"

lemma enthrone_ok:
  assumes inv: "driver_inv s" and P: "context_of s p = Some c" and N: "nodes s n = Some N" "n_proc N = Some p"
    and ub: "n_local_strong_refs N < int_max" "n_local_weak_refs N < int_max"
  defines "s1 \<equiv> upd_context c (c_mgr_node_update (\<lambda>_. Some n)) s"
  shows "\<exists>s'. do {
       N \<leftarrow> nodes s1 n;
       i \<leftarrow> int_inc (n_local_strong_refs N);
       j \<leftarrow> int_inc (n_local_weak_refs N);
       s \<leftarrow> upd_node n (\<lambda>N. N\<lparr>n_local_strong_refs := i, n_local_weak_refs := j,
         n_has_strong_ref := True, n_has_weak_ref := True\<rparr>) s1;
       Some (OK, s) } = Some (OK, s') \<and> driver_inv s' \<and> manages p (n_ptr N) c s' \<and> contexts s' = contexts s1"
proof -
  have inv1: "driver_inv s1"
    unfolding s1_def upd_context_def
    by (rule driver_inv_context [OF inv]) (use P N in \<open>auto simp: owner_of_def\<close>)
  have n1: "nodes s1 n = Some N" using N by (simp add: s1_def upd_context_def)
  have pos: "0 \<le> n_local_strong_refs N" "0 \<le> n_local_weak_refs N"
    using graph_offD(2) [OF refs_invD(1) [OF driver_invD(1) [OF inv]] N(1)] by (simp_all add: node_graph_ok_def)
  let ?N = "N\<lparr>n_local_strong_refs := n_local_strong_refs N + 1, n_local_weak_refs := n_local_weak_refs N + 1,
    n_has_strong_ref := True, n_has_weak_ref := True\<rparr>"
  have "driver_inv (s1\<lparr>nodes := (nodes s1)(n \<mapsto> ?N)\<rparr>)"
    by (rule driver_inv_node [OF inv1 n1]) (use pos in \<open>simp_all add: node_id_def\<close>)
  moreover have "manages p (n_ptr N) c (s1\<lparr>nodes := (nodes s1)(n \<mapsto> ?N)\<rparr>)"
    using N(2) pos by (simp add: manages_def s1_def upd_context_def)
  ultimately show ?thesis using n1 ub by (auto simp: int_inc_def upd_node_def)
qed

lemma claim_ok:
  assumes inv: "driver_inv s" and P: "procs s p = Some P" "p_context P = Some c" and ub: "locals_below s"
    and free: "c_mgr_node (contexts s c) = None"
    and uid: "\<not> c_mgr_uid_valid (contexts s c) \<or> c_mgr_uid (contexts s c) = kauth_uid K"
  shows "\<exists>e s'. binder_context_mgr_set K p ptr cookie flags s = Some (e, s') \<and> driver_inv s' \<and>
    c_mgr_uid_valid (contexts s' c) \<and> c_mgr_uid (contexts s' c) = kauth_uid K \<and>
    (\<forall>x. x \<noteq> c \<longrightarrow> contexts s' x = contexts s x) \<and>
    (if e = OK then manages p ptr c s'
     else e = ENOMEM \<and> (\<exists>c z. \<not> osmalloc K c z) \<and> c_mgr_node (contexts s' c) = None)"
proof -
  let ?s = "uid_claimed K c s"
  note u = uid_claimed_ok [where K = K and c = c, OF inv]
  obtain found s1 where f: "binder_node_new K p ptr cookie flags ?s = Some (found, s1)" "driver_inv s1"
      "actors s1 = actors ?s" "contexts s1 = contexts ?s"
      "case found of None \<Rightarrow> s1 = ?s\<lparr>clock := Suc (clock ?s)\<rparr> | Some n \<Rightarrow> \<exists>N. node_for p ptr cookie flags ?s n N s1"
    using node_new_ok [OF u(1), of p P K ptr cookie flags] P u(2) by auto
  have run: "binder_context_mgr_set K p ptr cookie flags s = do {
      (node, s) \<leftarrow> binder_node_new K p ptr cookie flags ?s;
      (case node of
         None \<Rightarrow> Some (ENOMEM, s)
       | Some n \<Rightarrow> do {
           let s = upd_context c (c_mgr_node_update (\<lambda>_. Some n)) s;
           N \<leftarrow> nodes s n;
           i \<leftarrow> int_inc (n_local_strong_refs N);
           j \<leftarrow> int_inc (n_local_weak_refs N);
           s \<leftarrow> upd_node n (\<lambda>N. N\<lparr>n_local_strong_refs := i, n_local_weak_refs := j,
             n_has_strong_ref := True, n_has_weak_ref := True\<rparr>) s;
           Some (OK, s) }) }"
    using P free uid by (auto simp: binder_context_mgr_set_def uid_claimed_def Let_def)
  show ?thesis
  proof (cases found)
    case None
    then show ?thesis
      using f(1,2,4) u(4,5,7) u(6) [OF uid] free node_new_memory [OF f(1) [unfolded None]] by (simp add: run)
  next
    case (Some n)
    then obtain N where N: "node_for p ptr cookie flags ?s n N s1" using f(5) by auto
    then have n: "nodes s1 n = Some N" "n_proc N = Some p" "n_ptr N = ptr" by (simp_all add: node_for_def)
    have b: "n_local_strong_refs N < int_max" "n_local_weak_refs N < int_max"
      using N ub u(3) by (auto simp: node_for_def locals_below_def int_max_def)
    have c: "context_of s1 p = Some c" using context_of_actors [OF f(3)] P u(2) by (simp add: context_of_def)
    let ?t = "upd_context c (c_mgr_node_update (\<lambda>_. Some n)) s1"
    obtain s' where s': "do {
         N \<leftarrow> nodes ?t n; i \<leftarrow> int_inc (n_local_strong_refs N); j \<leftarrow> int_inc (n_local_weak_refs N);
         s \<leftarrow> upd_node n (\<lambda>N. N\<lparr>n_local_strong_refs := i, n_local_weak_refs := j,
           n_has_strong_ref := True, n_has_weak_ref := True\<rparr>) ?t;
         Some (OK, s) } = Some (OK, s')" "driver_inv s'" "manages p ptr c s'" "contexts s' = contexts ?t"
      using enthrone_ok [OF f(2) c n(1,2) b] n(3) by blast
    show ?thesis
      using f(1) Some s' f(4) u(5,7) u(6) [OF uid] by (simp add: run Let_def upd_context_def)
  qed
qed

definition manager_example :: binder_state where
  "manager_example = handle_example\<lparr>procs := (procs handle_example)(
     1 \<mapsto> fresh_proc\<lparr>p_nodes := [3], p_threads := [5], p_context := Some 0\<rparr>)\<rparr>"

lemma manager_example_inv: "driver_inv manager_example"
proof -
  note D = driver_invD [OF handle_example_inv]
  have "graph_off (\<lambda>_. 0) manager_example"
    by (rule graph_off_procs [OF refs_invD(1) [OF D(1)]]) (auto simp: manager_example_def handle_example_defs)
  moreover have "queues_ok manager_example" "async_ok manager_example"
  proof -
    have "items manager_example = items handle_example" "place manager_example = place handle_example"
      by (auto simp: fun_eq_iff items_def place_def get_work_def get_queue_def manager_example_def handle_example_defs
          split: work_ptr.splits work_head.splits)
    moreover have "get_buffer p b manager_example = None \<longleftrightarrow> get_buffer p b handle_example = None" for p b
      by (auto simp: get_buffer_def manager_example_def handle_example_defs)
    ultimately show "queues_ok manager_example" "async_ok manager_example"
      using work_frame [OF _ _ _ _ refs_invD(2,3) [OF D(1)]] by (auto simp: manager_example_def)
  qed
  moreover have "deaths_ok manager_example"
    by (rule deaths_ok_frame [OF refs_invD(4) [OF D(1)]]) (simp_all add: manager_example_def)
  moreover have "mgr_ok manager_example" by (simp add: mgr_ok_def manager_example_def handle_example_defs)
  moreover have "handles_ok manager_example" by (rule handles_ok_frame [OF _ D(3)]) (simp add: manager_example_def)
  moreover have "fresh manager_example" using D(4) by (simp add: fresh_def manager_example_def)
  ultimately show ?thesis by (simp add: driver_inv_def refs_inv_def)
qed

text \<open>C18: the role of the context manager. A taken role and a user other than the one who first claimed it are refused without any
  change. Otherwise the context remembers the user for good, also when memory is short, and the object of
  the caller with that pointer becomes the manager, held by the driver so that it is not reclaimed. The
  other contexts are untouched and the invariant of the reference graph is kept.\<close>

theorem manager_claimed:
  assumes "driver_inv s" and "procs s p = Some P" and "p_context P = Some c" and "locals_below s"
  shows "\<exists>e s'. binder_context_mgr_set K p ptr cookie flags s = Some (e, s') \<and> driver_inv s' \<and>
    (if c_mgr_node (contexts s c) \<noteq> None then e = EBUSY \<and> s' = s
     else if c_mgr_uid_valid (contexts s c) \<and> c_mgr_uid (contexts s c) \<noteq> kauth_uid K then e = EPERM \<and> s' = s
     else c_mgr_uid_valid (contexts s' c) \<and> c_mgr_uid (contexts s' c) = kauth_uid K \<and>
       (\<forall>x. x \<noteq> c \<longrightarrow> contexts s' x = contexts s x) \<and>
       (if e = OK then manages p ptr c s'
        else e = ENOMEM \<and> (\<exists>c z. \<not> osmalloc K c z) \<and> c_mgr_node (contexts s' c) = None))"
proof (cases "c_mgr_node (contexts s c) = None \<and> (\<not> c_mgr_uid_valid (contexts s c) \<or> c_mgr_uid (contexts s c) = kauth_uid K)")
  case True
  then have g: "\<not> c_mgr_node (contexts s c) \<noteq> None" "\<not> (c_mgr_uid_valid (contexts s c) \<and> c_mgr_uid (contexts s c) \<noteq> kauth_uid K)"
    by auto
  show ?thesis
    unfolding if_not_P [OF g(1)] if_not_P [OF g(2)]
    by (rule claim_ok [OF assms conjunct1 [OF True] conjunct2 [OF True]])
next
  case False
  then show ?thesis using assms by (auto simp: binder_context_mgr_set_def Let_def)
qed

theorem manager_claimed_witness:
  "\<exists>s'. binder_context_mgr_set quiet_kpi 1 0x1000 0 0 manager_example = Some (OK, s') \<and>
    manages 1 0x1000 0 s' \<and> c_mgr_uid (contexts s' 0) = 501"
proof -
  have p: "procs manager_example 1 = Some (fresh_proc\<lparr>p_nodes := [3], p_threads := [5], p_context := Some 0\<rparr>)"
    by (simp add: manager_example_def)
  have "locals_below manager_example" by (simp add: locals_below_def manager_example_def handle_example_defs int_max_def)
  then show ?thesis
    using manager_claimed [OF manager_example_inv p, of 0 quiet_kpi "0x1000" 0 0]
    by (auto simp: manager_example_def handle_example_defs quiet_kpi_def split: if_splits)
qed

end
