(* ===== verification/Binder_Close.thy ===== *)
theory Binder_Close
  imports Binder_Proc
begin

text \<open>
  What happens to the transactions still queued on a process that is closed (the loop over \<^verbatim>\<open>proc->todo\<close> in
  \<^verbatim>\<open>binder_proc_release\<close>, \<^verbatim>\<open>kext/binder_proc.c\<close>): freeing a transaction's buffer before the transaction
  itself.
\<close>

text \<open>A one-way transaction without objects that waits on the queue of a process, in a buffer of that process.\<close>

definition queued_oneway :: "addr \<Rightarrow> addr \<Rightarrow> binder_buffer \<Rightarrow> binder_state \<Rightarrow> bool" where
  "queued_oneway p x B s \<longleftrightarrow> \<not> b_free B \<and> b_offsets_size B = 0 \<and> (case txns s x of None \<Rightarrow> False
     | Some X \<Rightarrow> x_work X = \<lparr>w_queue = Some (ProcTodo p), w_type = BINDER_WORK_TRANSACTION\<rparr> \<and>
         x_buffer X = Some (p, b_id B) \<and> x_from X = None \<and> x_to_thread X = None)"

text \<open>Whether the descriptor of a buffer survives its own freeing.\<close>

lemma buffer_freed_gone:
  assumes P: "procs s p = Some P" "p_buffers P = pre @ B # post" "\<not> b_free B" and ids: "distinct (map b_id (p_buffers P))"
  shows "\<exists>s' P'. binder_buffer_free p (b_id B) s = Some s' \<and> txns s' = txns s \<and> procs s' p = Some P' \<and>
    p_todo P' = p_todo P \<and> p_buffers P' = merge_prev pre (merge_next (buffer_release B) post) \<and>
    (get_buffer p (b_id B) s' = None \<longleftrightarrow> pre \<noteq> [] \<and> b_free (last pre))"
proof -
  have ids': "b_id b \<noteq> b_id B" if "b \<in> set pre \<union> set post" for b
    using ids P(2) that by (force simp: image_iff)
  let ?bs = "merge_prev pre (merge_next (buffer_release B) post)"
  have "find (\<lambda>x. b_id x = b_id B) ?bs = None \<longleftrightarrow> pre \<noteq> [] \<and> b_free (last pre)"
    using ids' by (cases pre rule: rev_cases; cases post)
      (auto simp: merge_prev_def merge_next_def buffer_release_def find_None_iff)
  then show ?thesis
    using binder_buffer_free_eq [OF P] ids' P(1) by (force simp: get_buffer_def)
qed

text \<open>The step of the loop over the queue for such a transaction: it frees the transaction's buffer and then the transaction, which still
  writes into the buffer. That is defined unless, at that moment, the buffer just before the transaction's own is free.\<close>

lemma close_step:
  assumes P: "procs s p = Some P" "p_buffers P = pre @ B # post" "distinct (map b_id (p_buffers P))"
    and x: "queued_oneway p x B s" "TxnWork x \<in> set (p_todo P)"
  shows "if pre \<noteq> [] \<and> b_free (last pre) then release_proc_todo p (TxnWork x # ws) s = None
    else \<exists>s2 P2. release_proc_todo p (TxnWork x # ws) s = release_proc_todo p ws s2 \<and> procs s2 p = Some P2 \<and>
      p_buffers P2 = pre @ merge_next (buffer_release B) post \<and> p_todo P2 = remove1 (TxnWork x) (p_todo P) \<and>
      txns s2 = (txns s)(x := None)"
proof -
  obtain X where X: "txns s x = Some X" "x_work X = \<lparr>w_queue = Some (ProcTodo p), w_type = BINDER_WORK_TRANSACTION\<rparr>"
      "x_buffer X = Some (p, b_id B)" "x_from X = None" "x_to_thread X = None" and B: "\<not> b_free B" "b_offsets_size B = 0"
    using x(1) by (auto simp: queued_oneway_def split: option.splits)
  let ?P = "p_todo_update (remove1 (TxnWork x)) P"
  let ?X = "x_work_update (w_queue_update (\<lambda>_. None)) X"
  obtain s1 where s1: "binder_dequeue_work (TxnWork x) s = Some s1" "procs s1 p = Some ?P" "txns s1 = (txns s)(x \<mapsto> ?X)"
    using P X x(2) by (simp add: binder_dequeue_work_def get_work_def get_queue_def upd_queue_def upd_work_def upd_defs)
  have P1: "p_buffers ?P = pre @ B # post" "distinct (map b_id (p_buffers ?P))" "p_todo ?P = remove1 (TxnWork x) (p_todo P)"
    using P(2,3) by simp_all
  obtain s' P' where s': "binder_buffer_free p (b_id B) s1 = Some s'" "txns s' = txns s1" "procs s' p = Some P'"
      "p_todo P' = remove1 (TxnWork x) (p_todo P)" "p_buffers P' = merge_prev pre (merge_next (buffer_release B) post)"
      "get_buffer p (b_id B) s' = None \<longleftrightarrow> pre \<noteq> [] \<and> b_free (last pre)"
    using buffer_freed_gone [OF s1(2) P1(1) B(1) P1(2)] unfolding P1(3) by (elim exE conjE) (rule that)
  have ids: "b_id b \<noteq> b_id B" if "b \<in> set pre \<union> set post" for b using P(2,3) that by (force simp: image_iff)
  then have "get_buffer p (b_id B) s1 = Some B"
    using s1(2) P(2) by (simp add: get_buffer_def find_split_find split_find_at)
  then have "binder_transaction_buffer_release p (Some (b_id B)) s1 = Some s1"
    using B(2) by (simp add: binder_transaction_buffer_release_def split: option.splits)
  then have "drop_buffer p (Some (p, b_id B)) s1 = Some s'" using s'(1) by (simp add: drop_buffer_def)
  then have step: "release_proc_todo p (TxnWork x # ws) s = binder_free_transaction (Some x) s' \<bind> release_proc_todo p ws"
    using s1 X by (simp add: get_work_def fail_sender_def)
  have free: "binder_free_transaction (Some x) s' =
      map_option (\<lambda>s. s\<lparr>txns := (txns s)(x := None), stat_transactions := stat_transactions s - 1\<rparr>)
        (upd_buffer p (b_id B) (b_transaction_update (\<lambda>_. None)) s')"
    using s'(2) s1(3) X by (simp add: binder_free_transaction_def binder_dequeue_work_def get_work_def pop_stack_def
        map_conv_bind_option comp_def)
  show ?thesis
  proof (cases "pre \<noteq> [] \<and> b_free (last pre)")
    case True
    then show ?thesis using step free s'(6) by (simp add: upd_buffer_def)
  next
    case False
    have bs: "p_buffers P' = pre @ merge_next (buffer_release B) post"
      using False s'(5) by (auto simp: merge_prev_def merge_next_def split: list.splits)
    have "map (\<lambda>b. if b_id b = b_id B then b_transaction_update (\<lambda>_. None) b else b) (p_buffers P') = p_buffers P'"
      using ids by (intro map_idI) (auto simp: bs merge_next_def buffer_release_def split: list.splits if_splits)
    then have "p_buffers_update (map (\<lambda>b. if b_id b = b_id B then b_transaction_update (\<lambda>_. None) b else b)) P' = P'"
      by (cases P') simp
    moreover obtain B' where "get_buffer p (b_id B) s' = Some B'" using False s'(6) by auto
    ultimately have "upd_buffer p (b_id B) (b_transaction_update (\<lambda>_. None)) s' = Some (s'\<lparr>procs := (procs s')(p \<mapsto> P')\<rparr>)"
      using s'(3) by (simp add: upd_buffer_def upd_proc_def)
    then show ?thesis using False step free bs s'(2,4) s1(3) by auto
  qed
qed

text \<open>C40: closing a process can write to freed memory. When a process that has no objects and no handles left and is not
  the context manager is closed while its queue starts with two one-way transactions without objects whose buffers lie
  side by side in its arena, the second behind the first, the close has no defined behaviour: freeing the first
  leaves a free buffer before the second, so freeing the second's buffer merges it away, and freeing the
  second transaction writes into the descriptor that is gone.\<close>

theorem close_use_after_free:
  assumes "arena_inv p s" and P: "procs s p = Some P" and "p_nodes P = []" and "p_refs P = []"
    and mgr: "\<And>c m. p_context P = Some c \<Longrightarrow> c_mgr_node (contexts s c) = Some m \<Longrightarrow>
      \<exists>N. nodes s m = Some N \<and> n_proc N \<noteq> Some p"
    and todo: "p_todo P = TxnWork y # TxnWork x # ws" and "y \<noteq> x"
    and bufs: "p_buffers P = pre @ A # B # post" and "queued_oneway p y A s" and "queued_oneway p x B s"
  shows "binder_proc_release p s = None"
proof -
  let ?P = "P\<lparr>p_is_dead := True\<rparr>"
  let ?s = "s\<lparr>procs := (procs s)(p \<mapsto> ?P)\<rparr>"
  have ids: "distinct (map b_id (pre @ A # B # post))"
    using assms(1) P bufs by (auto simp: arena_inv_def proc_arena_ok_def arena_ok_def split: if_splits)
  have q: "queued_oneway p y A ?s" "queued_oneway p x B ?s" using assms(9,10) by (simp_all add: queued_oneway_def)
  have "release_proc_todo p (p_todo P) ?s = None"
  proof (cases "pre \<noteq> [] \<and> b_free (last pre)")
    case True
    then show ?thesis using close_step [of ?s p ?P pre A "B # post" y "TxnWork x # ws"] bufs ids q todo by simp
  next
    case False
    then obtain s2 P2 where s2: "release_proc_todo p (p_todo P) ?s = release_proc_todo p (TxnWork x # ws) s2"
        "procs s2 p = Some P2" "p_buffers P2 = pre @ merge_next (buffer_release A) (B # post)"
        "TxnWork x \<in> set (p_todo P2)" "txns s2 x = txns s x"
      using close_step [of ?s p ?P pre A "B # post" y "TxnWork x # ws"] bufs ids q(1) todo \<open>y \<noteq> x\<close> by auto
    have b2: "p_buffers P2 = (pre @ [buffer_release A]) @ B # post"
      using s2(3) q(2) by (simp add: merge_next_def queued_oneway_def)
    have "distinct (map b_id (p_buffers P2))" using ids unfolding b2 by (simp add: buffer_release_def)
    moreover have "queued_oneway p x B s2" using assms(10) s2(5) by (simp add: queued_oneway_def)
    ultimately show ?thesis
      using close_step [OF s2(2) b2, of x ws] s2(1,4) by (simp add: buffer_release_def)
  qed
  moreover have "release_mgr p ?s = Some ?s"
    using mgr by (fastforce simp: release_mgr_def split: option.splits)
  ultimately show ?thesis using P assms(3,4) by (simp add: binder_proc_release_def upd_proc_def)
qed


text \<open>Two queued transactions side by side, and nothing else.\<close>

definition close_example :: binder_state where
  "close_example = initial_state\<lparr>
     procs := Map.empty(1 \<mapsto> fresh_proc\<lparr>p_arena_addr := 0x10000, p_arena_size := 0x20000, p_todo := [TxnWork 8, TxnWork 9],
       p_buffers := [(new_buffer 2)\<lparr>b_size := 64, b_data_size := 64\<rparr>,
         (new_buffer 3)\<lparr>b_offset := 64, b_size := 64, b_data_size := 64\<rparr>,
         (new_buffer 4)\<lparr>b_offset := 128, b_size := 0x20000 - 128, b_free := True\<rparr>]\<rparr>),
     txns := Map.empty(
       8 \<mapsto> new_transaction\<lparr>x_work := \<lparr>w_queue = Some (ProcTodo 1), w_type = BINDER_WORK_TRANSACTION\<rparr>, x_buffer := Some (1, 2)\<rparr>,
       9 \<mapsto> new_transaction\<lparr>x_work := \<lparr>w_queue = Some (ProcTodo 1), w_type = BINDER_WORK_TRANSACTION\<rparr>, x_buffer := Some (1, 3)\<rparr>),
     clock := 10\<rparr>"

lemma close_example_inv: "arena_inv 1 close_example"
  by (auto simp: arena_inv_def close_example_def proc_arena_ok_def arena_ok_def coalesced_def
      new_buffer_def buffer_fits_def buffer_need_def BINDER_ALIGN_def BINDER_MSL_ARENA_MAX_def fresh_proc_def initial_state_def)

theorem close_use_after_free_witness: "binder_proc_release 1 close_example = None"
  by (rule close_use_after_free [OF close_example_inv, where P = "the (procs close_example 1)" and y = 8 and x = 9 and ws = "[]"
        and pre = "[]" and A = "(new_buffer 2)\<lparr>b_size := 64, b_data_size := 64\<rparr>"
        and B = "(new_buffer 3)\<lparr>b_offset := 64, b_size := 64, b_data_size := 64\<rparr>"
        and post = "[(new_buffer 4)\<lparr>b_offset := 128, b_size := 0x20000 - 128, b_free := True\<rparr>]"])
    (simp_all add: close_example_def initial_state_def fresh_proc_def new_buffer_def new_transaction_def queued_oneway_def empty_context_def)

end
