(* ===== verification/Binder_Loops.thy ===== *)
theory Binder_Loops
  imports Binder_RW
begin

text \<open>
  The loops of \<open>BINDER_WRITE_READ\<close> (\<^verbatim>\<open>kext/binder_proc.c\<close>): the write loop ends, and the read
  loop stays inside the read buffer if the client's count starts inside it.
\<close>

section \<open>The write loop ends\<close>

lemma command_sizes:
  "struct_size binder_ptr_cookie_layout = 16" "struct_size binder_transaction_data_layout = 64"
  "struct_size binder_transaction_data_sg_layout = 72" "packed_size binder_handle_cookie_layout = 12"
  by (simp_all add: layout_defs)

lemma write_cmd_len_bound: "write_cmd_len cmd = Some len \<Longrightarrow> unat len \<le> 72"
  by (auto simp: write_cmd_len_def command_sizes split: if_splits)

lemma write_cmd_progress:
  assumes "write_cmd K p t buffer consumed s = Some (e, c, s')"
  shows "\<exists>k. c = consumed + k \<and> unat k \<le> 76 \<and> (e = OK \<longrightarrow> 4 \<le> unat k)"
proof (cases "copyin K (clock s) (buffer + consumed) 4")
  case None
  then show ?thesis using assms
    by (auto simp: write_cmd_def binder_get_user_def binder_copyin_def intro: exI [of _ 0])
next
  case (Some bs)
  show ?thesis
  proof (cases "write_cmd_len (get_u32 0 bs)")
    case None
    then show ?thesis using assms Some
      by (auto simp: write_cmd_def binder_get_user_def binder_copyin_def Let_def intro!: exI [of _ 4])
  next
    case len: (Some len)
    note b = write_cmd_len_bound [OF len]
    have u: "unat (4 + len) = 4 + unat len" using b by (subst unat_add_lem [THEN iffD1]) auto
    have "c = consumed + 4 \<or> c = consumed + (4 + len)"
      using assms Some len
      by (auto simp: write_cmd_def binder_get_user_def binder_copyin_def Let_def bind_eq_Some_conv add.assoc
          split: if_splits option.splits)
    then show ?thesis using b u by (auto intro: exI [of _ 4] exI [of _ "4 + len"])
  qed
qed

inductive write_step :: "kpi \<Rightarrow> addr \<Rightarrow> addr \<Rightarrow> u64 \<Rightarrow> u64 \<Rightarrow> u64 \<times> binder_state \<Rightarrow> u64 \<times> binder_state \<Rightarrow> bool"
  for K p t buffer sz where
  "consumed + 4 \<le> sz \<Longrightarrow> write_cmd K p t buffer consumed s = Some (OK, c, s') \<Longrightarrow>
    write_step K p t buffer sz (consumed, s) (c, s')"

lemma write_loop_ends:
  assumes "unat sz < 2 ^ 64 - 80" and "unat consumed \<le> unat sz + 72"
    and "\<forall>c s'. (write_step K p t buffer sz)\<^sup>*\<^sup>* (consumed, s) (c, s') \<longrightarrow> c + 4 \<le> sz \<longrightarrow> write_cmd K p t buffer c s' \<noteq> None"
  shows "\<exists>e c s'. binder_thread_write K p t buffer sz consumed s = Some (e, c, s') \<and> consumed \<le> c \<and>
    unat c \<le> unat sz + 72 \<and> (e = OK \<longrightarrow> sz < c + 4)"
  using assms(2,3)
proof (induction "unat sz + 80 - unat consumed" arbitrary: consumed s rule: less_induct)
  case less
  show ?case
  proof (cases "consumed + 4 \<le> sz")
    case False
    then have "binder_thread_write K p t buffer sz consumed s = Some (OK, consumed, s)"
      by (subst binder_thread_write.simps) simp
    then show ?thesis using less.prems(1) False by (simp add: not_le)
  next
    case True
    obtain e c s' where w: "write_cmd K p t buffer consumed s = Some (e, c, s')"
      using less.prems(2) True by (metis not_None_eq prod_cases3 rtranclp.rtrancl_refl)
    obtain k where k: "c = consumed + k" "unat k \<le> 76" "e = OK \<longrightarrow> 4 \<le> unat k"
      using write_cmd_progress [OF w] by blast
    have "unat (consumed + 4) = unat consumed + 4"
      using assms(1) less.prems(1) by (subst unat_add_lem [THEN iffD1]) auto
    then have lt: "unat consumed + 4 \<le> unat sz" using True by (simp add: word_le_nat_alt)
    have c: "unat c = unat consumed + unat k"
      unfolding k(1) using assms(1) lt k(2) by (subst unat_add_lem [THEN iffD1]) auto
    show ?thesis
    proof (cases "e = OK")
      case False
      then have "binder_thread_write K p t buffer sz consumed s = Some (e, c, s')"
        using True w by (subst binder_thread_write.simps) simp
      then show ?thesis using False c lt k(2) by (simp add: word_le_nat_alt)
    next
      case e: True
      have step: "write_step K p t buffer sz (consumed, s) (c, s')" using True w e by (auto intro: write_step.intros)
      have "\<exists>e d s''. binder_thread_write K p t buffer sz c s' = Some (e, d, s'') \<and> c \<le> d \<and>
          unat d \<le> unat sz + 72 \<and> (e = OK \<longrightarrow> sz < d + 4)"
      proof (rule less.hyps)
        show "unat sz + 80 - unat c < unat sz + 80 - unat consumed" using c k(3) e lt by simp
        show "unat c \<le> unat sz + 72" using c lt k(2) by simp
        show "\<forall>d s''. (write_step K p t buffer sz)\<^sup>*\<^sup>* (c, s') (d, s'') \<longrightarrow> d + 4 \<le> sz \<longrightarrow> write_cmd K p t buffer d s'' \<noteq> None"
          using less.prems(2) step by (meson converse_rtranclp_into_rtranclp)
      qed
      then obtain e' d s'' where r: "binder_thread_write K p t buffer sz c s' = Some (e', d, s'')" "c \<le> d"
          "unat d \<le> unat sz + 72" "e' = OK \<longrightarrow> sz < d + 4" by blast
      have "binder_thread_write K p t buffer sz consumed s = binder_thread_write K p t buffer sz c s'"
        using True w e by (subst binder_thread_write.simps) simp
      moreover have "consumed \<le> c" using c by (simp add: word_le_nat_alt)
      ultimately show ?thesis using r order_trans [of consumed c d] by simp
    qed
  qed
qed

text \<open>C14: the write loop ends. For every write buffer that does not reach the last bytes of the address space, and
  wherever the client's own count starts in it, the loop returns, unless a single command on the way is
  undefined. It has then gone forward by at most the length of one command past the end, and
  it stops without an error only when no whole command word is left.\<close>

theorem write_loop_returns:
  assumes "unat sz < 2 ^ 64 - 80" and "consumed \<le> sz"
    and "\<forall>c s'. (write_step K p t buffer sz)\<^sup>*\<^sup>* (consumed, s) (c, s') \<longrightarrow> c + 4 \<le> sz \<longrightarrow> write_cmd K p t buffer c s' \<noteq> None"
  shows "\<exists>e c s'. binder_thread_write K p t buffer sz consumed s = Some (e, c, s') \<and> consumed \<le> c \<and>
    unat c \<le> unat sz + 72 \<and> (e = OK \<longrightarrow> sz < c + 4)"
  by (rule write_loop_ends [OF assms(1) _ assms(3)]) (use assms(2) in \<open>simp add: word_le_nat_alt\<close>)

text \<open>A client that enters the looper twice.\<close>

definition looper_kpi :: kpi where
  "looper_kpi = quiet_kpi\<lparr>copyin := (\<lambda>_ _ _. Some (word_le 4 BC_ENTER_LOOPER))\<rparr>"

definition looper_example :: binder_state where
  "looper_example = initial_state\<lparr>threads := Map.empty(5 \<mapsto> new_thread)\<rparr>"

lemma looper_cmd:
  assumes "threads s 5 \<noteq> None"
  shows "\<exists>s'. write_cmd looper_kpi 1 5 buffer c s = Some (OK, c + 4, s') \<and> threads s' 5 \<noteq> None"
proof -
  have "get_u32 0 (word_le 4 BC_ENTER_LOOPER) = BC_ENTER_LOOPER" by (simp add: get_u32_def get_bytes_def)
  then show ?thesis
    using assms by (auto simp: write_cmd_def looper_kpi_def quiet_kpi_def binder_get_user_def binder_copyin_def
        write_cmd_len_def write_cmd_run_def is_looper_cmd_def write_looper_def upd_thread_def abi_defs Let_def)
qed

theorem write_loop_returns_witness:
  "\<exists>e c s'. binder_thread_write looper_kpi 1 5 0 8 0 looper_example = Some (e, c, s') \<and> (e = OK \<longrightarrow> 8 < c + 4)"
proof -
  have "threads (snd y) 5 \<noteq> None" if "(write_step looper_kpi 1 5 0 8)\<^sup>*\<^sup>* x y" "threads (snd x) 5 \<noteq> None" for x y
    using that
  proof (induction rule: rtranclp_induct)
    case (step y z)
    then obtain c s d s' where y: "y = (c, s)" "z = (d, s')" "write_cmd looper_kpi 1 5 0 c s = Some (OK, d, s')" "threads s 5 \<noteq> None"
      by (auto simp: write_step.simps)
    then show ?case using looper_cmd [OF y(4), of 0 c] by auto
  qed
  then have "\<forall>c s'. (write_step looper_kpi 1 5 0 8)\<^sup>*\<^sup>* (0, looper_example) (c, s') \<longrightarrow> c + 4 \<le> 8 \<longrightarrow>
      write_cmd looper_kpi 1 5 0 c s' \<noteq> None"
    using looper_cmd by (fastforce simp: looper_example_def)
  from write_loop_returns [OF _ _ this] show ?thesis by auto
qed

section \<open>The read loop stays inside the read buffer\<close>

lemma room:
  fixes consumed sz k :: u64
  assumes "consumed \<le> sz" and "\<not> sz - consumed < k"
  shows "consumed \<le> consumed + k" "consumed + k \<le> sz"
proof -
  have "unat k \<le> unat sz - unat consumed"
    using assms by (simp add: word_less_nat_alt word_le_nat_alt unat_sub_if')
  moreover have lt: "unat sz < 2 ^ 64" using unsigned_less [of sz] by simp
  ultimately have "unat (consumed + k) = unat consumed + unat k"
    using assms(1) lt by (subst unat_add_lem [THEN iffD1]) (auto simp: word_le_nat_alt)
  then show "consumed \<le> consumed + k" "consumed + k \<le> sz"
    using \<open>unat k \<le> unat sz - unat consumed\<close> assms(1) by (simp_all add: word_le_nat_alt)
qed

lemma put_cmd_bound:
  assumes "consumed \<le> sz" and "binder_put_cmd K buffer sz consumed cmd s = (e, c, s')"
  shows "consumed \<le> c \<and> c \<le> sz"
  using assms room [of consumed sz 4]
  by (auto simp: binder_put_cmd_def binder_copyout_def split: if_splits)

lemma put_cmd_data_bound:
  assumes "consumed \<le> sz" and "binder_put_cmd_data K buffer sz consumed cmd bs s = (e, c, s')"
  shows "consumed \<le> c \<and> c \<le> sz"
  using assms room [of consumed sz "4 + of_nat (length bs)"]
  by (auto simp: binder_put_cmd_data_def binder_copyout_def Let_def split: if_splits)

lemma emit_news_bound:
  "consumed \<le> sz \<Longrightarrow> emit_news K n buffer sz pc cmds consumed s = Some (e, c, s') \<Longrightarrow> consumed \<le> c \<and> c \<le> sz"
proof (induction cmds arbitrary: consumed s)
  case (Cons cmd cmds)
  obtain s1 where s1: "upd_node n (record_news cmd) s = Some s1" using Cons.prems(2) by (auto simp: bind_eq_Some_conv)
  obtain e2 c2 s2 where p: "binder_put_cmd_data K buffer sz consumed cmd pc s1 = (e2, c2, s2)" by (metis prod_cases3)
  note b = put_cmd_data_bound [OF Cons.prems(1) p]
  show ?case
  proof (cases "e2 = OK")
    case False
    then show ?thesis using Cons.prems(2) s1 p b by simp
  next
    case True
    then obtain s3 where "emit_news K n buffer sz pc cmds c2 s3 = Some (e, c, s')"
      using Cons.prems(2) s1 p by (auto simp: bind_eq_Some_conv split: if_splits)
    then show ?thesis using Cons.IH [OF conjunct2 [OF b]] b by (meson order_trans)
  qed
qed simp

lemma put_delivery_bound:
  assumes "consumed \<le> sz" and "put_delivery K buffer sz consumed cmd tr s = (e, c, s')"
  shows "consumed \<le> c \<and> c \<le> sz"
proof (cases "cmd = BR_TRANSACTION_SEC_CTX")
  case False
  then have "binder_put_cmd_data K buffer sz consumed cmd (transaction_data_bytes tr) s = (e, c, s')"
    using assms(2) by (simp add: put_delivery_def)
  from put_cmd_data_bound [OF assms(1) this] show ?thesis .
next
  case True
  define bs where "bs = transaction_data_bytes tr @ word_le 8 (buffer + consumed + 4 +
    of_nat (struct_size binder_transaction_data_secctx_layout))"
  obtain e1 c1 s1 where p: "binder_put_cmd_data K buffer sz consumed cmd bs s = (e1, c1, s1)" by (metis prod_cases3)
  note b = put_cmd_data_bound [OF assms(1) p]
  have "c = c1 \<or> c = c1 + of_nat (length secctx_str) \<and> \<not> sz - c1 < of_nat (length secctx_str)"
    using assms(2) True p unfolding put_delivery_def bs_def
    by (auto simp: Let_def binder_copyout_def split: if_splits)
  then show ?thesis
  proof
    assume "c = c1"
    then show ?thesis using b by simp
  next
    assume c: "c = c1 + of_nat (length secctx_str) \<and> \<not> sz - c1 < of_nat (length secctx_str)"
    from room [OF conjunct2 [OF b] conjunct2 [OF c]] show ?thesis using b c order_trans [of consumed c1 c] by simp
  qed
qed

text \<open>A step of the read half that may be undefined, and that otherwise leaves the count between two bounds.\<close>

definition within :: "u64 \<Rightarrow> u64 \<Rightarrow> (errno \<times> u64 \<times> binder_state) option \<Rightarrow> bool" where
  "within lo hi r \<longleftrightarrow> (\<forall>e c s. r = Some (e, c, s) \<longrightarrow> lo \<le> c \<and> c \<le> hi)"

lemma within_bind: "(\<And>x. m = Some x \<Longrightarrow> within lo hi (f x)) \<Longrightarrow> within lo hi (m \<bind> f)"
  by (auto simp: within_def bind_eq_Some_conv)

lemma within_simps [simp]: "within lo hi None" "within lo hi (Some (e, c, s)) \<longleftrightarrow> lo \<le> c \<and> c \<le> hi"
  by (auto simp: within_def)

lemma within_put_cmd:
  assumes "lo \<le> sz" and "\<And>e c s'. lo \<le> c \<Longrightarrow> c \<le> sz \<Longrightarrow> within lo sz (f e c s')"
  shows "within lo sz (case binder_put_cmd K buffer sz lo cmd s of (e, c, s') \<Rightarrow> f e c s')"
proof -
  obtain e c s' where p: "binder_put_cmd K buffer sz lo cmd s = (e, c, s')" by (metis prod_cases3)
  show ?thesis using assms(2) put_cmd_bound [OF assms(1) p] p by simp
qed

lemma within_put_cmd_data:
  assumes "lo \<le> sz" and "\<And>e c s'. lo \<le> c \<Longrightarrow> c \<le> sz \<Longrightarrow> within lo sz (f e c s')"
  shows "within lo sz (case binder_put_cmd_data K buffer sz lo cmd bs s of (e, c, s') \<Rightarrow> f e c s')"
proof -
  obtain e c s' where p: "binder_put_cmd_data K buffer sz lo cmd bs s = (e, c, s')" by (metis prod_cases3)
  show ?thesis using assms(2) put_cmd_data_bound [OF assms(1) p] p by simp
qed

lemma within_put_delivery:
  assumes "lo \<le> sz" and "\<And>e c s'. lo \<le> c \<Longrightarrow> c \<le> sz \<Longrightarrow> within lo sz (f e c s')"
  shows "within lo sz (case put_delivery K buffer sz lo cmd tr s of (e, c, s') \<Rightarrow> f e c s')"
proof -
  obtain e c s' where p: "put_delivery K buffer sz lo cmd tr s = (e, c, s')" by (metis prod_cases3)
  show ?thesis using assms(2) put_delivery_bound [OF assms(1) p] p by simp
qed

lemma within_cases:
  "(\<And>y. v = Some y \<Longrightarrow> within lo hi (g y)) \<Longrightarrow> within lo hi n \<Longrightarrow> within lo hi (case v of None \<Rightarrow> n | Some y \<Rightarrow> g y)"
  "(b \<Longrightarrow> within lo hi x) \<Longrightarrow> (\<not> b \<Longrightarrow> within lo hi y) \<Longrightarrow> within lo hi (if b then x else y)"
  "(\<And>a b. q = (a, b) \<Longrightarrow> within lo hi (h a b)) \<Longrightarrow> within lo hi (case q of (a, b) \<Rightarrow> h a b)"
  "(b \<Longrightarrow> within lo hi x) \<Longrightarrow> (\<not> b \<Longrightarrow> within lo hi y) \<Longrightarrow> within lo hi (case b of True \<Rightarrow> x | False \<Rightarrow> y)"
  by (auto split: option.split prod.split bool.split)

lemmas within_rules = within_put_delivery within_put_cmd_data within_put_cmd within_bind within_cases

lemma read_transaction_bound:
  assumes "consumed \<le> sz"
  shows "within consumed sz (binder_read_transaction K p t x buffer sz consumed s)"
  unfolding binder_read_transaction_def Let_def
  by (intro within_rules assms; simp add: assms)

lemma read_node_bound:
  assumes "consumed \<le> sz"
  shows "within consumed sz (binder_read_node_work K n buffer sz consumed s)"
  unfolding binder_read_node_work_def Let_def
  by (intro within_rules) (use assms emit_news_bound [OF assms] in \<open>auto simp: within_def\<close>)

lemma read_error_bound:
  assumes "consumed \<le> sz"
  shows "within consumed sz (read_error K w buffer sz consumed s)"
  by (cases w) (auto simp: read_error_def intro!: within_rules assms dest: put_cmd_bound [OF assms])

lemma read_death_bound:
  assumes "consumed \<le> sz"
  shows "within consumed sz (read_death K t d buffer sz consumed s)"
  unfolding read_death_def Let_def
  by (intro within_rules assms; simp add: assms)

lemma read_item_bound:
  assumes "consumed \<le> sz"
  shows "within consumed sz (read_item K p t w buffer sz consumed s)"
proof (unfold read_item_def, rule within_bind)
  fix W
  show "within consumed sz (case w_type W of
        BINDER_WORK_TRANSACTION \<Rightarrow>
          (case w of TxnWork x \<Rightarrow> binder_read_transaction K p t x buffer sz consumed s | _ \<Rightarrow> None)
      | BINDER_WORK_TRANSACTION_COMPLETE \<Rightarrow>
          (case binder_put_cmd K buffer sz consumed BR_TRANSACTION_COMPLETE s of (e, consumed, s) \<Rightarrow>
             if e \<noteq> OK then Some (e, consumed, s)
             else (case w of
                 CompleteWork c \<Rightarrow> Some (OK, consumed, s\<lparr>completes := (completes s)(c := None)\<rparr>)
               | _ \<Rightarrow> None))
      | BINDER_WORK_RETURN_ERROR \<Rightarrow> read_error K w buffer sz consumed s
      | BINDER_WORK_NODE \<Rightarrow>
          (case w of NodeWork n \<Rightarrow> binder_read_node_work K n buffer sz consumed s | _ \<Rightarrow> None)
      | BINDER_WORK_NONE \<Rightarrow> Some (OK, consumed, s)
      | _ \<Rightarrow>
          (case w of DeathWork d \<Rightarrow> read_death K t d buffer sz consumed s | _ \<Rightarrow> None))"
    using read_transaction_bound [OF assms] read_node_bound [OF assms] read_error_bound [OF assms] read_death_bound [OF assms]
    by (cases "w_type W"; cases w) (auto intro!: within_rules assms dest: put_cmd_bound [OF assms])
qed

definition outcome_consumed :: "read_outcome \<Rightarrow> u64" where
  "outcome_consumed out = (case out of Read_Done e c \<Rightarrow> c | Read_Blocked ch c \<Rightarrow> c)"

lemma spawn_looper_bound:
  assumes "consumed \<le> sz" and "spawn_looper K p t from_proc buffer sz consumed s = Some (c, s')"
  shows "consumed \<le> c \<and> c \<le> sz"
proof -
  consider "c = consumed" | s1 where "snd (binder_put_cmd K buffer sz consumed BR_SPAWN_LOOPER s1) = (c, s')"
    using assms(2) by (auto simp: spawn_looper_def bind_eq_Some_conv case_prod_beta split: if_splits)
  then show ?thesis
  proof cases
    case 1
    then show ?thesis using assms(1) by simp
  next
    case (2 s1)
    then obtain e where "binder_put_cmd K buffer sz consumed BR_SPAWN_LOOPER s1 = (e, c, s')" by (metis prod.collapse)
    from put_cmd_bound [OF assms(1) this] show ?thesis .
  qed
qed

lemma read_round_bound:
  assumes "consumed \<le> sz" and "read_round K p t buffer sz non_block wrote consumed s = Some (r, c, s')"
  shows "consumed \<le> c \<and> c \<le> sz" "r = Some out \<Longrightarrow> outcome_consumed out = c"
proof -
  obtain T sel s1 where r: "threads s t = Some T" "read_select p t s = Some (sel, s1)"
    using assms(2) by (auto simp: read_round_def bind_eq_Some_conv)
  have both: "(consumed \<le> c \<and> c \<le> sz) \<and> (r = Some out \<longrightarrow> outcome_consumed out = c)" for out
  proof (cases sel)
    case None
    then show ?thesis
      using assms r by (auto simp: read_round_def read_sleep_def outcome_consumed_def bind_eq_Some_conv split: if_splits)
  next
    case (Some wf)
    obtain w f where wf: "wf = (w, f)" by (cases wf)
    obtain e c1 s2 where i: "read_item K p t w buffer sz consumed s1 = Some (e, c1, s2)"
      using assms(2) r Some wf by (auto simp: read_round_def bind_eq_Some_conv)
    have c1: "consumed \<le> c1 \<and> c1 \<le> sz" using read_item_bound [OF assms(1), of K p t w buffer s1] i by simp
    show ?thesis
    proof (cases "e = OK")
      case False
      then show ?thesis
        using assms(2) r Some wf i c1
        by (auto simp: read_round_def outcome_consumed_def bind_eq_Some_conv split: if_splits)
    next
      case True
      then obtain c2 s3 where sp: "spawn_looper K p t f buffer sz c1 s2 = Some (c2, s3)"
          "c = c2" "r = None \<or> r = Some (Read_Done OK c2)"
        using assms(2) r Some wf i by (auto simp: read_round_def bind_eq_Some_conv split: if_splits)
      have "c1 \<le> c2 \<and> c2 \<le> sz" by (rule spawn_looper_bound [OF conjunct2 [OF c1] sp(1)])
      then show ?thesis using c1 sp(2,3) order_trans [of consumed c1 c2] by (auto simp: outcome_consumed_def)
    qed
  qed
  then show "consumed \<le> c \<and> c \<le> sz" "r = Some out \<Longrightarrow> outcome_consumed out = c" by blast+
qed

lemma read_loop_bound:
  assumes "read_loop K p t buffer sz non_block wrote consumed s = Some (out, s')" and "consumed \<le> sz"
  shows "consumed \<le> outcome_consumed out \<and> outcome_consumed out \<le> sz"
proof -
  let ?P = "\<lambda>K p t buffer sz non_block wrote consumed s r. consumed \<le> sz \<longrightarrow>
    consumed \<le> outcome_consumed (fst r) \<and> outcome_consumed (fst r) \<le> sz"
  have "?P K p t buffer sz non_block wrote consumed s (out, s')"
  proof (rule read_loop.raw_induct [of ?P, OF _ assms(1)])
    fix loop K p t buffer sz non_block wrote consumed s r
    assume IH: "\<And>K p t buffer sz non_block wrote consumed s r.
        loop K p t buffer sz non_block wrote consumed s = Some r \<Longrightarrow> ?P K p t buffer sz non_block wrote consumed s r"
      and body: "(do { r \<leftarrow> read_round K p t buffer sz non_block wrote consumed s;
        (case fst r of Some out \<Rightarrow> Some (out, snd (snd r))
         | None \<Rightarrow> loop K p t buffer sz non_block True (fst (snd r)) (snd (snd r))) }) = Some r"
    from body obtain o1 c s1 where rd: "read_round K p t buffer sz non_block wrote consumed s = Some (o1, c, s1)"
        "(case o1 of Some out \<Rightarrow> Some (out, s1) | None \<Rightarrow> loop K p t buffer sz non_block True c s1) = Some r"
      by (auto simp: bind_eq_Some_conv split: option.splits)
    show "?P K p t buffer sz non_block wrote consumed s r"
    proof
      assume le: "consumed \<le> sz"
      note b = read_round_bound [OF le rd(1)]
      show "consumed \<le> outcome_consumed (fst r) \<and> outcome_consumed (fst r) \<le> sz"
      proof (cases o1)
        case None
        then have "c \<le> outcome_consumed (fst r) \<and> outcome_consumed (fst r) \<le> sz"
          using IH [of K p t buffer sz non_block True c s1 r] rd(2) b(1) by simp
        then show ?thesis using b(1) order_trans [of consumed c "outcome_consumed (fst r)"] by simp
      next
        case (Some out)
        then show ?thesis using rd(2) b by auto
      qed
    qed
  qed
  then show ?thesis using assms(2) by simp
qed

definition read_example :: binder_state where
  "read_example = initial_state\<lparr>procs := Map.empty(1 \<mapsto> fresh_proc), threads := Map.empty(5 \<mapsto> new_thread)\<rparr>"

text \<open>C13: the read half never claims more than the client's buffer, when the client starts it with a count not above
  the buffer's size. Whatever the queues hold, whether the read ends, fails or goes to sleep,
  the count it leaves is then at least the one it started with and at most the size of the
  buffer; the same after it is woken.\<close>

theorem read_within_buffer:
  assumes "consumed \<le> sz"
  shows "(binder_thread_read K p t buffer sz consumed non_block s = Some (out, s') \<longrightarrow>
      consumed \<le> outcome_consumed out \<and> outcome_consumed out \<le> sz) \<and>
    (binder_read_wakeup K p t buffer sz non_block ch consumed ret s = Some (out, s') \<longrightarrow>
      consumed \<le> outcome_consumed out \<and> outcome_consumed out \<le> sz)"
proof (rule conjI; rule impI)
  assume r: "binder_thread_read K p t buffer sz consumed non_block s = Some (out, s')"
  show "consumed \<le> outcome_consumed out \<and> outcome_consumed out \<le> sz"
  proof (cases "consumed = 0")
    case False
    then show ?thesis using r read_loop_bound [OF _ assms] by (simp add: binder_thread_read_def)
  next
    case True
    obtain e c s1 where p: "binder_put_cmd K buffer sz 0 BR_NOOP s = (e, c, s1)" by (metis prod_cases3)
    have c: "c \<le> sz" using put_cmd_bound [OF _ p] by simp
    show ?thesis
      using r True p c read_loop_bound [OF _ c]
      by (auto simp: binder_thread_read_def outcome_consumed_def split: if_splits)
  qed
next
  assume "binder_read_wakeup K p t buffer sz non_block ch consumed ret s = Some (out, s')"
  then show "consumed \<le> outcome_consumed out \<and> outcome_consumed out \<le> sz"
    using read_loop_bound [OF _ assms] assms
    by (auto simp: binder_read_wakeup_def outcome_consumed_def bind_eq_Some_conv split: if_splits)
qed

theorem read_within_buffer_witness:
  "\<exists>out s'. binder_thread_read quiet_kpi 1 5 0 64 0 True read_example = Some (out, s') \<and>
    0 \<le> outcome_consumed out \<and> outcome_consumed out \<le> 64"
proof -
  have "\<exists>out s'. binder_thread_read quiet_kpi 1 5 0 64 0 True read_example = Some (out, s')"
    by (simp add: read_example_def initial_state_def binder_thread_read_def binder_put_cmd_def binder_copyout_def quiet_kpi_def
        read_loop.simps read_round_def read_select_def new_thread_def fresh_proc_def binder_thread_takes_proc_work_def)
  then obtain out s' where r: "binder_thread_read quiet_kpi 1 5 0 64 0 True read_example = Some (out, s')" by blast
  have "(0 :: u64) \<le> 64" by simp
  from conjunct1 [OF read_within_buffer [OF this], rule_format, OF r] r show ?thesis by blast
qed

text \<open>The driver does not check that the client's count is not above the size. If it is, the difference of the two wraps
  around, the room left looks large, and the command is written behind the end of the buffer.\<close>

lemma put_cmd_past_buffer:
  assumes "sz < consumed" and "unat consumed + 4 \<le> 2 ^ 64 + unat sz" and "copyout_ok K (clock s) (buffer + consumed) (word_le 4 cmd)"
  shows "\<exists>s'. binder_put_cmd K buffer sz consumed cmd s = (OK, consumed + 4, s') \<and>
    CopyOut (buffer + consumed) (word_le 4 cmd) \<in> set (trace s')"
proof -
  have "unat (sz - consumed) = 2 ^ 64 + unat sz - unat consumed"
    using assms(1) by (simp add: unat_sub_if' word_less_nat_alt)
  then have "\<not> sz - consumed < 4" using assms(2) by (simp add: word_less_nat_alt)
  then show ?thesis using assms(3) by (simp add: binder_put_cmd_def binder_copyout_def)
qed

end
