(* ===== verification/Binder_Oneway.thy ===== *)
theory Binder_Oneway
  imports Binder_RW Binder_Graph
begin

text \<open>
  Asynchronous transactions (the one-way branch of \<^verbatim>\<open>binder_transaction\<close> in \<^verbatim>\<open>kext/binder_txn.c\<close> and
  the end of \<^verbatim>\<open>binder_write_free_buffer\<close> in \<^verbatim>\<open>kext/binder_proc.c\<close>): an object has at most one of
  them on its way at a time, the others wait behind it, and they are let through in the order they were sent.

  The contract is the locale \<open>oneway_channel\<close>: what sending and freeing do to what has been let through and
  what waits. It is interpreted on \<open>txn_enqueue\<close> and \<open>async_next\<close>.
\<close>

section \<open>The contract\<close>

datatype 'x oneway_op = Send 'x | Free

fun oneway_run :: "('x \<Rightarrow> 's \<Rightarrow> 's option) \<Rightarrow> ('s \<Rightarrow> 's option) \<Rightarrow> 'x oneway_op list \<Rightarrow> 's \<Rightarrow> 's option" where
  "oneway_run send advance [] s = Some s"
| "oneway_run send advance (Send x # ops) s = do { s \<leftarrow> send x s; oneway_run send advance ops s }"
| "oneway_run send advance (Free # ops) s = do { s \<leftarrow> advance s; oneway_run send advance ops s }"

fun sends :: "'x oneway_op list \<Rightarrow> 'x list" where
  "sends [] = []"
| "sends (Send x # ops) = x # sends ops"
| "sends (Free # ops) = sends ops"

fun frees :: "'x oneway_op list \<Rightarrow> nat" where
  "frees [] = 0"
| "frees (Send x # ops) = frees ops"
| "frees (Free # ops) = Suc (frees ops)"

text \<open>The channel itself: whether something is on its way, what waits, and what has been let through. A send waits
  behind what is on its way; a free lets the oldest waiting one through, or leaves the channel idle.\<close>

fun oneway_spec :: "('x \<Rightarrow> 'w) \<Rightarrow> 'x oneway_op list \<Rightarrow> bool \<times> 'w list \<times> 'w list \<Rightarrow> bool \<times> 'w list \<times> 'w list" where
  "oneway_spec item [] c = c"
| "oneway_spec item (Send x # ops) (b, ws, ps) =
     oneway_spec item ops (if b then (True, ws @ [item x], ps) else (True, ws, ps @ [item x]))"
| "oneway_spec item (Free # ops) (b, ws, ps) =
     oneway_spec item ops (if b \<and> ws \<noteq> [] then (True, tl ws, ps @ [hd ws]) else (False, ws, ps))"

lemma spec_in_order:
  assumes "oneway_spec item ops (b, ws, ps) = (b', ws', ps')" and "\<not> b \<Longrightarrow> ws = []"
  shows "\<exists>new. ps' = ps @ new \<and> new @ ws' = ws @ map item (sends ops) \<and> length new + of_bool b \<le> frees ops + of_bool b'"
  using assms
proof (induction item ops "(b, ws, ps)" arbitrary: b ws ps rule: oneway_spec.induct)
  case (2 item x ops b ws ps)
  show ?case
  proof (cases b)
    case True
    then show ?thesis using "2.hyps" "2.prems" by fastforce
  next
    case False
    then obtain new where "ps' = (ps @ [item x]) @ new" "new @ ws' = ws @ map item (sends ops)"
        "length new + of_bool True \<le> frees ops + of_bool b'" "ws = []"
      using "2.hyps" [of True ws "ps @ [item x]"] "2.prems" by auto
    then show ?thesis using False by (intro exI [of _ "item x # new"]) simp
  qed
next
  case (3 item ops b ws ps)
  show ?case
  proof (cases "b \<and> ws \<noteq> []")
    case True
    then obtain new where "ps' = (ps @ [hd ws]) @ new" "new @ ws' = tl ws @ map item (sends ops)"
        "length new + of_bool True \<le> frees ops + of_bool b'"
      using "3.hyps" [of True "tl ws" "ps @ [hd ws]"] "3.prems" by auto
    then show ?thesis using True by (intro exI [of _ "hd ws # new"]) simp
  next
    case False
    then obtain new where "ps' = ps @ new" "new @ ws' = ws @ map item (sends ops)" "length new \<le> frees ops + of_bool b'"
      using "3.hyps" [of False ws ps] "3.prems" by auto
    then show ?thesis by (intro exI [of _ new]) (simp add: le_SucI trans_le_add1)
  qed
qed simp

locale oneway_channel =
  fixes send :: "'x \<Rightarrow> 's \<Rightarrow> 's option"
    and advance :: "'s \<Rightarrow> 's option"
    and busy :: "'s \<Rightarrow> bool"
    and waiting :: "'s \<Rightarrow> 'w list"
    and passed :: "'s \<Rightarrow> 'w list"
    and unsent :: "'s \<Rightarrow> 'x \<Rightarrow> bool"
    and item :: "'x \<Rightarrow> 'w"
    and wf :: "'s \<Rightarrow> bool"
  assumes send_ok: "wf s \<Longrightarrow> unsent s x \<Longrightarrow> \<exists>s'. send x s = Some s' \<and> wf s' \<and> busy s' \<and>
      (\<forall>y. y \<noteq> x \<longrightarrow> unsent s y \<longrightarrow> unsent s' y) \<and>
      (if busy s then waiting s' = waiting s @ [item x] \<and> passed s' = passed s
       else waiting s' = waiting s \<and> passed s' = passed s @ [item x])"
    and advance_ok: "wf s \<Longrightarrow> \<exists>s'. advance s = Some s' \<and> wf s' \<and> (\<forall>y. unsent s y \<longrightarrow> unsent s' y) \<and>
      (if busy s
       then (case waiting s of
           [] \<Rightarrow> \<not> busy s' \<and> waiting s' = [] \<and> passed s' = passed s
         | w # ws \<Rightarrow> busy s' \<and> waiting s' = ws \<and> passed s' = passed s @ [w])
       else \<not> busy s' \<and> waiting s' = waiting s \<and> passed s' = passed s)"
    and idle_empty: "wf s \<Longrightarrow> \<not> busy s \<Longrightarrow> waiting s = []"
begin

lemma run_ok:
  assumes "wf s" and "\<forall>x \<in> set (sends ops). unsent s x" and "distinct (sends ops)"
  shows "\<exists>s'. oneway_run send advance ops s = Some s' \<and> wf s' \<and>
    (busy s', waiting s', passed s') = oneway_spec item ops (busy s, waiting s, passed s)"
  using assms
proof (induction ops arbitrary: s)
  case Nil
  then show ?case by simp
next
  case (Cons oper ops)
  show ?case
  proof (cases oper)
    case (Send x)
    have u: "unsent s x" using Cons.prems(2) Send by simp
    obtain s1 where s1: "send x s = Some s1" "wf s1" "busy s1" "\<forall>y. y \<noteq> x \<longrightarrow> unsent s y \<longrightarrow> unsent s1 y"
        "if busy s then waiting s1 = waiting s @ [item x] \<and> passed s1 = passed s
         else waiting s1 = waiting s \<and> passed s1 = passed s @ [item x]"
      using send_ok [OF Cons.prems(1) u] by blast
    have "\<forall>y \<in> set (sends ops). unsent s1 y" "distinct (sends ops)" using Cons.prems(2,3) Send s1(4) by auto
    from Cons.IH [OF s1(2) this] show ?thesis using Send s1 by (auto split: if_splits)
  next
    case Free
    obtain s1 where s1: "advance s = Some s1" "wf s1" "\<forall>y. unsent s y \<longrightarrow> unsent s1 y"
        "if busy s then (case waiting s of [] \<Rightarrow> \<not> busy s1 \<and> waiting s1 = [] \<and> passed s1 = passed s
           | w # ws \<Rightarrow> busy s1 \<and> waiting s1 = ws \<and> passed s1 = passed s @ [w])
         else \<not> busy s1 \<and> waiting s1 = waiting s \<and> passed s1 = passed s"
      using advance_ok [OF Cons.prems(1)] by blast
    have "\<forall>y \<in> set (sends ops). unsent s1 y" "distinct (sends ops)" using Cons.prems(2,3) Free s1(3) by auto
    from Cons.IH [OF s1(2) this] show ?thesis using Free s1 by (cases "waiting s") (auto split: if_splits)
  qed
qed

end

section \<open>The driver as such a channel\<close>

text \<open>The completion of a transaction is allocated right after it, so it has the next address.\<close>

definition oneway_send :: "addr \<Rightarrow> addr \<Rightarrow> addr \<Rightarrow> addr \<Rightarrow> binder_state \<Rightarrow> binder_state option" where
  "oneway_send t p n x s = txn_enqueue t \<lparr>g_in_reply_to = None, g_proc = p, g_thread = None, g_node = Some n,
     g_oneway = True\<rparr> False x (Suc x) s"

definition oneway_busy :: "addr \<Rightarrow> binder_state \<Rightarrow> bool" where
  "oneway_busy n s = (case nodes s n of None \<Rightarrow> False | Some N \<Rightarrow> n_has_async_transaction N)"

definition oneway_waiting :: "addr \<Rightarrow> binder_state \<Rightarrow> work_ptr list" where
  "oneway_waiting n s = (case nodes s n of None \<Rightarrow> [] | Some N \<Rightarrow> n_async_todo N)"

definition proc_queue :: "addr \<Rightarrow> binder_state \<Rightarrow> work_ptr list" where
  "proc_queue p s = (case procs s p of None \<Rightarrow> [] | Some P \<Rightarrow> p_todo P)"

definition oneway_wf :: "addr \<Rightarrow> addr \<Rightarrow> addr \<Rightarrow> binder_state \<Rightarrow> bool" where
  "oneway_wf t p n s \<longleftrightarrow> queues_ok s \<and> procs s p \<noteq> None \<and> threads s t \<noteq> None \<and> nodes s n \<noteq> None \<and>
     (\<not> oneway_busy n s \<longrightarrow> oneway_waiting n s = [])"

definition oneway_unsent :: "binder_state \<Rightarrow> addr \<Rightarrow> bool" where
  "oneway_unsent s x \<longleftrightarrow> place s (TxnWork x) = Some None \<and> place s (CompleteWork (Suc x)) = Some None"

lemma queue_views:
  "nodes s n \<noteq> None \<Longrightarrow> items s (AsyncTodo n) = Some (oneway_waiting n s)"
  "procs s p \<noteq> None \<Longrightarrow> items s (ProcTodo p) = Some (proc_queue p s)"
  by (auto simp: items_def get_queue_def oneway_waiting_def proc_queue_def)

lemma busy_core:
  assumes "core s' = core s"
  shows "oneway_busy n s' = oneway_busy n s"
proof (cases "nodes s' n")
  case None
  then have "nodes s n = None" using core_dom(2) [OF assms] by blast
  then show ?thesis using None by (simp add: oneway_busy_def)
next
  case (Some N')
  then obtain N where N: "nodes s n = Some N" "node_core N' = node_core N" using core_nodeD [OF assms] by blast
  from node_coreD(14) [OF N(2)] show ?thesis using N(1) Some by (simp add: oneway_busy_def)
qed

lemma same_actors:
  assumes "core s' = core s"
  shows "procs s p \<noteq> None \<Longrightarrow> procs s' p \<noteq> None" "threads s t \<noteq> None \<Longrightarrow> threads s' t \<noteq> None"
    "nodes s n \<noteq> None \<Longrightarrow> nodes s' n \<noteq> None"
  by (simp_all add: core_dom [OF assms])

lemma wakeup_quiet:
  assumes "procs s p \<noteq> None"
  shows "\<exists>s'. binder_wakeup_proc p s = Some s' \<and> items s' = items s \<and> place s' = place s \<and> core s' = core s"
proof -
  obtain P where P: "procs s p = Some P" using assms by blast
  obtain s' where s': "binder_wakeup_proc p s = Some s'"
    using P by (cases "p_sel_recorded P")
      (auto simp: binder_wakeup_proc_def binder_wake_def binder_sel_wakeup_def emit_def upd_proc_def)
  have "get_queue q s' = get_queue q s" "get_work w s' = get_work w s" for q w
    using s' P by (cases q; cases w; auto simp: binder_wakeup_proc_def binder_wake_def binder_sel_wakeup_def emit_def
        upd_proc_def get_queue_def get_work_def split: if_splits)+
  then show ?thesis using s' core_wakeup_proc [OF s'] by (auto simp: items_def place_def fun_eq_iff)
qed

text \<open>Putting an unqueued item at the tail of a queue, and telling the process.\<close>

lemma hand_to_process:
  assumes "queues_ok s" and "place s w = Some None" and "procs s p \<noteq> None"
  shows "\<exists>s1 s2. binder_enqueue_work p w s = Some s1 \<and> binder_wakeup_proc p s1 = Some s2 \<and> queues_ok s2 \<and> core s2 = core s \<and>
    items s2 = (items s)(ProcTodo p := Some (proc_queue p s @ [w])) \<and> place s2 = (place s)(w := Some (Some (ProcTodo p)))"
proof -
  obtain s1 where s1: "binder_enqueue_work p w s = Some s1" "queues_ok s1"
      "items s1 = (items s)(ProcTodo p := Some (proc_queue p s @ [w]))" "place s1 = (place s)(w := Some (Some (ProcTodo p)))"
    using todo.enq_new [OF assms(1,2) queue_views(2) [OF assms(3)]] by (auto simp: binder_enqueue_work_def)
  have c: "core s1 = core s" using s1(1) core_insert by (auto simp: binder_enqueue_work_def)
  obtain s2 where s2: "binder_wakeup_proc p s1 = Some s2" "items s2 = items s1" "place s2 = place s1" "core s2 = core s1"
    using wakeup_quiet [OF same_actors(1) [OF c assms(3)]] by blast
  have "queues_ok s2" using s1(2) s2(2,3) by (simp add: queues_ok_def)
  then show ?thesis using s1 s2 c by auto
qed

lemma finish_send:
  assumes "queues_ok s" and "place s (CompleteWork c) = Some None" and "threads s t \<noteq> None"
  shows "\<exists>s' ws. binder_enqueue_thread_work t (CompleteWork c) s = Some s' \<and> queues_ok s' \<and> core s' = core s \<and>
    items s' = (items s)(ThreadTodo t := Some ws) \<and>
    place s' = (place s)(CompleteWork c := Some (Some (ThreadTodo t)))"
proof -
  obtain T where T: "threads s t = Some T" using assms(3) by blast
  then have "items s (ThreadTodo t) = Some (t_todo T)" by (simp add: items_def get_queue_def)
  from todo.enq_new [OF assms(1,2) this] T core_insert show ?thesis by (auto simp: binder_enqueue_thread_work_def)
qed

text \<open>Where \<open>txn_enqueue\<close> puts an asynchronous transaction.\<close>

definition oneway_place :: "addr \<Rightarrow> addr \<Rightarrow> addr \<Rightarrow> binder_state \<Rightarrow> binder_state option" where
  "oneway_place p n x s = do {
     N \<leftarrow> nodes s n;
     if n_has_async_transaction N then do {
       s \<leftarrow> upd_queue (AsyncTodo n) (\<lambda>ws. ws @ [TxnWork x]) s;
       upd_work (TxnWork x) (w_queue_update (\<lambda>_. Some (AsyncTodo n))) s }
     else do {
       s \<leftarrow> upd_node n (n_has_async_transaction_update (\<lambda>_. True)) s;
       s \<leftarrow> binder_enqueue_work p (TxnWork x) s;
       binder_wakeup_proc p s } }"

lemma oneway_send_eq:
  "oneway_send t p n x s = do { s \<leftarrow> oneway_place p n x s; binder_enqueue_thread_work t (CompleteWork (Suc x)) s }"
  by (simp add: oneway_send_def txn_enqueue_def oneway_place_def cong: if_cong)

lemma place_behind:
  assumes wf: "oneway_wf t p n s" and x: "place s (TxnWork x) = Some None" and b: "oneway_busy n s"
  shows "\<exists>s1. oneway_place p n x s = Some s1 \<and> queues_ok s1 \<and> core s1 = core s \<and>
    items s1 = (items s)(AsyncTodo n := Some (oneway_waiting n s @ [TxnWork x])) \<and>
    place s1 = (place s)(TxnWork x := Some (Some (AsyncTodo n)))"
proof -
  note w = wf [unfolded oneway_wf_def]
  obtain N where N: "nodes s n = Some N" "n_has_async_transaction N"
    using b by (auto simp: oneway_busy_def split: option.splits)
  obtain s1 where s1: "binder_queue_insert (AsyncTodo n) (TxnWork x) False s = Some s1" "queues_ok s1"
      "items s1 = (items s)(AsyncTodo n := Some (oneway_waiting n s @ [TxnWork x]))"
      "place s1 = (place s)(TxnWork x := Some (Some (AsyncTodo n)))"
    using todo.enq_new [of s "TxnWork x" "AsyncTodo n"] w x queue_views(1) [of s n] by auto
  have "oneway_place p n x s = Some s1" using s1(1) x N by (auto simp: oneway_place_def binder_queue_insert_def place_def)
  then show ?thesis using s1 core_insert by blast
qed

lemma place_first:
  assumes wf: "oneway_wf t p n s" and x: "place s (TxnWork x) = Some None" and b: "\<not> oneway_busy n s"
  shows "\<exists>s1 N. oneway_place p n x s = Some s1 \<and> queues_ok s1 \<and> nodes s n = Some N \<and>
    core s1 = core (s\<lparr>nodes := (nodes s)(n \<mapsto> N\<lparr>n_has_async_transaction := True\<rparr>)\<rparr>) \<and>
    items s1 = (items s)(ProcTodo p := Some (proc_queue p s @ [TxnWork x])) \<and>
    place s1 = (place s)(TxnWork x := Some (Some (ProcTodo p)))"
proof -
  note w = wf [unfolded oneway_wf_def]
  obtain N where N: "nodes s n = Some N" "\<not> n_has_async_transaction N" using b w by (auto simp: oneway_busy_def)
  let ?N = "N\<lparr>n_has_async_transaction := True\<rparr>"
  let ?s = "s\<lparr>nodes := (nodes s)(n \<mapsto> ?N)\<rparr>"
  have fr: "items ?s = items s" "place ?s = place s" using work_frame_node [OF N(1), of ?N] by simp_all
  have q: "queues_ok ?s" "place ?s (TxnWork x) = Some None" "procs ?s p \<noteq> None"
    using w x fr by (simp_all add: queues_ok_def)
  obtain s1 s2 where h: "binder_enqueue_work p (TxnWork x) ?s = Some s1" "binder_wakeup_proc p s1 = Some s2" "queues_ok s2"
      "core s2 = core ?s" "items s2 = (items ?s)(ProcTodo p := Some (proc_queue p ?s @ [TxnWork x]))"
      "place s2 = (place ?s)(TxnWork x := Some (Some (ProcTodo p)))"
    using hand_to_process [OF q] by blast
  have "proc_queue p ?s = proc_queue p s" by (simp add: proc_queue_def)
  then show ?thesis using N h fr by (simp add: oneway_place_def upd_node_def)
qed

lemma oneway_place_ok:
  assumes wf: "oneway_wf t p n s" and x: "place s (TxnWork x) = Some None"
  defines "q \<equiv> if oneway_busy n s then AsyncTodo n else ProcTodo p"
    and "ws \<equiv> if oneway_busy n s then oneway_waiting n s else proc_queue p s"
  shows "\<exists>s1. oneway_place p n x s = Some s1 \<and> queues_ok s1 \<and> oneway_busy n s1 \<and>
    procs s1 p \<noteq> None \<and> threads s1 t \<noteq> None \<and> nodes s1 n \<noteq> None \<and>
    items s1 = (items s)(q := Some (ws @ [TxnWork x])) \<and> place s1 = (place s)(TxnWork x := Some (Some q))"
proof (cases "oneway_busy n s")
  case True
  obtain s1 where s1: "oneway_place p n x s = Some s1" "queues_ok s1" "core s1 = core s"
      "items s1 = (items s)(AsyncTodo n := Some (oneway_waiting n s @ [TxnWork x]))"
      "place s1 = (place s)(TxnWork x := Some (Some (AsyncTodo n)))"
    using place_behind [OF wf x True] by blast
  then show ?thesis
    using True same_actors [OF s1(3)] busy_core [OF s1(3), of n] wf by (simp add: oneway_wf_def q_def ws_def)
next
  case False
  obtain s1 N where s1: "oneway_place p n x s = Some s1" "queues_ok s1" "nodes s n = Some N"
      "core s1 = core (s\<lparr>nodes := (nodes s)(n \<mapsto> N\<lparr>n_has_async_transaction := True\<rparr>)\<rparr>)"
      "items s1 = (items s)(ProcTodo p := Some (proc_queue p s @ [TxnWork x]))"
      "place s1 = (place s)(TxnWork x := Some (Some (ProcTodo p)))"
    using place_first [OF wf x False] by blast
  have "oneway_busy n s1" using busy_core [OF s1(4), of n] by (simp add: oneway_busy_def)
  then show ?thesis
    using False same_actors [OF s1(4)] wf s1(1,2,5,6) by (simp add: oneway_wf_def q_def ws_def)
qed

lemma oneway_send_ok:
  assumes wf: "oneway_wf t p n s" and x: "oneway_unsent s x"
  shows "\<exists>s'. oneway_send t p n x s = Some s' \<and> oneway_wf t p n s' \<and> oneway_busy n s' \<and>
    (\<forall>y. y \<noteq> x \<longrightarrow> oneway_unsent s y \<longrightarrow> oneway_unsent s' y) \<and>
    (if oneway_busy n s then oneway_waiting n s' = oneway_waiting n s @ [TxnWork x] \<and> proc_queue p s' = proc_queue p s
     else oneway_waiting n s' = oneway_waiting n s \<and> proc_queue p s' = proc_queue p s @ [TxnWork x])"
proof -
  note w = wf [unfolded oneway_wf_def]
  let ?q = "if oneway_busy n s then AsyncTodo n else ProcTodo p"
  let ?ws = "if oneway_busy n s then oneway_waiting n s else proc_queue p s"
  obtain s1 where s1: "oneway_place p n x s = Some s1" "queues_ok s1" "oneway_busy n s1"
      "procs s1 p \<noteq> None" "threads s1 t \<noteq> None" "nodes s1 n \<noteq> None"
      "items s1 = (items s)(?q := Some (?ws @ [TxnWork x]))" "place s1 = (place s)(TxnWork x := Some (Some ?q))"
    using oneway_place_ok [OF wf, of x] x by (auto simp: oneway_unsent_def)
  have "place s1 (CompleteWork (Suc x)) = Some None" using x s1(8) by (simp add: oneway_unsent_def)
  from finish_send [OF s1(2) this s1(5)] obtain s' us where s': "binder_enqueue_thread_work t (CompleteWork (Suc x)) s1 = Some s'"
      "queues_ok s'" "core s' = core s1" "items s' = (items s1)(ThreadTodo t := Some us)"
      "place s' = (place s1)(CompleteWork (Suc x) := Some (Some (ThreadTodo t)))" by blast
  note a' = same_actors(1) [OF s'(3) s1(4)] same_actors(2) [OF s'(3) s1(5)] same_actors(3) [OF s'(3) s1(6)]
  have b': "oneway_busy n s'" using busy_core [OF s'(3)] s1(3) by simp
  note v = queue_views(1) [OF a'(3)] queue_views(2) [OF a'(1)]
  have v0: "items s (AsyncTodo n) = Some (oneway_waiting n s)" "items s (ProcTodo p) = Some (proc_queue p s)"
    using w queue_views by simp_all
  have "if oneway_busy n s then oneway_waiting n s' = oneway_waiting n s @ [TxnWork x] \<and> proc_queue p s' = proc_queue p s
     else oneway_waiting n s' = oneway_waiting n s \<and> proc_queue p s' = proc_queue p s @ [TxnWork x]"
    using v v0 s'(4) s1(7) by (auto split: if_splits)
  moreover have "oneway_send t p n x s = Some s'" using s1(1) s'(1) by (simp add: oneway_send_eq)
  moreover have "oneway_unsent s' y" if "y \<noteq> x" "oneway_unsent s y" for y
    using that s'(5) s1(8) by (auto simp: oneway_unsent_def)
  ultimately show ?thesis using s'(2) b' a' by (auto simp: oneway_wf_def)
qed

lemma async_next_waiting:
  assumes wf: "oneway_wf t p n s" and b: "oneway_busy n s" and v: "oneway_waiting n s = v # vs"
  shows "\<exists>s'. async_next p (Some n) s = Some s' \<and> queues_ok s' \<and> core s' = core s \<and>
    items s' = (items s)(AsyncTodo n := Some vs, ProcTodo p := Some (proc_queue p s @ [v])) \<and>
    place s' = (place s)(v := Some (Some (ProcTodo p)))"
proof -
  note w = wf [unfolded oneway_wf_def]
  obtain N where N: "nodes s n = Some N" "n_has_async_transaction N" "n_async_todo N = v # vs"
    using b v by (auto simp: oneway_busy_def oneway_waiting_def split: option.splits)
  have it: "items s (AsyncTodo n) = Some (v # vs)" "procs s p \<noteq> None" "queues_ok s" using w v queue_views(1) [of s n] by auto
  have pl: "place s v = Some (Some (AsyncTodo n))" using queues_okD(2) [OF it(3,1)] by simp
  obtain s1 where s1: "binder_dequeue_work v s = Some s1" "queues_ok s1" "items s1 = (items s)(AsyncTodo n := Some vs)"
      "place s1 = (place s)(v := Some None)"
    using todo.deq_queued [OF it(3) pl] it(1) by auto
  note c1 = core_dequeue [OF s1(1)]
  have p1: "procs s1 p \<noteq> None" using same_actors(1) [OF c1 it(2)] .
  have pq: "proc_queue p s1 = proc_queue p s"
    using queue_views(2) [OF p1] queue_views(2) [OF it(2)] s1(3) by simp
  have "place s1 v = Some None" by (simp add: s1(4))
  from hand_to_process [OF s1(2) this p1] obtain s2 s3 where s3: "binder_enqueue_work p v s1 = Some s2"
      "binder_wakeup_proc p s2 = Some s3" "queues_ok s3" "core s3 = core s1"
      "items s3 = (items s1)(ProcTodo p := Some (proc_queue p s1 @ [v]))" "place s3 = (place s1)(v := Some (Some (ProcTodo p)))"
    by blast
  then show ?thesis using N s1 c1 pq by (simp add: async_next_def)
qed

lemma oneway_next_ok:
  assumes wf: "oneway_wf t p n s"
  shows "\<exists>s'. async_next p (Some n) s = Some s' \<and> oneway_wf t p n s' \<and> (\<forall>y. oneway_unsent s y \<longrightarrow> oneway_unsent s' y) \<and>
    (if oneway_busy n s
     then (case oneway_waiting n s of
         [] \<Rightarrow> \<not> oneway_busy n s' \<and> oneway_waiting n s' = [] \<and> proc_queue p s' = proc_queue p s
       | w # ws \<Rightarrow> oneway_busy n s' \<and> oneway_waiting n s' = ws \<and> proc_queue p s' = proc_queue p s @ [w])
     else \<not> oneway_busy n s' \<and> oneway_waiting n s' = oneway_waiting n s \<and> proc_queue p s' = proc_queue p s)"
proof -
  note w = wf [unfolded oneway_wf_def]
  obtain N where N: "nodes s n = Some N" using w by blast
  consider "\<not> oneway_busy n s" | "oneway_busy n s" "oneway_waiting n s = []" | v vs where "oneway_busy n s" "oneway_waiting n s = v # vs"
    by (cases "oneway_waiting n s") auto
  then show ?thesis
  proof cases
    case 1
    then show ?thesis using N wf by (simp add: async_next_def oneway_busy_def)
  next
    case 2
    let ?N = "N\<lparr>n_has_async_transaction := False\<rparr>"
    have fr: "items (s\<lparr>nodes := (nodes s)(n \<mapsto> ?N)\<rparr>) = items s" "place (s\<lparr>nodes := (nodes s)(n \<mapsto> ?N)\<rparr>) = place s"
      using work_frame_node [OF N, of ?N] by simp_all
    then show ?thesis
      using 2 N w by (auto simp: async_next_def upd_node_def oneway_busy_def oneway_waiting_def proc_queue_def oneway_wf_def
          oneway_unsent_def queues_ok_def)
  next
    case (3 v vs)
    obtain s' where s': "async_next p (Some n) s = Some s'" "queues_ok s'" "core s' = core s"
        "items s' = (items s)(AsyncTodo n := Some vs, ProcTodo p := Some (proc_queue p s @ [v]))"
        "place s' = (place s)(v := Some (Some (ProcTodo p)))"
      using async_next_waiting [OF wf 3] by blast
    have a: "procs s' p \<noteq> None" "threads s' t \<noteq> None" "nodes s' n \<noteq> None" using same_actors [OF s'(3)] w by auto
    have b: "oneway_busy n s'" using busy_core [OF s'(3)] 3(1) by simp
    have "items s (AsyncTodo n) = Some (v # vs)" using queue_views(1) [of s n] w 3(2) by simp
    then have "place s v = Some (Some (AsyncTodo n))" using queues_okD(2) [of s] w by simp
    then have "\<forall>y. oneway_unsent s y \<longrightarrow> oneway_unsent s' y" using s'(5) by (auto simp: oneway_unsent_def)
    moreover have "oneway_waiting n s' = vs" "proc_queue p s' = proc_queue p s @ [v]"
      using queue_views(1) [OF a(3)] queue_views(2) [OF a(1)] s'(4) by simp_all
    ultimately show ?thesis using s'(1,2) a b 3 by (simp add: oneway_wf_def)
  qed
qed

interpretation oneway: oneway_channel "oneway_send t p n" "async_next p (Some n)" "oneway_busy n" "oneway_waiting n"
  "proc_queue p" oneway_unsent TxnWork "oneway_wf t p n"
proof
  fix s x assume "oneway_wf t p n s" "oneway_unsent s x"
  then show "\<exists>s'. oneway_send t p n x s = Some s' \<and> oneway_wf t p n s' \<and> oneway_busy n s' \<and>
      (\<forall>y. y \<noteq> x \<longrightarrow> oneway_unsent s y \<longrightarrow> oneway_unsent s' y) \<and>
      (if oneway_busy n s then oneway_waiting n s' = oneway_waiting n s @ [TxnWork x] \<and> proc_queue p s' = proc_queue p s
       else oneway_waiting n s' = oneway_waiting n s \<and> proc_queue p s' = proc_queue p s @ [TxnWork x])"
    by (rule oneway_send_ok)
qed (rule oneway_next_ok, assumption, simp add: oneway_wf_def)

definition oneway_example :: binder_state where
  "oneway_example = initial_state\<lparr>procs := Map.empty(1 \<mapsto> fresh_proc\<lparr>p_nodes := [3]\<rparr>),
     threads := Map.empty(5 \<mapsto> new_thread), nodes := Map.empty(3 \<mapsto> new_node\<lparr>n_proc := Some 1\<rparr>),
     txns := Map.empty(10 \<mapsto> new_transaction, 12 \<mapsto> new_transaction),
     completes := Map.empty(11 \<mapsto> new_work, 13 \<mapsto> new_work)\<rparr>"

lemmas oneway_example_defs = oneway_example_def initial_state_def fresh_proc_def new_node_def new_thread_def new_work_def
  new_error_def new_transaction_def

lemma oneway_example_wf: "oneway_wf 5 1 3 oneway_example"
proof -
  have "queues_ok oneway_example"
    by (auto simp: queues_ok_def queues_ok_on_def held_def place_def items_def get_work_def get_queue_def oneway_example_defs
        split: work_ptr.splits work_head.splits if_splits)
  then show ?thesis by (simp add: oneway_wf_def oneway_busy_def oneway_waiting_def oneway_example_defs)
qed

text \<open>C8: asynchronous transactions to an object arrive one at a time and in order. Any interleaving of sends by a thread
  and of frees of the buffers they arrived in does to the object and its owner's queue what \<open>oneway_spec\<close> says: the first
  goes to the owner's queue, the next wait behind it, and each free lets exactly the oldest waiting one through.
  So what has been put on the owner's queue, followed by what still waits, is what was waiting before followed by
  what was sent, in the order it was sent; and no more has been put on the queue than was freed, plus one if nothing was on its way before.\<close>

theorem oneway_in_order:
  assumes "oneway_wf t p n s" and "\<forall>x \<in> set (sends ops). oneway_unsent s x" and "distinct (sends ops)"
  shows "\<exists>s' new. oneway_run (oneway_send t p n) (async_next p (Some n)) ops s = Some s' \<and>
    (oneway_busy n s', oneway_waiting n s', proc_queue p s') =
      oneway_spec TxnWork ops (oneway_busy n s, oneway_waiting n s, proc_queue p s) \<and>
    proc_queue p s' = proc_queue p s @ new \<and> new @ oneway_waiting n s' = oneway_waiting n s @ map TxnWork (sends ops) \<and>
    length new \<le> frees ops + (if oneway_busy n s then 0 else 1)"
proof -
  obtain s' where r: "oneway_run (oneway_send t p n) (async_next p (Some n)) ops s = Some s'"
      "(oneway_busy n s', oneway_waiting n s', proc_queue p s') =
        oneway_spec TxnWork ops (oneway_busy n s, oneway_waiting n s, proc_queue p s)"
    using oneway.run_ok [OF assms] by blast
  have "\<not> oneway_busy n s \<Longrightarrow> oneway_waiting n s = []" by (rule oneway.idle_empty [OF assms(1)])
  from spec_in_order [OF r(2) [symmetric] this] obtain new where
    new: "proc_queue p s' = proc_queue p s @ new" "new @ oneway_waiting n s' = oneway_waiting n s @ map TxnWork (sends ops)"
      "length new + of_bool (oneway_busy n s) \<le> frees ops + of_bool (oneway_busy n s')" by blast
  have "length new \<le> frees ops + (if oneway_busy n s then 0 else 1)"
    using new(3) by (cases "oneway_busy n s'") (auto split: if_splits)
  then show ?thesis using r new(1,2) by blast
qed

theorem oneway_in_order_witness:
  "\<exists>s'. oneway_run (oneway_send 5 1 3) (async_next 1 (Some 3)) [Send 10, Send 12, Free] oneway_example = Some s' \<and>
    proc_queue 1 s' = [TxnWork 10, TxnWork 12] \<and> oneway_waiting 3 s' = [] \<and> oneway_busy 3 s'"
proof -
  have "\<forall>x \<in> set (sends [Send 10, Send 12, Free]). oneway_unsent oneway_example x"
    by (simp add: oneway_unsent_def place_def get_work_def oneway_example_defs)
  from oneway_in_order [OF oneway_example_wf this] show ?thesis
    by (auto simp: proc_queue_def oneway_waiting_def oneway_busy_def oneway_example_defs)
qed

end
