(* ===== verification/Spec2Isabelle.thy ===== *)
theory Spec2Isabelle
  imports Binder_Reachable Binder_Manager Binder_Close Binder_Loops Binder_Oneway
begin

text \<open>
  A verification development for \<^verbatim>\<open>devfs\<close>, a macOS kernel extension with an Android binder driver.

  \<^bold>\<open>The program.\<close> Clients open \<^verbatim>\<open>/dev/binder\<close> and its siblings, register a piece of their own memory as an
  arena, and talk to the driver through one ioctl, \<^verbatim>\<open>BINDER_WRITE_READ\<close>. Its write half is a loop over
  commands: send a transaction or a reply, count a handle up or down, give a buffer back, ask to be told of a
  death. Its read half delivers what waits for the thread or its process, and sleeps when nothing does. A
  transaction's payload is copied into a buffer of the receiver's arena, and the objects and handles in it are
  translated, so that a process names another's object only by a handle it was given. One lock serialises all of it.

  \<^bold>\<open>The model.\<close> The state is one record, \<open>binder_state\<close>, with a map per kind of kernel object from addresses to
  records that have the fields of the C structs. An operation takes the state and returns an option: \<open>None\<close> stands
  for undefined behaviour (a freed or null object is used, an item is unlinked from a list it is not on, a counter
  overflows) or for a loop that does not end, and error numbers are ordinary results. Machine integers are words; the counters that are
  \<^verbatim>\<open>int\<close> in C are \<open>int\<close> with the overflow written out. The kernel's services are the parameter \<open>kpi\<close>: which
  allocations and copies succeed, what a copy from user memory reads, who calls. They are asked at a \<open>clock\<close> that advances with every call,
  so two calls need not agree, and the address of an allocation is the clock at which it was made: addresses
  are never reused, so a use after free is always seen. A sleep is a result of the read loop, and the wakeup
  is an operation of its own that continues it.

  \<^bold>\<open>Which theory models what.\<close> Files are under \<^verbatim>\<open>src/\<close>.
  \<^item> \<^verbatim>\<open>Binder_Prelude\<close>: types, counters, bytes, generic lemmas. \<^verbatim>\<open>Binder_ABI\<close>: \<^verbatim>\<open>include/fs/devfs/binder.h\<close> and the
    checks of \<^verbatim>\<open>tools/binder-abi-test.c\<close>. \<^verbatim>\<open>Binder_State\<close>: \<^verbatim>\<open>include/fs/devfs/binder_internal.h\<close>.
  \<^item> \<^verbatim>\<open>Binder_Alloc\<close>: \<^verbatim>\<open>kext/binder_alloc.c\<close>, the arena. Each buffer list is a list of records in address order.
  \<^item> \<^verbatim>\<open>Binder_Queue\<close>: the queues and wakeups of \<^verbatim>\<open>kext/binder_proc.c\<close>.
  \<^item> \<^verbatim>\<open>Binder_Node\<close>: \<^verbatim>\<open>kext/binder_node.c\<close>, with \<open>binder_free_transaction\<close>. \<^verbatim>\<open>Binder_Txn\<close>: \<^verbatim>\<open>kext/binder_txn.c\<close>.
  \<^item> \<^verbatim>\<open>Binder_Proc\<close> and \<^verbatim>\<open>Binder_RW\<close>: threads and processes, and the write and read loops, of \<^verbatim>\<open>kext/binder_proc.c\<close>.
  \<^item> \<^verbatim>\<open>Binder_Dev\<close>: \<^verbatim>\<open>kext/binder_dev.c\<close>. \<^verbatim>\<open>Devfs_Module\<close>: \<^verbatim>\<open>kext/android_dev.c\<close> and \<^verbatim>\<open>kext/devfs.c\<close>.

  A long C function is split into the definitions of its stages, in the order of the source
  (\<open>binder_transaction\<close> into target, payload, object walk, filling and queueing; \<open>binder_proc_release\<close> into its loops).

  \<^bold>\<open>What is shown.\<close>
  \<^item> The arena (\<^verbatim>\<open>Binder_Alloc\<close>): any run of allocations and frees is defined and leaves the live buffers
    disjoint and inside the arena; what registration, an allocation, a free and a lookup do, exactly; how the quota of asynchronous space drifts.
    The client's view is the locale \<open>arena_provider\<close>, interpreted on the driver's allocator.
  \<^item> Queues (\<^verbatim>\<open>Binder_Queue\<close>): an item is on at most one queue, and queues are served in order. The locale
    is \<open>work_queues\<close>, interpreted on the driver's queues.
  \<^item> Objects and handles (\<^verbatim>\<open>Binder_Graph\<close>, \<^verbatim>\<open>Binder_Handles\<close>, \<^verbatim>\<open>Binder_Commands\<close>, \<^verbatim>\<open>Binder_Owner\<close>, \<^verbatim>\<open>Binder_Objects\<close>,
    \<^verbatim>\<open>Binder_Manager\<close>): on a well-formed state every operation is defined and keeps it, the counts are exact, the commands
    refine a table of handles per process, the owner is told of every change, translation delivers the object that was sent. The
    number 0 is the exception to the uniqueness of handle numbers: \<open>second_handle_zero\<close> shows how a process gets two.
  \<^item> Payloads, loops and order (\<^verbatim>\<open>Binder_Parcel\<close>, \<^verbatim>\<open>Binder_Loops\<close>, \<^verbatim>\<open>Binder_Oneway\<close>): bounds of what is copied, the write loop
    ends, the read loop stays inside the client's buffer if the client's count starts inside it (\<open>put_cmd_past_buffer\<close> shows why that is
    needed), sends and frees of one-way transactions to an object refine an abstract channel and arrive in order (locale \<open>oneway_channel\<close>).
  \<^item> The end of a process (\<^verbatim>\<open>Binder_Teardown\<close>, \<^verbatim>\<open>Binder_Close\<close>): its part of the reference graph is given back, deaths are announced; which
    objects are never freed (\<open>orphan_leaks\<close>), and a class of closes that use freed memory (\<open>close_use_after_free\<close>).
  \<^item> Devices and module (\<^verbatim>\<open>Binder_Front\<close>, \<^verbatim>\<open>Devfs_Module\<close>): minors, names, select and where it disagrees with the
    read loop, load and unload, and what a failed load leaves behind.
  \<^item> The whole driver (\<^verbatim>\<open>Binder_Invariant\<close>, \<^verbatim>\<open>Binder_Keeps\<close>, \<^verbatim>\<open>Binder_Lifecycle\<close>, \<^verbatim>\<open>Binder_Reachable\<close>): one invariant over the
    graph, the handle numbers, the managers and all arenas is kept by every entry point, with any arguments and
    any failure of the kernel, whenever the entry point is defined; so it holds in every state a loaded driver can reach. The
    theorems below read it off. They say nothing about a run after its first undefined step; that such steps exist is shown in \<^verbatim>\<open>Binder_Close\<close>.

  \<^bold>\<open>Loops and bounds.\<close> Loops over a list are structural recursion, and the search for a free descriptor is a \<open>function\<close>
  whose termination is proved. The write loop, the read loop and the two walks over a stack of transactions
  are \<open>partial_function\<close>s without fuel, so no bound is assumed. That the write loop and the search for a target thread return is
  proved; the read loop may sleep, and its bound is that of the client's buffer. The page size is
  asked to be 4096 or 16384 where the registration of an arena depends on it (\<open>page_ok\<close>).

  \<^bold>\<open>Not modelled.\<close> \<^verbatim>\<open>binder_free_mem\<close> and \<^verbatim>\<open>binder_wait\<close> only call the kernel: a free is the removal of the object from its map, a
  sleep is the blocked outcome of the read loop. Interleaving is between entries, since the lock is held
  throughout one except in a sleep. Kernel messages are output only. \<^verbatim>\<open>tools/binder-probe.c\<close> is a client that
  exercises the driver through system calls and threads; \<^verbatim>\<open>include/\<close> beyond the two headers above holds the kernel's own declarations.
\<close>

section \<open>Every reachable state\<close>

text \<open>C1: memory safety of the running driver. In every state that a sequence of clones, opens, closes,
  ioctls, sleeps, wakeups and selects can reach from a successful load, with kernel services that may fail at any point:
  the live buffers of each process lie inside its arena and do not overlap; every handle belongs to an existing process that
  lists it and names an existing object that lists it; a process has at most one handle per object and no two with the same
  number, except 0; and each object's internal strong count is the number of handles that hold it
  strongly, and its owner, if it has one, exists and lists it.\<close>

theorem reachable_memory_safe:
  assumes "reachable (d, ws)"
  shows "(\<forall>p P. procs (drv d) p = Some P \<longrightarrow> (\<forall>B \<in> live_buffers P. extent B \<subseteq> {..< unat (p_arena_size P)} \<and>
      (\<forall>C \<in> live_buffers P. B \<noteq> C \<longrightarrow> extent B \<inter> extent C = {}))) \<and>
    (\<forall>r R. refs (drv d) r = Some R \<longrightarrow>
      (\<exists>P. procs (drv d) (r_proc R) = Some P \<and> r \<in> set (p_refs P)) \<and>
      (\<exists>n N. r_node R = Some n \<and> nodes (drv d) n = Some N \<and> r \<in> set (n_refs N))) \<and>
    (\<forall>r R r' R'. refs (drv d) r = Some R \<longrightarrow> refs (drv d) r' = Some R' \<longrightarrow> r_proc R = r_proc R' \<longrightarrow>
      r_node R = r_node R' \<or> r_desc R = r_desc R' \<and> r_desc R \<noteq> 0 \<longrightarrow> r = r') \<and>
    (\<forall>n N. nodes (drv d) n = Some N \<longrightarrow>
      n_internal_strong_refs N = int (card {r. \<exists>R. refs (drv d) r = Some R \<and> r_node R = Some n \<and> 0 < r_strong R}) \<and>
      (\<forall>p. n_proc N = Some p \<longrightarrow> (\<exists>P. procs (drv d) p = Some P \<and> n \<in> set (p_nodes P))))"
proof (intro conjI allI impI ballI)
  obtain A where A: "kernel_inv A (drv d)" using assms by (rule reachable_cases)
  note D = kernel_offD [OF A]
  {
    fix p P B assume P: "procs (drv d) p = Some P" and B: "B \<in> live_buffers P"
    have inv: "arena_inv p (drv d)" by (rule kernel_arena_inv [OF A P])
    have live: "arena_live p (drv d) = live_buffers P" "arena_cap p (drv d) = unat (p_arena_size P)"
      using P by (simp_all add: arena_live_def arena_cap_def)
    show "extent B \<subseteq> {..< unat (p_arena_size P)}" using arena_live_inside [OF inv] B live by simp
    show "extent B \<inter> extent C = {}" if "C \<in> live_buffers P" "B \<noteq> C" for C
      using arena_live_disjoint [OF inv, of B C] B that live by simp
  next
    fix r R assume R: "refs (drv d) r = Some R"
    obtain n N P where l: "r_node R = Some n" "nodes (drv d) n = Some N" "procs (drv d) (r_proc R) = Some P"
      using ref_links [OF A R] by metis
    have "r \<in> set (p_refs P)" "r \<in> set (n_refs N)"
      using graph_offD(1) [OF D(1) l(3)] graph_offD(2) [OF D(1) l(2)] R l(1)
      by (auto simp: proc_graph_ok_def node_graph_ok_def holder_of_def target_of_def)
    then show "\<exists>P. procs (drv d) (r_proc R) = Some P \<and> r \<in> set (p_refs P)"
      "\<exists>n N. r_node R = Some n \<and> nodes (drv d) n = Some N \<and> r \<in> set (n_refs N)"
      using l by auto
  next
    fix r R r' R'
    assume "refs (drv d) r = Some R" "refs (drv d) r' = Some R'" "r_proc R = r_proc R'"
      "r_node R = r_node R' \<or> r_desc R = r_desc R' \<and> r_desc R \<noteq> 0"
    then show "r = r'" using D(3) unfolding handles_ok_def by blast
  next
    fix n N assume N: "nodes (drv d) n = Some N"
    show "n_internal_strong_refs N = int (card {r. \<exists>R. refs (drv d) r = Some R \<and> r_node R = Some n \<and> 0 < r_strong R})"
      by (rule internal_refs_card [OF A N])
    show "\<exists>P. procs (drv d) p = Some P \<and> n \<in> set (p_nodes P)" if "n_proc N = Some p" for p
      using owner_exists [OF A, of n p] N that by (auto simp: owner_of_def)
  }
qed

theorem reachable_memory_safe_witness:
  "\<exists>d N. reachable (d, []) \<and> nodes (drv d) 9 = Some N \<and>
    n_internal_strong_refs N = int (card {r. \<exists>R. refs (drv d) r = Some R \<and> r_node R = Some 9 \<and> 0 < r_strong R})"
proof -
  obtain d where d: "reachable (d, [])" "nodes (drv d) 9 \<noteq> None" using run_example by blast
  then show ?thesis using reachable_memory_safe [OF d(1)] by blast
qed

text \<open>C5: minors, processes and managers agree. In every reachable state each minor in use belongs to an
  existing process of the minor's context, each process has exactly one minor, and the manager of a context, if there
  is one, is an existing object of a process that has that context open.\<close>

theorem reachable_minors:
  assumes "reachable (d, ws)"
  shows "(\<forall>i p. l_proc (g_slots d i) = Some p \<longrightarrow>
      (\<exists>P c. procs (drv d) p = Some P \<and> p_context P = Some c \<and> l_context (g_slots d i) = Some c \<and> l_opened (g_slots d i))) \<and>
    (\<forall>p P. procs (drv d) p = Some P \<longrightarrow> (\<exists>!i. l_proc (g_slots d i) = Some p)) \<and>
    (\<forall>c m. c_mgr_node (contexts (drv d) c) = Some m \<longrightarrow>
      (\<exists>N p i. nodes (drv d) m = Some N \<and> n_proc N = Some p \<and> l_proc (g_slots d i) = Some p \<and> l_context (g_slots d i) = Some c))"
proof (intro conjI allI impI)
  obtain A where A: "kernel_inv A (drv d)" "slots_live A (g_slots d)" using assms by (rule reachable_cases)
  note D = kernel_offD [OF A(1)] and S = slots_liveD [OF A(2)]
  show "\<exists>P c. procs (drv d) p = Some P \<and> p_context P = Some c \<and> l_context (g_slots d i) = Some c \<and> l_opened (g_slots d i)"
    if "l_proc (g_slots d i) = Some p" for i p
    using S(1) [OF that] fun_cong [OF D(6), of p] by (auto simp: context_of_def bind_eq_Some_conv)
  show "\<exists>!i. l_proc (g_slots d i) = Some p" if "procs (drv d) p = Some P" for p P
    using S(2) S(3) [of p] kernel_offD(7) [OF A(1), of p] that by auto
  show "\<exists>N p i. nodes (drv d) m = Some N \<and> n_proc N = Some p \<and> l_proc (g_slots d i) = Some p \<and> l_context (g_slots d i) = Some c"
    if mgr: "c_mgr_node (contexts (drv d) c) = Some m" for c m
  proof -
    obtain p where p: "owner_of (drv d) m = Some p" "A p = Some c" using D(2,6) mgr unfolding mgr_ok_def by blast
    then obtain i where i: "l_proc (g_slots d i) = Some p" using S(3) [of p] by auto
    then show ?thesis using p S(1) [OF i] by (auto simp: owner_of_def bind_eq_Some_conv)
  qed
qed

theorem reachable_minors_witness:
  "\<exists>d P. reachable (d, []) \<and> l_proc (g_slots d 0) = Some 7 \<and> procs (drv d) 7 = Some P \<and>
    c_mgr_node (contexts (drv d) 0) = Some 9 \<and> (\<exists>!i. l_proc (g_slots d i) = Some 7)"
proof -
  obtain d where d: "reachable (d, [])" "l_proc (g_slots d 0) = Some 7" "c_mgr_node (contexts (drv d) 0) = Some 9"
    using run_example by blast
  note R = reachable_minors [OF d(1)]
  obtain P where P: "procs (drv d) 7 = Some P" using R d(2) by blast
  then have "\<exists>!i. l_proc (g_slots d i) = Some 7" using R by blast
  then show ?thesis using d P by blast
qed

end
